(* ===== verification/Annety_Prelude.thy ===== *)
theory Annety_Prelude
  imports Main "HOL-Library.Word"
begin

text \<open>
  Shared vocabulary of the development.

  \<^item> \<open>fault\<close> and \<open>'a res\<close>: the ways a call of the library can fail to return. A failed
    \<^verbatim>\<open>assert\<close>, \<^verbatim>\<open>DCHECK\<close> or \<^verbatim>\<open>CHECK\<close> aborts the process (the models are of a build that keeps
    its assertions), an access outside an allocated object and an overflow of a signed integer
    are undefined behaviour, \<open>Bad_syscall\<close> is an abort on the unexpected result of a system call, \<open>Bad_alloc\<close> is the
    exception of a failed allocation, and a \<^verbatim>\<open>std::vector\<close> that would grow past its maximal size throws
    \<^verbatim>\<open>std::length_error\<close>.
  \<^item> \<open>size_add\<close>, \<open>size_sub\<close>, \<open>to_size\<close>: arithmetic of \<^verbatim>\<open>size_t\<close> and the conversion from
    \<^verbatim>\<open>ssize_t\<close>, with the 64-bit wrap-around written out on \<^typ>\<open>nat\<close>.
  \<^item> \<open>bytes_at\<close>, \<open>overwrite\<close>, \<open>resize\<close>, \<open>read_mem\<close>, \<open>write_mem\<close>: contiguous memory as a list of bytes.
\<close>

named_theorems res_simps \<open>evaluation rules of the result type\<close>
named_theorems mem_simps \<open>facts about contiguous memory\<close>

section \<open>Results that may fail\<close>

datatype fault = Check_failed | Out_of_bounds | Length_error | Signed_overflow | Bad_syscall | Bad_alloc

type_synonym 'a res = "fault + 'a"

type_synonym byte = "8 word"

fun bindR :: "'a res \<Rightarrow> ('a \<Rightarrow> 'b res) \<Rightarrow> 'b res" where
  "bindR (Inl e) f = Inl e"
| "bindR (Inr x) f = f x"

definition check :: "bool \<Rightarrow> 'a res \<Rightarrow> 'a res" where
  "check b r = (if b then r else Inl Check_failed)"

definition returns :: "'a res \<Rightarrow> bool" where
  "returns r \<longleftrightarrow> (\<exists>x. r = Inr x)"

lemma bindR_Inr_iff [simp]: "bindR m f = Inr y \<longleftrightarrow> (\<exists>x. m = Inr x \<and> f x = Inr y)"
  by (cases m) auto

lemma bindR_Inr_right [simp]: "bindR m Inr = m"
  by (cases m) auto

lemma bindR_assoc: "bindR (bindR m f) g = bindR m (\<lambda>x. bindR (f x) g)"
  by (cases m) auto

lemma check_True [simp]: "b \<Longrightarrow> check b r = r"
  by (simp add: check_def)

lemma check_Inr_iff [simp]: "check b r = Inr y \<longleftrightarrow> b \<and> r = Inr y"
  by (auto simp: check_def)

lemma returns_Inr [simp]: "returns (Inr x)"
  by (simp add: returns_def)

lemma not_returns_Inl [simp]: "\<not> returns (Inl e)"
  by (simp add: returns_def)

text \<open>\<open>ensures T Q r\<close>: the result \<open>r\<close> is a fault that \<open>T\<close> tolerates, or a value with \<open>Q\<close>.\<close>

definition ensures :: "(fault \<Rightarrow> bool) \<Rightarrow> ('a \<Rightarrow> bool) \<Rightarrow> 'a res \<Rightarrow> bool" where
  "ensures T Q r = (case r of Inl f \<Rightarrow> T f | Inr x \<Rightarrow> Q x)"

lemma ensures_simps [simp]: "ensures T Q (Inl f) = T f" "ensures T Q (Inr x) = Q x"
  by (simp_all add: ensures_def)

lemma ensures_bindR:
  "ensures T P m \<Longrightarrow> (\<And>x. P x \<Longrightarrow> ensures T Q (f x)) \<Longrightarrow> ensures T Q (bindR m f)"
  by (cases m) simp_all

lemma ensures_check: "b \<Longrightarrow> ensures T Q r \<Longrightarrow> ensures T Q (check b r)"
  by simp

lemma ensures_mono: "ensures T P r \<Longrightarrow> (\<And>x. P x \<Longrightarrow> Q x) \<Longrightarrow> ensures T Q r"
  by (cases r) simp_all

lemma ensures_weaken: "ensures T Q r \<Longrightarrow> (\<And>f. T f \<Longrightarrow> U f) \<Longrightarrow> ensures U Q r"
  by (cases r) simp_all

lemma ensures_fault: "ensures T Q r \<Longrightarrow> r = Inl f \<Longrightarrow> T f"
  by simp

lemma ensures_value: "ensures T Q r \<Longrightarrow> r = Inr x \<Longrightarrow> Q x"
  by simp

section \<open>size\_t arithmetic\<close>

text \<open>\<^verbatim>\<open>std::vector<char>::max_size()\<close> of libstdc++ on a 64-bit platform.\<close>

definition vec_max :: nat where
  "vec_max = 2 ^ 63 - 1"

definition size_add :: "nat \<Rightarrow> nat \<Rightarrow> nat" where
  "size_add a b = (a + b) mod 2 ^ 64"

definition size_sub :: "nat \<Rightarrow> nat \<Rightarrow> nat" where
  "size_sub a b = (if b \<le> a then a - b else a + 2 ^ 64 - b)"

definition to_size :: "int \<Rightarrow> nat" where
  "to_size i = nat (i mod 2 ^ 64)"

lemma size_add_small: "a + b < 2 ^ 64 \<Longrightarrow> size_add a b = a + b"
  by (simp add: size_add_def)

lemma size_sub_le [simp]: "b \<le> a \<Longrightarrow> size_sub a b = a - b"
  by (simp add: size_sub_def)

lemma to_size_nonneg: "0 \<le> i \<Longrightarrow> i < 2 ^ 64 \<Longrightarrow> to_size i = nat i"
  by (simp add: to_size_def)

lemma to_size_int [simp]: "n \<le> vec_max \<Longrightarrow> to_size (int n) = n"
  by (simp add: to_size_nonneg vec_max_def)

lemma vec_max_less: "n \<le> vec_max \<Longrightarrow> n < 2 ^ 63"
  by (simp add: vec_max_def)

section \<open>Contiguous memory\<close>

definition bytes_at :: "nat \<Rightarrow> nat \<Rightarrow> 'a list \<Rightarrow> 'a list" where
  "bytes_at off n xs = take n (drop off xs)"

definition overwrite :: "nat \<Rightarrow> 'a list \<Rightarrow> 'a list \<Rightarrow> 'a list" where
  "overwrite off ys xs = take off xs @ ys @ drop (off + length ys) xs"

definition resize :: "nat \<Rightarrow> 'a \<Rightarrow> 'a list \<Rightarrow> 'a list" where
  "resize n fill xs = take n xs @ replicate (n - length xs) fill"

definition read_mem :: "nat \<Rightarrow> nat \<Rightarrow> 'a list \<Rightarrow> 'a list res" where
  "read_mem off n xs = (if off + n \<le> length xs then Inr (bytes_at off n xs) else Inl Out_of_bounds)"

definition write_mem :: "nat \<Rightarrow> 'a list \<Rightarrow> 'a list \<Rightarrow> 'a list res" where
  "write_mem off ys xs =
     (if off + length ys \<le> length xs then Inr (overwrite off ys xs) else Inl Out_of_bounds)"

lemma length_bytes_at [simp]: "length (bytes_at off n xs) = min n (length xs - off)"
  by (simp add: bytes_at_def)

lemma length_overwrite [simp]:
  "off + length ys \<le> length xs \<Longrightarrow> length (overwrite off ys xs) = length xs"
  by (simp add: overwrite_def)

lemma length_resize [simp]: "length (resize n fill xs) = n"
  by (simp add: resize_def)

lemma read_mem_ok [simp]: "off + n \<le> length xs \<Longrightarrow> read_mem off n xs = Inr (bytes_at off n xs)"
  by (simp add: read_mem_def)

lemma write_mem_ok [simp]:
  "off + length ys \<le> length xs \<Longrightarrow> write_mem off ys xs = Inr (overwrite off ys xs)"
  by (simp add: write_mem_def)

lemma bytes_at_resize [mem_simps]:
  "off + n \<le> length xs \<Longrightarrow> off + n \<le> m \<Longrightarrow> bytes_at off n (resize m fill xs) = bytes_at off n xs"
  by (simp add: bytes_at_def resize_def drop_take min_def)

lemma bytes_at_overwrite_before [mem_simps]:
  "off + n \<le> p \<Longrightarrow> p + length ys \<le> length xs \<Longrightarrow> bytes_at off n (overwrite p ys xs) = bytes_at off n xs"
proof -
  assume "off + n \<le> p" "p + length ys \<le> length xs"
  then have "take (off + n) (overwrite p ys xs) = take (off + n) xs"
    by (simp add: overwrite_def min_def)
  then have "drop off (take (off + n) (overwrite p ys xs)) = drop off (take (off + n) xs)"
    by simp
  then show ?thesis by (simp add: bytes_at_def drop_take)
qed

lemma bytes_at_overwrite_same [mem_simps]:
  "p + length ys \<le> length xs \<Longrightarrow> bytes_at p (length ys) (overwrite p ys xs) = ys"
  by (simp add: bytes_at_def overwrite_def)

lemma bytes_at_append_bytes_at [mem_simps]:
  "bytes_at off n xs @ bytes_at (off + n) m xs = bytes_at off (n + m) xs"
  by (simp add: bytes_at_def take_add add.commute [of off n])

lemma bytes_at_0_overwrite [mem_simps]:
  "length ys \<le> length xs \<Longrightarrow> bytes_at 0 (length ys) (overwrite 0 ys xs) = ys"
  by (simp add: bytes_at_def overwrite_def)

lemma drop_bytes_at [mem_simps]: "drop k (bytes_at off n xs) = bytes_at (off + k) (n - k) xs"
  by (simp add: bytes_at_def drop_take add.commute)

lemma take_bytes_at [mem_simps]: "k \<le> n \<Longrightarrow> take k (bytes_at off n xs) = bytes_at off k xs"
  by (simp add: bytes_at_def min_def)

lemma bytes_at_zero [simp]: "bytes_at off 0 xs = []"
  by (simp add: bytes_at_def)

section \<open>Traces of operations, invariants and abstract specifications\<close>

text \<open>
  A component is a state with a \<open>step\<close> per operation that yields an output. \<open>run_steps\<close> performs
  a sequence of operations and stops at the first fault. In a \<open>step_invariant\<close> every operation keeps the
  invariant and has only tolerated faults, and so has every sequence. An abstract specification says which
  outputs an operation may give in an abstract state (\<open>allowed\<close>) and what state follows
  (\<open>next\<close>); \<open>spec_trace\<close> and \<open>spec_final\<close> extend it to sequences.
\<close>

fun run_steps :: "('s \<Rightarrow> 'o \<Rightarrow> ('r \<times> 's) res) \<Rightarrow> 's \<Rightarrow> 'o list \<Rightarrow> ('r list \<times> 's) res" where
  "run_steps step s [] = Inr ([], s)"
| "run_steps step s (x # xs) =
     bindR (step s x) (\<lambda>(r, s'). bindR (run_steps step s' xs) (\<lambda>(rs, s''). Inr (r # rs, s'')))"

text \<open>A run that stops does so at one operation, in the state the operations before it lead to.\<close>

lemma run_steps_fault:
  "run_steps step s xs = Inl f \<Longrightarrow>
     \<exists>ys x zs rs s'. xs = ys @ x # zs \<and> run_steps step s ys = Inr (rs, s') \<and> step s' x = Inl f"
proof (induction xs arbitrary: s)
  case (Cons x xs)
  show ?case
  proof (cases "step s x")
    case (Inl g)
    with Cons.prems have "x # xs = [] @ x # xs \<and> run_steps step s [] = Inr ([], s) \<and> step s x = Inl f" by simp
    then show ?thesis by blast
  next
    case (Inr y)
    obtain r t where y: "y = (r, t)" by (cases y)
    with Cons.prems Inr have "run_steps step t xs = Inl f" by (cases "run_steps step t xs") auto
    from Cons.IH [OF this] obtain ys z zs rs s' where
      "xs = ys @ z # zs" "run_steps step t ys = Inr (rs, s')" "step s' z = Inl f" by blast
    then have "x # xs = (x # ys) @ z # zs \<and> run_steps step s (x # ys) = Inr (r # rs, s') \<and> step s' z = Inl f"
      using Inr y by simp
    then show ?thesis by blast
  qed
qed simp

fun spec_trace :: "('a \<Rightarrow> 'o \<Rightarrow> 'r \<Rightarrow> bool) \<Rightarrow> ('a \<Rightarrow> 'o \<Rightarrow> 'r \<Rightarrow> 'a) \<Rightarrow> 'a \<Rightarrow> 'o list \<Rightarrow> 'r list \<Rightarrow> bool" where
  "spec_trace allowed nxt a [] [] = True"
| "spec_trace allowed nxt a (x # xs) (r # rs) =
     (allowed a x r \<and> spec_trace allowed nxt (nxt a x r) xs rs)"
| "spec_trace allowed nxt a _ _ = False"

fun spec_final :: "('a \<Rightarrow> 'o \<Rightarrow> 'r \<Rightarrow> 'a) \<Rightarrow> 'a \<Rightarrow> 'o list \<Rightarrow> 'r list \<Rightarrow> 'a" where
  "spec_final nxt a (x # xs) (r # rs) = spec_final nxt (nxt a x r) xs rs"
| "spec_final nxt a _ _ = a"

locale step_invariant =
  fixes inv :: "'s \<Rightarrow> bool"
    and step :: "'s \<Rightarrow> 'o \<Rightarrow> ('r \<times> 's) res"
    and legal :: "'o \<Rightarrow> bool"
    and tolerated :: "fault \<Rightarrow> bool"
  assumes step_fault: "inv s \<Longrightarrow> legal x \<Longrightarrow> step s x = Inl f \<Longrightarrow> tolerated f"
    and step_inv: "inv s \<Longrightarrow> legal x \<Longrightarrow> step s x = Inr (r, s') \<Longrightarrow> inv s'"
begin

lemma run_fault:
  "inv s \<Longrightarrow> list_all legal xs \<Longrightarrow> run_steps step s xs = Inl f \<Longrightarrow> tolerated f"
proof (induction xs arbitrary: s)
  case (Cons x xs)
  show ?case
  proof (cases "step s x")
    case (Inl g)
    with Cons.prems show ?thesis by (auto intro: step_fault)
  next
    case (Inr y)
    obtain r s' where y: "y = (r, s')" by (cases y)
    have "inv s'" using step_inv [of s x r s'] Cons.prems Inr y by simp
    moreover from Cons.prems(3) have "run_steps step s' xs = Inl f"
      using Inr y by (cases "run_steps step s' xs") auto
    ultimately show ?thesis using Cons.IH Cons.prems(2) by simp
  qed
qed simp

lemma run_inv:
  "inv s \<Longrightarrow> list_all legal xs \<Longrightarrow> run_steps step s xs = Inr (rs, s') \<Longrightarrow> inv s'"
proof (induction xs arbitrary: s rs)
  case (Cons x xs)
  from Cons.prems(3) obtain r t rs' where "step s x = Inr (r, t)" "run_steps step t xs = Inr (rs', s')" by auto
  with Cons step_inv [of s x r t] show ?case by simp
qed simp

end

locale trace_refinement =
  fixes inv :: "'s \<Rightarrow> bool"
    and abs :: "'s \<Rightarrow> 'a"
    and step :: "'s \<Rightarrow> 'o \<Rightarrow> ('r \<times> 's) res"
    and legal :: "'o \<Rightarrow> bool"
    and allowed :: "'a \<Rightarrow> 'o \<Rightarrow> 'r \<Rightarrow> bool"
    and nxt :: "'a \<Rightarrow> 'o \<Rightarrow> 'r \<Rightarrow> 'a"
    and tolerated :: "fault \<Rightarrow> bool"
  assumes refines_fault: "inv s \<Longrightarrow> legal x \<Longrightarrow> step s x = Inl f \<Longrightarrow> tolerated f"
    and step_refines: "inv s \<Longrightarrow> legal x \<Longrightarrow> step s x = Inr (r, s') \<Longrightarrow>
      inv s' \<and> allowed (abs s) x r \<and> abs s' = nxt (abs s) x r"

sublocale trace_refinement \<subseteq> step_invariant inv step legal tolerated
  by unfold_locales (auto dest: refines_fault step_refines)

context trace_refinement
begin

lemma run_refines:
  "inv s \<Longrightarrow> list_all legal xs \<Longrightarrow> run_steps step s xs = Inr (rs, s') \<Longrightarrow>
     inv s' \<and> spec_trace allowed nxt (abs s) xs rs \<and> abs s' = spec_final nxt (abs s) xs rs"
proof (induction xs arbitrary: s rs)
  case (Cons x xs)
  from Cons.prems(3) obtain r t rs' where
    st: "step s x = Inr (r, t)" "run_steps step t xs = Inr (rs', s')" "rs = r # rs'"
    by auto
  have t: "inv t \<and> allowed (abs s) x r \<and> abs t = nxt (abs s) x r"
    using step_refines [of s x r t] Cons.prems(1,2) st(1) by simp
  with Cons.IH [of t rs'] Cons.prems(2) st(2) show ?case by (simp add: st(3))
qed simp

end

section \<open>Lists without one element\<close>

definition remove_nth :: "nat \<Rightarrow> 'b list \<Rightarrow> 'b list" where
  "remove_nth i xs = take i xs @ drop (Suc i) xs"

lemma length_remove_nth [simp]: "i < length xs \<Longrightarrow> length (remove_nth i xs) = length xs - 1"
  by (simp add: remove_nth_def)

text \<open>The values of a list of optional ones.\<close>

fun somes :: "'a option list \<Rightarrow> 'a list" where
  "somes [] = []"
| "somes (None # xs) = somes xs"
| "somes (Some x # xs) = x # somes xs"

lemma somes_append [simp]: "somes (xs @ ys) = somes xs @ somes ys"
  by (induction xs rule: somes.induct) simp_all

lemma somes_replicate_Some [simp]: "somes (replicate n (Some x)) = replicate n x"
  by (induction n) simp_all

end
