(* ===== verification/Byte_Buffer.thy ===== *)
theory Byte_Buffer
  imports Annety_Prelude
begin

text \<open>
  \<^verbatim>\<open>ByteBuffer\<close> (include/ByteBuffer.h, src/ByteBuffer.cc): a \<^verbatim>\<open>std::vector<char>\<close> with a reader and
  a writer index, of unlimited or of fixed maximal size. The record below has the fields of
  the class; a pointer into the vector is an offset. Every \<^verbatim>\<open>assert\<close> is a \<open>check\<close>, every copy into
  or out of the vector is a \<open>write_mem\<close> or \<open>read_mem\<close>, which fails when it leaves the vector.

  \<open>bb_inv\<close> is the representation invariant, \<open>contents\<close> the abstraction to the readable bytes.
  The locale \<open>byte_fifo\<close> states the contract the clients of a buffer rely on (append at the
  end, consume at the front, never a failed assertion), and is interpreted on the model of
  \<^verbatim>\<open>ByteBuffer\<close> at the end of the theory.
\<close>

section \<open>State\<close>

record byte_buffer =
  max_size :: int
  reader_index :: nat
  writer_index :: nat
  buffer :: "byte list"

definition kUnLimitSize :: int where
  "kUnLimitSize = -1"

definition kInitialSize :: nat where
  "kInitialSize = 1024"

section \<open>Operations\<close>

definition new_buffer :: "int \<Rightarrow> nat \<Rightarrow> byte_buffer res" where
  "new_buffer msize init =
     (let n = (if msize > 0 then to_size msize else init)
      in if n > vec_max then Inl Length_error
         else Inr \<lparr>max_size = msize, reader_index = 0, writer_index = 0, buffer = replicate n 0\<rparr>)"

definition buf_size :: "byte_buffer \<Rightarrow> nat" where
  "buf_size bb = length (buffer bb)"

definition reset :: "byte_buffer \<Rightarrow> byte_buffer" where
  "reset bb = bb\<lparr>reader_index := 0, writer_index := 0\<rparr>"

definition readable_bytes :: "byte_buffer \<Rightarrow> nat res" where
  "readable_bytes bb =
     check (writer_index bb \<ge> reader_index bb) (Inr (writer_index bb - reader_index bb))"

definition writable_bytes :: "byte_buffer \<Rightarrow> nat res" where
  "writable_bytes bb =
     check (buf_size bb \<ge> writer_index bb)
       (if max_size bb \<noteq> kUnLimitSize
        then check (to_size (max_size bb) \<ge> writer_index bb)
               (Inr (to_size (max_size bb) - writer_index bb))
        else Inr (buf_size bb - writer_index bb))"

text \<open>\<^verbatim>\<open>begin_read()\<close> and \<^verbatim>\<open>begin_write()\<close> as offsets from \<^verbatim>\<open>data()\<close>.\<close>

definition begin_read :: "byte_buffer \<Rightarrow> nat res" where
  "begin_read bb = check (reader_index bb \<le> writer_index bb) (Inr (reader_index bb))"

definition begin_write :: "byte_buffer \<Rightarrow> nat res" where
  "begin_write bb = check (writer_index bb \<le> buf_size bb) (Inr (writer_index bb))"

definition has_written :: "byte_buffer \<Rightarrow> nat \<Rightarrow> byte_buffer res" where
  "has_written bb len =
     bindR (writable_bytes bb) (\<lambda>w.
       check (w \<ge> len) (Inr (bb\<lparr>writer_index := writer_index bb + len\<rparr>)))"

definition has_read :: "byte_buffer \<Rightarrow> nat \<Rightarrow> byte_buffer res" where
  "has_read bb len =
     bindR (readable_bytes bb) (\<lambda>n.
       if len < n then Inr (bb\<lparr>reader_index := reader_index bb + len\<rparr>)
       else Inr (reset bb))"

definition has_read_all :: "byte_buffer \<Rightarrow> byte_buffer" where
  "has_read_all bb = reset bb"

definition to_string :: "byte_buffer \<Rightarrow> byte list res" where
  "to_string bb =
     bindR (begin_read bb) (\<lambda>p. bindR (readable_bytes bb) (\<lambda>n. read_mem p n (buffer bb)))"

definition taken_as_string :: "byte_buffer \<Rightarrow> int \<Rightarrow> (byte list \<times> byte_buffer) res" where
  "taken_as_string bb len =
     bindR (readable_bytes bb) (\<lambda>n.
       let len' = (if len \<le> -1 then n else to_size len)
       in check (len' \<le> n)
            (bindR (begin_read bb) (\<lambda>p.
             bindR (read_mem p len' (buffer bb)) (\<lambda>result.
             bindR (has_read bb len') (\<lambda>bb'.
             Inr (result, bb'))))))"

definition vec_resize :: "byte_buffer \<Rightarrow> nat \<Rightarrow> byte_buffer res" where
  "vec_resize bb n =
     (if n > vec_max then Inl Length_error else Inr (bb\<lparr>buffer := resize n 0 (buffer bb)\<rparr>))"

definition migration_buffer_data :: "byte_buffer \<Rightarrow> byte_buffer res" where
  "migration_buffer_data bb =
     bindR (begin_read bb) (\<lambda>p.
       if p \<noteq> 0 then
         bindR (readable_bytes bb) (\<lambda>readable.
         bindR (begin_write bb) (\<lambda>q.
         bindR (read_mem p (q - p) (buffer bb)) (\<lambda>bytes.
         bindR (write_mem 0 bytes (buffer bb)) (\<lambda>mem.
           let bb' = bb\<lparr>buffer := mem, reader_index := 0, writer_index := readable\<rparr>
           in bindR (readable_bytes bb') (\<lambda>r. check (readable = r) (Inr bb'))))))
       else Inr bb)"

definition make_writable_bytes :: "byte_buffer \<Rightarrow> nat \<Rightarrow> byte_buffer res" where
  "make_writable_bytes bb len =
     bindR (writable_bytes bb) (\<lambda>w.
       let real_writeable_bytes =
             (if max_size bb \<noteq> kUnLimitSize
              then size_sub (min (to_size (max_size bb)) (buf_size bb)) (writer_index bb)
              else w)
       in if real_writeable_bytes < len then
            (if max_size bb \<noteq> kUnLimitSize
                \<and> size_sub (to_size (max_size bb)) (writer_index bb) < len
             then Inr bb
             else vec_resize bb (size_add (writer_index bb) len))
          else bindR (begin_read bb) (\<lambda>p.
                 if p \<noteq> 0 then migration_buffer_data bb else Inr bb))"

definition ensure_writable_bytes :: "byte_buffer \<Rightarrow> nat \<Rightarrow> byte_buffer res" where
  "ensure_writable_bytes bb len = make_writable_bytes bb len"

definition buf_append :: "byte_buffer \<Rightarrow> byte list \<Rightarrow> (bool \<times> byte_buffer) res" where
  "buf_append bb data =
     bindR (ensure_writable_bytes bb (length data)) (\<lambda>bb1.
     bindR (writable_bytes bb1) (\<lambda>w.
       if w \<ge> length data then
         bindR (begin_write bb1) (\<lambda>p.
         bindR (write_mem p data (buffer bb1)) (\<lambda>mem.
         bindR (has_written (bb1\<lparr>buffer := mem\<rparr>) (length data)) (\<lambda>bb2.
         Inr (True, bb2))))
       else Inr (False, bb1)))"

definition shrink :: "byte_buffer \<Rightarrow> byte_buffer res" where
  "shrink bb =
     bindR (migration_buffer_data bb) (\<lambda>bb1.
     bindR (readable_bytes bb1) (\<lambda>n. vec_resize bb1 n))"

definition swap :: "byte_buffer \<Rightarrow> byte_buffer \<Rightarrow> byte_buffer \<times> byte_buffer" where
  "swap bb rhs =
     (\<lparr>max_size = max_size rhs, reader_index = reader_index rhs,
       writer_index = writer_index rhs, buffer = buffer rhs\<rparr>,
      \<lparr>max_size = max_size bb, reader_index = reader_index bb,
       writer_index = writer_index bb, buffer = buffer bb\<rparr>)"

text \<open>The move constructor leaves the source with an empty vector; move assignment swaps.\<close>

definition move_construct :: "byte_buffer \<Rightarrow> byte_buffer \<times> byte_buffer" where
  "move_construct rhs =
     (\<lparr>max_size = max_size rhs, reader_index = reader_index rhs,
       writer_index = writer_index rhs, buffer = buffer rhs\<rparr>,
      reset (rhs\<lparr>buffer := []\<rparr>))"

definition move_assign :: "byte_buffer \<Rightarrow> byte_buffer \<Rightarrow> byte_buffer \<times> byte_buffer" where
  "move_assign bb rhs = (case swap bb rhs of (bb', rhs') \<Rightarrow> (bb', reset rhs'))"

section \<open>Invariant and abstraction\<close>

definition bb_inv :: "byte_buffer \<Rightarrow> bool" where
  "bb_inv bb \<longleftrightarrow>
     reader_index bb \<le> writer_index bb \<and> writer_index bb \<le> length (buffer bb)
     \<and> length (buffer bb) \<le> vec_max
     \<and> (max_size bb = kUnLimitSize
        \<or> 0 \<le> max_size bb \<and> max_size bb \<le> int vec_max \<and> int (writer_index bb) \<le> max_size bb)"

definition contents :: "byte_buffer \<Rightarrow> byte list" where
  "contents bb = bytes_at (reader_index bb) (writer_index bb - reader_index bb) (buffer bb)"

text \<open>How far the writer index may go: the maximal size of a fixed-length buffer, the
  maximal size of a vector otherwise.\<close>

definition write_limit :: "byte_buffer \<Rightarrow> nat" where
  "write_limit bb = (if max_size bb = kUnLimitSize then vec_max else nat (max_size bb))"

section \<open>Each operation under the invariant\<close>

lemmas bb_defs = bb_inv_def contents_def buf_size_def write_limit_def kUnLimitSize_def

lemma to_size_max:
  "bb_inv bb \<Longrightarrow> max_size bb \<noteq> kUnLimitSize \<Longrightarrow> to_size (max_size bb) = write_limit bb"
  by (auto simp: bb_defs to_size_nonneg vec_max_def)

lemma inv_limit: "bb_inv bb \<Longrightarrow> writer_index bb \<le> write_limit bb \<and> write_limit bb \<le> vec_max"
  by (auto simp: bb_defs)

lemma length_contents: "bb_inv bb \<Longrightarrow> length (contents bb) = writer_index bb - reader_index bb"
  by (auto simp: bb_defs)

lemma length_contents_le: "bb_inv bb \<Longrightarrow> length (contents bb) \<le> vec_max"
  using inv_limit [of bb] by (auto simp: length_contents)

lemma readable_bytes_inv: "bb_inv bb \<Longrightarrow> readable_bytes bb = Inr (length (contents bb))"
  by (simp add: readable_bytes_def length_contents) (simp add: bb_inv_def)

lemma begin_read_inv: "bb_inv bb \<Longrightarrow> begin_read bb = Inr (reader_index bb)"
  by (simp add: begin_read_def bb_inv_def)

lemma begin_write_inv: "bb_inv bb \<Longrightarrow> begin_write bb = Inr (writer_index bb)"
  by (simp add: begin_write_def bb_inv_def buf_size_def)

lemma writable_bytes_inv:
  "bb_inv bb \<Longrightarrow> writable_bytes bb =
     Inr ((if max_size bb = kUnLimitSize then buf_size bb else write_limit bb) - writer_index bb)"
  using inv_limit [of bb] to_size_max [of bb]
  by (auto simp: writable_bytes_def) (auto simp: bb_inv_def buf_size_def)

lemma read_contents: "bb_inv bb \<Longrightarrow> n \<le> length (contents bb) \<Longrightarrow>
   read_mem (reader_index bb) n (buffer bb) = Inr (take n (contents bb))"
  by (subst read_mem_ok) (auto simp: contents_def take_bytes_at bb_inv_def)

lemma read_contents_at: "bb_inv bb \<Longrightarrow> off + n \<le> length (contents bb) \<Longrightarrow>
   read_mem (reader_index bb + off) n (buffer bb) = Inr (take n (drop off (contents bb)))"
  by (subst read_mem_ok) (auto simp: contents_def take_bytes_at drop_bytes_at bb_inv_def)

lemma to_string_inv: "bb_inv bb \<Longrightarrow> to_string bb = Inr (contents bb)"
  by (simp add: to_string_def begin_read_inv readable_bytes_inv read_contents)

lemma reset_inv: "bb_inv bb \<Longrightarrow> bb_inv (reset bb) \<and> contents (reset bb) = []"
  by (auto simp: bb_defs reset_def)

lemma has_read_inv:
  assumes "bb_inv bb"
  shows "\<exists>bb'. has_read bb n = Inr bb' \<and> bb_inv bb' \<and> contents bb' = drop n (contents bb)
           \<and> writer_index bb' \<le> writer_index bb \<and> write_limit bb' = write_limit bb"
proof (cases "n < length (contents bb)")
  case True
  with assms show ?thesis
    by (auto simp: has_read_def readable_bytes_inv) (auto simp: bb_defs mem_simps)
next
  case False
  with assms reset_inv [of bb] show ?thesis
    by (auto simp: has_read_def readable_bytes_inv) (auto simp: reset_def write_limit_def)
qed

lemma migration_inv:
  assumes "bb_inv bb"
  shows "\<exists>bb'. migration_buffer_data bb = Inr bb' \<and> bb_inv bb' \<and> contents bb' = contents bb
           \<and> reader_index bb' = 0 \<and> writer_index bb' = length (contents bb)
           \<and> buf_size bb' = buf_size bb \<and> max_size bb' = max_size bb"
proof (cases "reader_index bb = 0")
  case True
  with assms show ?thesis
    by (simp add: migration_buffer_data_def begin_read_inv length_contents buf_size_def)
next
  case False
  let ?n = "writer_index bb - reader_index bb"
  have r: "read_mem (reader_index bb) ?n (buffer bb) = Inr (contents bb)"
    using read_contents [OF assms, of ?n] by (simp add: length_contents [OF assms])
  have l: "length (contents bb) \<le> length (buffer bb)"
    using assms by (auto simp: length_contents bb_inv_def)
  have b: "bytes_at 0 ?n (overwrite 0 (contents bb) (buffer bb)) = contents bb"
    using bytes_at_0_overwrite [OF l] by (simp add: length_contents [OF assms])
  from False assms l show ?thesis
    by (simp add: migration_buffer_data_def begin_read_inv begin_write_inv readable_bytes_inv r Let_def)
       (auto simp: readable_bytes_def bb_inv_def contents_def [of "bb\<lparr>buffer := _, reader_index := _, writer_index := _\<rparr>"] b buf_size_def length_contents [OF assms])
qed

text \<open>What \<^verbatim>\<open>make_writable_bytes\<close> may do: nothing when a fixed-length buffer has no room, grow the
  vector to hold \<open>len\<close> more bytes, or move the readable bytes to the front.\<close>

lemma make_writable_bytes_full:
  assumes "bb_inv bb" and "max_size bb \<noteq> kUnLimitSize" and "write_limit bb < writer_index bb + len"
  shows "make_writable_bytes bb len = Inr bb"
proof -
  have "min (write_limit bb) (buf_size bb) - writer_index bb < len"
    "write_limit bb - writer_index bb < len"
    using assms(3) inv_limit [OF assms(1)] by auto
  moreover have "writer_index bb \<le> min (write_limit bb) (buf_size bb)"
    using assms(1) inv_limit [OF assms(1)] by (auto simp: bb_inv_def buf_size_def)
  ultimately show ?thesis
    using assms(1,2) inv_limit [OF assms(1)]
    by (simp add: make_writable_bytes_def writable_bytes_inv to_size_max Let_def)
qed

lemma vec_resize_grow:
  assumes "bb_inv bb" and "writer_index bb + len \<le> write_limit bb"
  shows "\<exists>bb'. vec_resize bb (size_add (writer_index bb) len) = Inr bb' \<and> bb_inv bb'
           \<and> contents bb' = contents bb \<and> reader_index bb' = reader_index bb
           \<and> writer_index bb' = writer_index bb \<and> buf_size bb' = writer_index bb + len
           \<and> max_size bb' = max_size bb"
proof -
  have "writer_index bb + len \<le> vec_max"
    using assms inv_limit [OF assms(1)] by simp
  then have "size_add (writer_index bb) len = writer_index bb + len"
    by (simp add: size_add_small vec_max_def)
  with assms \<open>writer_index bb + len \<le> vec_max\<close> show ?thesis
    by (auto simp: vec_resize_def bb_inv_def contents_def buf_size_def bytes_at_resize)
qed

lemma make_writable_bytes_room:
  assumes inv: "bb_inv bb" and room: "writer_index bb + len \<le> write_limit bb"
  shows "\<exists>bb'. make_writable_bytes bb len = Inr bb' \<and> bb_inv bb' \<and> contents bb' = contents bb
           \<and> writer_index bb' \<le> writer_index bb \<and> writer_index bb' + len \<le> buf_size bb'
           \<and> max_size bb' = max_size bb"
proof -
  define real where "real = (if max_size bb \<noteq> kUnLimitSize
      then min (write_limit bb) (buf_size bb) - writer_index bb
      else buf_size bb - writer_index bb)"
  have w: "writer_index bb \<le> buf_size bb" "writer_index bb \<le> write_limit bb"
    using inv inv_limit [OF inv] by (auto simp: bb_inv_def buf_size_def)
  have mk: "make_writable_bytes bb len =
      (if real < len then vec_resize bb (size_add (writer_index bb) len)
       else if reader_index bb \<noteq> 0 then migration_buffer_data bb else Inr bb)"
    using inv room w
    by (auto simp: make_writable_bytes_def writable_bytes_inv to_size_max begin_read_inv
          Let_def real_def)
  show ?thesis
  proof (cases "real < len")
    case True
    with mk vec_resize_grow [OF inv room] show ?thesis by auto
  next
    case False
    then have "writer_index bb + len \<le> buf_size bb"
      using w by (auto simp: real_def split: if_splits)
    with mk False migration_inv [OF inv] inv show ?thesis
      by (fastforce simp: length_contents)
  qed
qed

lemma write_limit_cong: "max_size bb' = max_size bb \<Longrightarrow> write_limit bb' = write_limit bb"
  by (simp add: write_limit_def)

lemma write_then_has_written:
  assumes "bb_inv bb" and "writer_index bb + length data \<le> write_limit bb"
    and "writer_index bb + length data \<le> buf_size bb"
  shows "\<exists>bb'. bindR (write_mem (writer_index bb) data (buffer bb))
                 (\<lambda>mem. has_written (bb\<lparr>buffer := mem\<rparr>) (length data)) = Inr bb'
           \<and> bb_inv bb' \<and> contents bb' = contents bb @ data
           \<and> writer_index bb' = writer_index bb + length data \<and> max_size bb' = max_size bb"
proof -
  let ?mem = "overwrite (writer_index bb) data (buffer bb)"
  let ?bb = "bb\<lparr>buffer := ?mem\<rparr>"
  let ?n = "writer_index bb - reader_index bb"
  have len: "writer_index bb + length data \<le> length (buffer bb)"
    using assms(3) by (simp add: buf_size_def)
  have inv: "bb_inv ?bb" using assms(1) len by (simp add: bb_inv_def)
  have hw: "has_written ?bb (length data)
      = Inr (?bb\<lparr>writer_index := writer_index bb + length data\<rparr>)"
    using inv assms(2,3) len
    by (auto simp: has_written_def writable_bytes_inv buf_size_def write_limit_def)
  have "bytes_at (reader_index bb) (?n + length data) ?mem
      = bytes_at (reader_index bb) ?n ?mem @ bytes_at (reader_index bb + ?n) (length data) ?mem"
    by (simp add: bytes_at_append_bytes_at)
  also have "\<dots> = contents bb @ data"
    using len assms(1)
    by (simp add: bb_inv_def contents_def bytes_at_overwrite_before bytes_at_overwrite_same)
  finally have "bytes_at (reader_index bb) (writer_index bb + length data - reader_index bb) ?mem
      = contents bb @ data"
    using assms(1) by (simp add: bb_inv_def)
  with hw len assms(1,2) show ?thesis
    by (auto simp: bb_inv_def contents_def write_limit_def)
qed

lemma buf_append_room:
  assumes "bb_inv bb" and "writer_index bb + length data \<le> write_limit bb"
  shows "\<exists>bb'. buf_append bb data = Inr (True, bb') \<and> bb_inv bb'
           \<and> contents bb' = contents bb @ data
           \<and> writer_index bb' \<le> writer_index bb + length data
           \<and> write_limit bb' = write_limit bb"
proof -
  obtain bb1 where m: "make_writable_bytes bb (length data) = Inr bb1" "bb_inv bb1"
    "contents bb1 = contents bb" "writer_index bb1 \<le> writer_index bb"
    "writer_index bb1 + length data \<le> buf_size bb1" "max_size bb1 = max_size bb"
    using make_writable_bytes_room [OF assms] by blast
  have lim: "write_limit bb1 = write_limit bb" using m(6) by (rule write_limit_cong)
  have room: "writer_index bb1 + length data \<le> write_limit bb1"
    using m(4) assms(2) lim by simp
  from write_then_has_written [OF m(2) room m(5)] obtain bb2 where
    w: "bindR (write_mem (writer_index bb1) data (buffer bb1))
          (\<lambda>mem. has_written (bb1\<lparr>buffer := mem\<rparr>) (length data)) = Inr bb2"
      "bb_inv bb2" "contents bb2 = contents bb1 @ data"
      "writer_index bb2 = writer_index bb1 + length data" "max_size bb2 = max_size bb1"
    by blast
  have "buf_append bb data = Inr (True, bb2)"
    using m(2,5) room w(1)
    by (auto simp: buf_append_def ensure_writable_bytes_def m(1) writable_bytes_inv begin_write_inv)
  moreover have "write_limit bb2 = write_limit bb"
    using w(5) m(6) by (simp add: write_limit_def)
  ultimately show ?thesis using m w by auto
qed

lemma buf_append_full:
  assumes "bb_inv bb" and "max_size bb \<noteq> kUnLimitSize"
    and "write_limit bb < writer_index bb + length data"
  shows "buf_append bb data = Inr (False, bb)"
  using assms inv_limit [OF assms(1)]
  by (auto simp: buf_append_def ensure_writable_bytes_def make_writable_bytes_full writable_bytes_inv)

lemma buf_append_overflow:
  assumes "bb_inv bb" and "max_size bb = kUnLimitSize" and "length data \<le> vec_max"
    and "vec_max < writer_index bb + length data"
  shows "buf_append bb data = Inl Length_error"
proof -
  have "writer_index bb \<le> buf_size bb" "buf_size bb \<le> vec_max"
    using assms(1) by (auto simp: bb_inv_def buf_size_def)
  moreover from this have "size_add (writer_index bb) (length data) = writer_index bb + length data"
    using assms(3) by (simp add: size_add_small vec_max_def)
  ultimately show ?thesis
    using assms
    by (auto simp: buf_append_def ensure_writable_bytes_def make_writable_bytes_def
          writable_bytes_inv vec_resize_def Let_def)
qed

lemma taken_as_string_inv:
  assumes "bb_inv bb" and "len \<le> -1 \<or> 0 \<le> len \<and> len \<le> int (length (contents bb))"
  defines "n \<equiv> (if len \<le> -1 then length (contents bb) else nat len)"
  shows "\<exists>bb'. taken_as_string bb len = Inr (take n (contents bb), bb') \<and> bb_inv bb'
           \<and> contents bb' = drop n (contents bb)
           \<and> writer_index bb' \<le> writer_index bb \<and> write_limit bb' = write_limit bb"
proof -
  have "length (contents bb) \<le> vec_max"
    using assms(1) by (rule length_contents_le)
  then have n: "(if len \<le> -1 then length (contents bb) else to_size len) = n" "n \<le> length (contents bb)"
    using assms(2) by (auto simp: n_def to_size_nonneg vec_max_def)
  from has_read_inv [OF assms(1), of n] n(2) assms(1) show ?thesis
    by (auto simp: taken_as_string_def readable_bytes_inv Let_def n(1) begin_read_inv read_contents)
qed

lemma shrink_inv:
  assumes "bb_inv bb"
  shows "\<exists>bb'. shrink bb = Inr bb' \<and> bb_inv bb' \<and> contents bb' = contents bb
           \<and> buf_size bb' = length (contents bb) \<and> write_limit bb' = write_limit bb"
proof -
  obtain bb1 where m: "migration_buffer_data bb = Inr bb1" "bb_inv bb1" "contents bb1 = contents bb"
    "reader_index bb1 = 0" "writer_index bb1 = length (contents bb)" "max_size bb1 = max_size bb"
    using migration_inv [OF assms] by blast
  have "length (contents bb) \<le> vec_max"
    using assms by (rule length_contents_le)
  moreover have "length (contents bb) \<le> length (buffer bb1)"
    using m(2,5) by (simp add: bb_inv_def)
  ultimately show ?thesis
    using m
    by (auto simp: shrink_def readable_bytes_inv vec_resize_def write_limit_def buf_size_def)
       (auto simp: bb_inv_def contents_def [of bb1] contents_def [of "bb1\<lparr>buffer := _\<rparr>"] bytes_at_resize)
qed

section \<open>The contract of a byte queue\<close>

text \<open>\<open>append_all\<close> performs several appends and ignores their results, as the callers of
  \<^verbatim>\<open>append\<close> in the codecs do.\<close>

fun append_all :: "('b \<Rightarrow> byte list \<Rightarrow> (bool \<times> 'b) res) \<Rightarrow> 'b \<Rightarrow> byte list list \<Rightarrow> 'b res" where
  "append_all ap b [] = Inr b"
| "append_all ap b (xs # xss) = bindR (ap b xs) (\<lambda>(ok, b'). append_all ap b' xss)"

locale byte_fifo =
  fixes inv :: "'b \<Rightarrow> bool"
    and bytes :: "'b \<Rightarrow> byte list"
    and used :: "'b \<Rightarrow> nat"
    and limit :: "'b \<Rightarrow> nat"
    and readable :: "'b \<Rightarrow> nat res"
    and append :: "'b \<Rightarrow> byte list \<Rightarrow> (bool \<times> 'b) res"
    and consume :: "'b \<Rightarrow> nat \<Rightarrow> 'b res"
  assumes readable_ok: "inv b \<Longrightarrow> readable b = Inr (length (bytes b))"
    and append_ok: "inv b \<Longrightarrow> used b + length xs \<le> limit b \<Longrightarrow>
      \<exists>b'. append b xs = Inr (True, b') \<and> inv b' \<and> bytes b' = bytes b @ xs
         \<and> used b' \<le> used b + length xs \<and> limit b' = limit b"
    and consume_ok: "inv b \<Longrightarrow>
      \<exists>b'. consume b n = Inr b' \<and> inv b' \<and> bytes b' = drop n (bytes b)
         \<and> used b' \<le> used b \<and> limit b' = limit b"
begin

lemma append_all_ok:
  "inv b \<Longrightarrow> used b + length (concat xss) \<le> limit b \<Longrightarrow>
     \<exists>b'. append_all append b xss = Inr b' \<and> inv b' \<and> bytes b' = bytes b @ concat xss
        \<and> used b' \<le> used b + length (concat xss) \<and> limit b' = limit b"
proof (induction xss arbitrary: b)
  case (Cons xs xss)
  obtain b1 where b1: "append b xs = Inr (True, b1)" "inv b1" "bytes b1 = bytes b @ xs"
    "used b1 \<le> used b + length xs" "limit b1 = limit b"
    using append_ok [of b xs] Cons.prems by auto
  with Cons.IH [OF b1(2)] Cons.prems show ?case by fastforce
qed simp

lemma append_consume_ok:
  assumes "inv b" and "bytes b = []" and "used b + length xs \<le> limit b" and "k \<le> length xs"
  shows "\<exists>b1 b2. append b xs = Inr (True, b1) \<and> bytes b1 = xs \<and> inv b1
           \<and> consume b1 k = Inr b2 \<and> bytes b2 = drop k xs \<and> inv b2"
  using append_ok [OF assms(1,3)] consume_ok assms(2) by fastforce

end

interpretation bb: byte_fifo bb_inv contents writer_index write_limit readable_bytes buf_append has_read
  by unfold_locales (simp_all add: readable_bytes_inv buf_append_room has_read_inv)

section \<open>Sequences of buffer operations\<close>

text \<open>The public operations of the class and what they return. \<open>Op_write\<close> is what a client does that fills the
  writable space itself: it writes at \<^verbatim>\<open>begin_write()\<close> and calls \<^verbatim>\<open>has_written\<close>; without a write of its own this
  hands out the bytes that are there. The other buffer of \<^verbatim>\<open>swap\<close> and of the copies and moves is an argument, and an
  output when the operation changes it: \<open>Op_move_assign\<close> moves another buffer into this one, \<open>Op_move_to\<close> this
  one into another, and \<open>Op_move_out\<close> constructs another from this one.\<close>

datatype buf_op =
    Op_append "byte list"
  | Op_ensure nat
  | Op_write "byte list"
  | Op_has_read nat
  | Op_has_read_all
  | Op_reset
  | Op_readable_bytes
  | Op_to_string
  | Op_take int
  | Op_shrink
  | Op_swap byte_buffer
  | Op_assign byte_buffer
  | Op_move_assign byte_buffer
  | Op_move_to byte_buffer
  | Op_move_out

datatype buf_out = Out_unit | Out_bool bool | Out_size nat | Out_bytes "byte list" | Out_buffer byte_buffer

definition write_directly :: "byte_buffer \<Rightarrow> byte list \<Rightarrow> byte_buffer res" where
  "write_directly bb data =
     bindR (begin_write bb) (\<lambda>p.
     bindR (write_mem p data (buffer bb)) (\<lambda>mem. has_written (bb\<lparr>buffer := mem\<rparr>) (length data)))"

fun buf_step :: "byte_buffer \<Rightarrow> buf_op \<Rightarrow> (buf_out \<times> byte_buffer) res" where
  "buf_step bb (Op_append data) = bindR (buf_append bb data) (\<lambda>(ok, bb'). Inr (Out_bool ok, bb'))"
| "buf_step bb (Op_ensure n) = bindR (ensure_writable_bytes bb n) (\<lambda>bb'. Inr (Out_unit, bb'))"
| "buf_step bb (Op_write data) = bindR (write_directly bb data) (\<lambda>bb'. Inr (Out_unit, bb'))"
| "buf_step bb (Op_has_read n) = bindR (has_read bb n) (\<lambda>bb'. Inr (Out_unit, bb'))"
| "buf_step bb Op_has_read_all = Inr (Out_unit, has_read_all bb)"
| "buf_step bb Op_reset = Inr (Out_unit, reset bb)"
| "buf_step bb Op_readable_bytes = bindR (readable_bytes bb) (\<lambda>n. Inr (Out_size n, bb))"
| "buf_step bb Op_to_string = bindR (to_string bb) (\<lambda>str. Inr (Out_bytes str, bb))"
| "buf_step bb (Op_take len) = bindR (taken_as_string bb len) (\<lambda>(str, bb'). Inr (Out_bytes str, bb'))"
| "buf_step bb Op_shrink = bindR (shrink bb) (\<lambda>bb'. Inr (Out_unit, bb'))"
| "buf_step bb (Op_swap rhs) = (case swap bb rhs of (bb', rhs') \<Rightarrow> Inr (Out_buffer rhs', bb'))"
| "buf_step bb (Op_assign rhs) = Inr (Out_unit, rhs)"
| "buf_step bb (Op_move_assign rhs) = (case move_assign bb rhs of (bb', rhs') \<Rightarrow> Inr (Out_buffer rhs', bb'))"
| "buf_step bb (Op_move_to lhs) = (case move_assign lhs bb of (lhs', bb') \<Rightarrow> Inr (Out_buffer lhs', bb'))"
| "buf_step bb Op_move_out = (case move_construct bb of (lhs, bb') \<Rightarrow> Inr (Out_buffer lhs, bb'))"

text \<open>No object of a C++ program is longer than \<open>vec_max\<close> bytes; \<^verbatim>\<open>ssize_t\<close> has 64 bits; the other buffers are
  buffers in a legal state.\<close>

fun legal_buf_op :: "buf_op \<Rightarrow> bool" where
  "legal_buf_op (Op_append data) = (length data \<le> vec_max)"
| "legal_buf_op (Op_ensure n) = (n \<le> vec_max)"
| "legal_buf_op (Op_write data) = (length data \<le> vec_max)"
| "legal_buf_op (Op_take len) = (len < 2 ^ 63)"
| "legal_buf_op (Op_swap rhs) = bb_inv rhs"
| "legal_buf_op (Op_assign rhs) = bb_inv rhs"
| "legal_buf_op (Op_move_assign rhs) = bb_inv rhs"
| "legal_buf_op (Op_move_to lhs) = bb_inv lhs"
| "legal_buf_op _ = True"

text \<open>Two operations have a precondition: a client writes only into the space the vector and the maximal size leave, and takes
  only as many bytes as are readable.\<close>

fun misused :: "byte_buffer \<Rightarrow> buf_op \<Rightarrow> bool" where
  "misused bb (Op_write data) \<longleftrightarrow> min (buf_size bb) (write_limit bb) < writer_index bb + length data"
| "misused bb (Op_take len) \<longleftrightarrow> int (length (contents bb)) < len"
| "misused bb _ \<longleftrightarrow> False"

text \<open>The specification: a queue of bytes, with the maximal size of a fixed-length buffer. An
  append may be refused only by a fixed-length buffer, and succeeds only if the queue stays
  within its maximal size; a refused append changes nothing.\<close>

type_synonym abs_buffer = "int \<times> byte list"

definition abs_buf :: "byte_buffer \<Rightarrow> abs_buffer" where
  "abs_buf bb = (max_size bb, contents bb)"

fun is_buffer :: "abs_buffer \<Rightarrow> buf_out \<Rightarrow> bool" where
  "is_buffer a (Out_buffer bb) \<longleftrightarrow> bb_inv bb \<and> abs_buf bb = a"
| "is_buffer a _ \<longleftrightarrow> False"

fun buf_allowed :: "abs_buffer \<Rightarrow> buf_op \<Rightarrow> buf_out \<Rightarrow> bool" where
  "buf_allowed (m, xs) (Op_append data) r =
     (if m = kUnLimitSize then r = Out_bool True
      else r = Out_bool False \<or> r = Out_bool True \<and> int (length xs + length data) \<le> m)"
| "buf_allowed (m, xs) Op_readable_bytes r = (r = Out_size (length xs))"
| "buf_allowed (m, xs) Op_to_string r = (r = Out_bytes xs)"
| "buf_allowed (m, xs) (Op_take len) r = (r = Out_bytes (if len \<le> -1 then xs else take (nat len) xs))"
| "buf_allowed (m, xs) (Op_swap rhs) r = is_buffer (m, xs) r"
| "buf_allowed (m, xs) (Op_move_assign rhs) r = is_buffer (m, []) r"
| "buf_allowed (m, xs) (Op_move_to lhs) r = is_buffer (m, xs) r"
| "buf_allowed (m, xs) Op_move_out r = is_buffer (m, xs) r"
| "buf_allowed (m, xs) _ r = (r = Out_unit)"

fun buf_next :: "abs_buffer \<Rightarrow> buf_op \<Rightarrow> buf_out \<Rightarrow> abs_buffer" where
  "buf_next (m, xs) (Op_append data) r = (m, if r = Out_bool True then xs @ data else xs)"
| "buf_next (m, xs) (Op_write data) r = (m, xs @ data)"
| "buf_next (m, xs) (Op_has_read n) r = (m, drop n xs)"
| "buf_next (m, xs) Op_has_read_all r = (m, [])"
| "buf_next (m, xs) Op_reset r = (m, [])"
| "buf_next (m, xs) (Op_take len) r = (m, if len \<le> -1 then [] else drop (nat len) xs)"
| "buf_next (m, xs) (Op_swap rhs) r = abs_buf rhs"
| "buf_next (m, xs) (Op_assign rhs) r = abs_buf rhs"
| "buf_next (m, xs) (Op_move_assign rhs) r = abs_buf rhs"
| "buf_next (m, xs) (Op_move_to lhs) r = (max_size lhs, [])"
| "buf_next (m, xs) Op_move_out r = (m, [])"
| "buf_next (m, xs) _ r = (m, xs)"

lemma make_writable_bytes_overflow:
  assumes "bb_inv bb" and "max_size bb = kUnLimitSize" and "len \<le> vec_max"
    and "vec_max < writer_index bb + len"
  shows "make_writable_bytes bb len = Inl Length_error"
proof -
  have "writer_index bb \<le> buf_size bb" "buf_size bb \<le> vec_max"
    using assms(1) by (auto simp: bb_inv_def buf_size_def)
  moreover from this have "size_add (writer_index bb) len = writer_index bb + len"
    using assms(3) by (simp add: size_add_small vec_max_def)
  ultimately show ?thesis
    using assms by (auto simp: make_writable_bytes_def writable_bytes_inv vec_resize_def Let_def)
qed

lemma max_size_frame:
  "make_writable_bytes bb n = Inr bb' \<Longrightarrow> max_size bb' = max_size bb"
  "has_read bb n = Inr bb' \<Longrightarrow> max_size bb' = max_size bb"
  "migration_buffer_data bb = Inr bb' \<Longrightarrow> max_size bb' = max_size bb"
  "shrink bb = Inr bb' \<Longrightarrow> max_size bb' = max_size bb"
  "buf_append bb data = Inr (ok, bb') \<Longrightarrow> max_size bb' = max_size bb"
  "taken_as_string bb len = Inr (str, bb') \<Longrightarrow> max_size bb' = max_size bb"
  by (auto simp: make_writable_bytes_def has_read_def migration_buffer_data_def shrink_def
      buf_append_def ensure_writable_bytes_def vec_resize_def has_written_def reset_def
      taken_as_string_def Let_def split: if_splits)

lemma buf_append_cases:
  assumes "bb_inv bb" and "length data \<le> vec_max"
  obtains (ok) bb' where "buf_append bb data = Inr (True, bb')" "bb_inv bb'"
      "contents bb' = contents bb @ data" "writer_index bb + length data \<le> write_limit bb"
  | (full) "buf_append bb data = Inr (False, bb)" "max_size bb \<noteq> kUnLimitSize"
      "write_limit bb < writer_index bb + length data"
  | (overflow) "buf_append bb data = Inl Length_error" "max_size bb = kUnLimitSize"
      "write_limit bb < writer_index bb + length data"
proof (cases "writer_index bb + length data \<le> write_limit bb")
  case True
  with buf_append_room [OF assms(1) True] that(1) show ?thesis by blast
next
  case False
  with assms that show ?thesis
    using buf_append_full [of bb data] buf_append_overflow [of bb data]
    by (cases "max_size bb = kUnLimitSize") (auto simp: write_limit_def)
qed

lemma make_writable_cases:
  assumes "bb_inv bb" and "n \<le> vec_max"
  obtains (ok) bb' where "make_writable_bytes bb n = Inr bb'" "bb_inv bb'" "contents bb' = contents bb"
  | (overflow) "make_writable_bytes bb n = Inl Length_error"
proof (cases "writer_index bb + n \<le> write_limit bb")
  case True
  with make_writable_bytes_room [OF assms(1) True] that(1) show ?thesis by blast
next
  case False
  with assms that show ?thesis
    using make_writable_bytes_full [of bb n] make_writable_bytes_overflow [of bb n]
    by (cases "max_size bb = kUnLimitSize") (auto simp: write_limit_def)
qed

lemma write_directly_result:
  assumes "bb_inv bb" and "length data \<le> vec_max"
  shows "if min (buf_size bb) (write_limit bb) < writer_index bb + length data
    then write_directly bb data \<in> {Inl Out_of_bounds, Inl Check_failed}
    else \<exists>bb'. write_directly bb data = Inr bb' \<and> bb_inv bb' \<and> contents bb' = contents bb @ data \<and> max_size bb' = max_size bb"
proof (cases "min (buf_size bb) (write_limit bb) < writer_index bb + length data")
  case False
  then have "writer_index bb + length data \<le> write_limit bb" "writer_index bb + length data \<le> buf_size bb" by auto
  from write_then_has_written [OF assms(1) this] False show ?thesis
    by (auto simp: write_directly_def begin_write_inv [OF assms(1)])
next
  case True
  then have w: "write_directly bb data = bindR (write_mem (writer_index bb) data (buffer bb)) (\<lambda>mem. has_written (bb\<lparr>buffer := mem\<rparr>) (length data))"
    by (simp add: write_directly_def begin_write_inv [OF assms(1)])
  show ?thesis
  proof (cases "writer_index bb + length data \<le> buf_size bb")
    case fits: True
    let ?bb = "bb\<lparr>buffer := overwrite (writer_index bb) data (buffer bb)\<rparr>"
    have "max_size bb \<noteq> kUnLimitSize" "write_limit bb < writer_index bb + length data"
      using True fits assms(1) by (auto simp: bb_inv_def write_limit_def buf_size_def split: if_splits)
    moreover have "bb_inv ?bb" using assms(1) fits by (auto simp: bb_inv_def buf_size_def)
    ultimately have "has_written ?bb (length data) = Inl Check_failed"
      using inv_limit [OF assms(1)] by (auto simp: has_written_def writable_bytes_inv write_limit_def check_def)
    with w fits True show ?thesis by (simp add: buf_size_def)
  qed (use w True in \<open>simp add: write_mem_def buf_size_def\<close>)
qed

lemma taken_as_string_short:
  assumes "bb_inv bb" and "int (length (contents bb)) < len" and "len < 2 ^ 63"
  shows "taken_as_string bb len = Inl Check_failed"
proof -
  have "to_size len = nat len" "\<not> nat len \<le> length (contents bb)" "\<not> len \<le> -1"
    using assms(2,3) by (auto simp: to_size_nonneg)
  with assms(1) show ?thesis by (simp add: taken_as_string_def readable_bytes_inv Let_def check_def)
qed

lemma buf_step_fault:
  assumes "bb_inv bb" and "legal_buf_op x" and "buf_step bb x = Inl f"
  shows "f = Length_error \<or> f \<in> {Out_of_bounds, Check_failed} \<and> misused bb x"
proof (cases x)
  case (Op_append data)
  with assms show ?thesis by (cases rule: buf_append_cases [OF assms(1), of data]) auto
next
  case (Op_ensure n)
  with assms show ?thesis
    by (cases rule: make_writable_cases [OF assms(1), of n]) (auto simp: ensure_writable_bytes_def)
next
  case (Op_write data)
  with assms write_directly_result [OF assms(1), of data] show ?thesis by (auto split: if_splits)
next
  case (Op_has_read n)
  with assms has_read_inv [OF assms(1), of n] show ?thesis by auto
next
  case (Op_take n)
  with assms taken_as_string_inv [OF assms(1), of n] taken_as_string_short [OF assms(1), of n] show ?thesis
    by (cases "int (length (contents bb)) < n"; cases "n \<le> -1") auto
next
  case Op_shrink
  with assms shrink_inv [OF assms(1)] show ?thesis by auto
qed (use assms in \<open>auto simp: to_string_inv readable_bytes_inv split: prod.splits\<close>)

lemma swap_simps: "swap bb rhs = (rhs, bb)" "move_construct bb = (bb, reset (bb\<lparr>buffer := []\<rparr>))"
  by (simp_all add: swap_def move_construct_def)

lemma moved_out_inv: "bb_inv bb \<Longrightarrow> bb_inv (reset (bb\<lparr>buffer := []\<rparr>)) \<and> contents (reset (bb\<lparr>buffer := []\<rparr>)) = []"
  by (auto simp: bb_inv_def reset_def contents_def)

lemma buf_step_refines:
  assumes "bb_inv bb" and "legal_buf_op x" and "buf_step bb x = Inr (r, bb')"
  shows "bb_inv bb' \<and> buf_allowed (abs_buf bb) x r \<and> abs_buf bb' = buf_next (abs_buf bb) x r"
proof (cases x)
  case (Op_append data)
  then have len: "length data \<le> vec_max" and ms: "max_size bb' = max_size bb"
    using assms(2,3) by (auto dest: max_size_frame)
  from assms(1) len show ?thesis
  proof (cases rule: buf_append_cases)
    case (ok bb1)
    have "length (contents bb) \<le> writer_index bb" using assms(1) by (simp add: length_contents)
    with ok Op_append assms ms show ?thesis
      by (auto simp: abs_buf_def write_limit_def bb_inv_def split: if_splits)
  next
    case full
    with Op_append assms show ?thesis by (auto simp: abs_buf_def)
  next
    case overflow
    with Op_append assms show ?thesis by auto
  qed
next
  case (Op_ensure n)
  then have "max_size bb' = max_size bb" using assms(3) by (auto simp: ensure_writable_bytes_def dest: max_size_frame)
  with Op_ensure assms show ?thesis
    by (cases rule: make_writable_cases [OF assms(1), of n]) (auto simp: ensure_writable_bytes_def abs_buf_def)
next
  case (Op_write data)
  with assms write_directly_result [OF assms(1), of data] show ?thesis
    by (auto simp: abs_buf_def split: if_splits)
next
  case (Op_has_read n)
  then have "max_size bb' = max_size bb" using assms(3) by (auto dest: max_size_frame)
  with Op_has_read assms has_read_inv [OF assms(1), of n] show ?thesis by (auto simp: abs_buf_def)
next
  case (Op_take n)
  then have "max_size bb' = max_size bb" using assms(3) by (auto dest: max_size_frame)
  with Op_take assms taken_as_string_inv [OF assms(1), of n] taken_as_string_short [OF assms(1), of n] show ?thesis
    by (cases "int (length (contents bb)) < n"; cases "n \<le> -1") (auto simp: abs_buf_def)
next
  case Op_shrink
  then have "max_size bb' = max_size bb" using assms(3) by (auto dest: max_size_frame)
  with Op_shrink assms shrink_inv [OF assms(1)] show ?thesis by (auto simp: abs_buf_def)
next
  case Op_move_out
  with assms moved_out_inv [OF assms(1)] show ?thesis
    by (auto simp: swap_simps abs_buf_def) (simp_all add: reset_def)
qed (use assms reset_inv in \<open>auto simp: to_string_inv readable_bytes_inv abs_buf_def has_read_all_def swap_simps move_assign_def;
    simp add: reset_def\<close>)+

definition buf_fault :: "fault \<Rightarrow> bool" where
  "buf_fault f \<longleftrightarrow> f \<in> {Length_error, Out_of_bounds, Check_failed}"

interpretation buf: trace_refinement bb_inv abs_buf buf_step legal_buf_op buf_allowed buf_next buf_fault
  by unfold_locales (auto simp: buf_fault_def dest: buf_step_fault buf_step_refines)

section \<open>Properties\<close>

text \<open>C23: Appending to a buffer. Within the limit of the buffer (its maximal size, or that of a
  vector) \<^verbatim>\<open>append\<close> returns true and adds the bytes behind the readable ones; a fixed-length buffer
  without room refuses and stays as it is; an unlimited buffer that would pass the maximal size
  of a vector throws. In no case does an assertion fail or a byte land outside the vector.\<close>

theorem append_result:
  assumes "bb_inv bb" and "length data \<le> vec_max"
  shows "if writer_index bb + length data \<le> write_limit bb
         then \<exists>bb'. buf_append bb data = Inr (True, bb') \<and> bb_inv bb'
                 \<and> contents bb' = contents bb @ data
         else if max_size bb = kUnLimitSize then buf_append bb data = Inl Length_error
         else buf_append bb data = Inr (False, bb)"
  using assms by (cases rule: buf_append_cases) auto

theorem append_result_witness:
  "\<exists>bb'. buf_append \<lparr>max_size = 4, reader_index = 1, writer_index = 2, buffer = [7, 8, 0, 0]\<rparr> [1, 2]
       = Inr (True, bb') \<and> bb_inv bb' \<and> contents bb' = [8, 1, 2]"
proof -
  let ?bb = "\<lparr>max_size = 4, reader_index = 1, writer_index = 2, buffer = [7, 8, 0, 0]\<rparr>"
  have "bb_inv ?bb" by (simp add: bb_inv_def kUnLimitSize_def vec_max_def)
  from append_result [OF this, of "[1, 2]"] show ?thesis
    by (simp add: write_limit_def kUnLimitSize_def vec_max_def contents_def bytes_at_def)
qed


lemmas buf_eval =
  buf_append_def ensure_writable_bytes_def make_writable_bytes_def writable_bytes_def
  vec_resize_def has_written_def has_read_def readable_bytes_def begin_read_def begin_write_def
  migration_buffer_data_def shrink_def taken_as_string_def to_string_def reset_def
  has_read_all_def write_directly_def swap_def move_construct_def move_assign_def buf_size_def kUnLimitSize_def vec_max_def size_add_def size_sub_def
  to_size_def read_mem_def write_mem_def bytes_at_def overwrite_def resize_def check_def Let_def

text \<open>Operations of every kind on a buffer of unlimited size.\<close>

definition mixed_ops :: "buf_op list" where
  "mixed_ops = [Op_append [1, 2, 3], Op_has_read 1, Op_append [4], Op_shrink, Op_take 2, Op_ensure 2, Op_write [5, 6],
     Op_swap \<lparr>max_size = 2, reader_index = 0, writer_index = 1, buffer = [9, 0]\<rparr>, Op_append [8, 8], Op_take (-1)]"

definition mixed_outs :: "buf_out list" where
  "mixed_outs = [Out_bool True, Out_unit, Out_bool True, Out_unit, Out_bytes [2, 3], Out_unit, Out_unit,
     Out_buffer \<lparr>max_size = -1, reader_index = 2, writer_index = 5, buffer = [2, 3, 4, 5, 6]\<rparr>, Out_bool False, Out_bytes [9]]"


text \<open>The assertion of \<^verbatim>\<open>has_written\<close> does not see the misuse: \<^verbatim>\<open>writable_bytes\<close> of a fixed-length buffer counts up to the maximal size,
  also after \<^verbatim>\<open>shrink\<close> has made the vector smaller. The next read leaves the vector.\<close>

lemma has_written_after_shrink:
  "\<exists>bb bb1 bb2. new_buffer 8 kInitialSize = Inr bb \<and> shrink bb = Inr bb1 \<and> has_written bb1 4 = Inr bb2 \<and> to_string bb2 = Inl Out_of_bounds"
  by (simp add: new_buffer_def buf_eval)

end
