(* ===== verification/Byte_Order.thy ===== *)
theory Byte_Order
  imports Annety_Prelude
begin

text \<open>
  Byte order (include/ByteOrder.h). The source selects its byte order at compile time with
  \<^verbatim>\<open>ARCH_CPU_LITTLE_ENDIAN\<close>; here the flag is the parameter \<open>little\<close>, so every result holds for both
  kinds of target. \<open>obj_bytes\<close> and \<open>of_obj_bytes\<close> are the object representation of an integer in
  the memory of such a target, which \<^verbatim>\<open>memcpy\<close> and the buffer functions see; \<open>be_bytes\<close> is the network
  representation, most significant byte first.
\<close>

unbundle bit_operations_syntax

section \<open>Integers as bytes\<close>

fun le_bytes :: "nat \<Rightarrow> 'a::len word \<Rightarrow> byte list" where
  "le_bytes 0 x = []"
| "le_bytes (Suc n) x = ucast x # le_bytes n (drop_bit 8 x)"

fun of_le_bytes :: "byte list \<Rightarrow> 'a::len word" where
  "of_le_bytes [] = 0"
| "of_le_bytes (b # bs) = ucast b OR push_bit 8 (of_le_bytes bs)"

definition be_bytes :: "nat \<Rightarrow> 'a::len word \<Rightarrow> byte list" where
  "be_bytes n x = rev (le_bytes n x)"

definition of_be_bytes :: "byte list \<Rightarrow> 'a::len word" where
  "of_be_bytes bs = of_le_bytes (rev bs)"

definition obj_bytes :: "bool \<Rightarrow> nat \<Rightarrow> 'a::len word \<Rightarrow> byte list" where
  "obj_bytes little n x = (if little then le_bytes n x else be_bytes n x)"

definition of_obj_bytes :: "bool \<Rightarrow> byte list \<Rightarrow> 'a::len word" where
  "of_obj_bytes little bs = (if little then of_le_bytes bs else of_be_bytes bs)"

section \<open>Conversions\<close>

text \<open>\<^verbatim>\<open>__builtin_bswap16/32/64\<close> reverse the bytes of their argument.\<close>

definition byte_swap16 :: "16 word \<Rightarrow> 16 word" where
  "byte_swap16 x = of_le_bytes (rev (le_bytes 2 x))"

definition byte_swap32 :: "32 word \<Rightarrow> 32 word" where
  "byte_swap32 x = of_le_bytes (rev (le_bytes 4 x))"

definition byte_swap64 :: "64 word \<Rightarrow> 64 word" where
  "byte_swap64 x = of_le_bytes (rev (le_bytes 8 x))"

definition net_to_host16 :: "bool \<Rightarrow> 16 word \<Rightarrow> 16 word" where
  "net_to_host16 little x = (if little then byte_swap16 x else x)"

definition net_to_host32 :: "bool \<Rightarrow> 32 word \<Rightarrow> 32 word" where
  "net_to_host32 little x = (if little then byte_swap32 x else x)"

definition net_to_host64 :: "bool \<Rightarrow> 64 word \<Rightarrow> 64 word" where
  "net_to_host64 little x = (if little then byte_swap64 x else x)"

definition host_to_net16 :: "bool \<Rightarrow> 16 word \<Rightarrow> 16 word" where
  "host_to_net16 little x = (if little then byte_swap16 x else x)"

definition host_to_net32 :: "bool \<Rightarrow> 32 word \<Rightarrow> 32 word" where
  "host_to_net32 little x = (if little then byte_swap32 x else x)"

definition host_to_net64 :: "bool \<Rightarrow> 64 word \<Rightarrow> 64 word" where
  "host_to_net64 little x = (if little then byte_swap64 x else x)"

section \<open>Round trips\<close>

lemma length_le_bytes [simp]: "length (le_bytes n x) = n"
  by (induction n arbitrary: x) auto

lemma length_be_bytes [simp]: "length (be_bytes n x) = n"
  by (simp add: be_bytes_def)

lemma bit_of_le_bytes:
  "bit (of_le_bytes bs :: 'a::len word) k \<longleftrightarrow>
     k < LENGTH('a) \<and> k div 8 < length bs \<and> bit (bs ! (k div 8)) (k mod 8)"
proof (induction bs arbitrary: k)
  case (Cons b bs)
  show ?case
  proof (cases "k < 8")
    case True
    then show ?thesis by (auto simp: bit_simps)
  next
    case False
    then obtain j where k: "k = 8 + j" using le_Suc_ex by fastforce
    have "k div 8 = Suc (j div 8)" "k mod 8 = j mod 8" by (simp_all add: k)
    moreover have "\<not> bit b k" using False by (auto simp: bit_simps dest: bit_imp_le_length)
    ultimately show ?thesis by (auto simp: bit_simps k Cons.IH)
  qed
qed simp

lemma nth_le_bytes: "i < n \<Longrightarrow> le_bytes n x ! i = ucast (drop_bit (8 * i) x)"
proof (induction n arbitrary: x i)
  case (Suc n)
  then show ?case by (cases i) (auto simp: drop_bit_drop_bit add.commute)
qed simp

lemma of_le_bytes_le_bytes:
  fixes x :: "'a::len word"
  assumes "LENGTH('a) = 8 * n"
  shows "of_le_bytes (le_bytes n x) = x"
proof (rule bit_word_eqI)
  fix k assume k: "k < LENGTH('a)"
  then have "k div 8 < n" using assms by auto
  then show "bit (of_le_bytes (le_bytes n x) :: 'a word) k = bit x k"
    using k by (simp add: bit_of_le_bytes nth_le_bytes bit_simps)
qed

lemma le_bytes_of_le_bytes:
  assumes "8 * length bs \<le> LENGTH('a::len)"
  shows "le_bytes (length bs) (of_le_bytes bs :: 'a word) = bs"
proof (rule nth_equalityI)
  fix i assume "i < length (le_bytes (length bs) (of_le_bytes bs :: 'a word))"
  then have i: "i < length bs" by simp
  have "bit (le_bytes (length bs) (of_le_bytes bs :: 'a word) ! i) k = bit (bs ! i) k" if "k < 8" for k
  proof -
    have "8 * i + k < 8 * length bs" using i that by linarith
    moreover have "(8 * i + k) div 8 = i" "(8 * i + k) mod 8 = k" using that by auto
    ultimately show ?thesis
      using i that assms by (simp add: nth_le_bytes bit_simps bit_of_le_bytes)
  qed
  then show "le_bytes (length bs) (of_le_bytes bs :: 'a word) ! i = bs ! i"
    by (intro bit_word_eqI) simp
qed simp

lemma of_be_bytes_be_bytes:
  fixes x :: "'a::len word"
  assumes "LENGTH('a) = 8 * n"
  shows "of_be_bytes (be_bytes n x) = x"
  using assms by (simp add: of_be_bytes_def be_bytes_def of_le_bytes_le_bytes)

lemma be_bytes_of_be_bytes:
  assumes "8 * length bs \<le> LENGTH('a::len)"
  shows "be_bytes (length bs) (of_be_bytes bs :: 'a word) = bs"
  using le_bytes_of_le_bytes [of "rev bs", where ?'a = 'a] assms by (simp add: of_be_bytes_def be_bytes_def)

text \<open>What the conversions put into memory and read from it is the network representation,
  whatever the byte order of the host.\<close>

lemma le_bytes_swap:
  "le_bytes 2 (byte_swap16 a) = be_bytes 2 a"
  "le_bytes 4 (byte_swap32 b) = be_bytes 4 b"
  "le_bytes 8 (byte_swap64 c) = be_bytes 8 c"
  using le_bytes_of_le_bytes [of "rev (le_bytes 2 a)", where ?'a = 16]
    le_bytes_of_le_bytes [of "rev (le_bytes 4 b)", where ?'a = 32]
    le_bytes_of_le_bytes [of "rev (le_bytes 8 c)", where ?'a = 64]
  by (simp_all add: byte_swap16_def byte_swap32_def byte_swap64_def be_bytes_def)

lemma obj_bytes_host_to_net:
  "obj_bytes little 2 (host_to_net16 little a) = be_bytes 2 a"
  "obj_bytes little 4 (host_to_net32 little b) = be_bytes 4 b"
  "obj_bytes little 8 (host_to_net64 little c) = be_bytes 8 c"
  by (simp_all add: obj_bytes_def host_to_net16_def host_to_net32_def host_to_net64_def
      le_bytes_swap)

lemma swap_of_le_bytes:
  "length bs = 2 \<Longrightarrow> byte_swap16 (of_le_bytes bs) = of_be_bytes bs"
  "length bs = 4 \<Longrightarrow> byte_swap32 (of_le_bytes bs) = of_be_bytes bs"
  "length bs = 8 \<Longrightarrow> byte_swap64 (of_le_bytes bs) = of_be_bytes bs"
  using le_bytes_of_le_bytes [of bs, where ?'a = 16] le_bytes_of_le_bytes [of bs, where ?'a = 32]
    le_bytes_of_le_bytes [of bs, where ?'a = 64]
  by (simp_all add: byte_swap16_def byte_swap32_def byte_swap64_def of_be_bytes_def)

lemma net_to_host_of_obj_bytes:
  "length bs = 2 \<Longrightarrow> net_to_host16 little (of_obj_bytes little bs) = of_be_bytes bs"
  "length bs = 4 \<Longrightarrow> net_to_host32 little (of_obj_bytes little bs) = of_be_bytes bs"
  "length bs = 8 \<Longrightarrow> net_to_host64 little (of_obj_bytes little bs) = of_be_bytes bs"
  by (simp_all add: of_obj_bytes_def net_to_host16_def net_to_host32_def net_to_host64_def
      swap_of_le_bytes)

lemma byte_swap_involutive [simp]:
  "byte_swap16 (byte_swap16 a) = a" "byte_swap32 (byte_swap32 b) = b" "byte_swap64 (byte_swap64 c) = c"
  by (simp_all add: byte_swap16_def [of "byte_swap16 a"] byte_swap32_def [of "byte_swap32 b"]
      byte_swap64_def [of "byte_swap64 c"] le_bytes_swap be_bytes_def of_le_bytes_le_bytes)

end
