(* ===== verification/Net_Buffer.thy ===== *)
theory Net_Buffer
  imports Byte_Buffer Byte_Order
begin

text \<open>
  \<^verbatim>\<open>NetBuffer\<close> (include/NetBuffer.h, src/NetBuffer.cc): integers in network byte order on top of
  \<^verbatim>\<open>ByteBuffer\<close>, and \<open>read_fd\<close>, which fills the buffer from a descriptor. The signed integers of
  the source are words of their width (\<open>sint\<close> reads them). The system call \<^verbatim>\<open>readv\<close> is the parameter
  \<open>rv\<close> of \<open>read_fd\<close>: from the number of bytes the two vectors can take to an error number or the
  bytes read.
\<close>

section \<open>Integers\<close>

definition append_int64 :: "bool \<Rightarrow> byte_buffer \<Rightarrow> 64 word \<Rightarrow> byte_buffer res" where
  "append_int64 little bb x =
     (let be64 = host_to_net64 little x
      in bindR (buf_append bb (obj_bytes little 8 be64)) (\<lambda>(ok, bb'). Inr bb'))"

definition append_int32 :: "bool \<Rightarrow> byte_buffer \<Rightarrow> 32 word \<Rightarrow> byte_buffer res" where
  "append_int32 little bb x =
     (let be32 = host_to_net32 little x
      in bindR (buf_append bb (obj_bytes little 4 be32)) (\<lambda>(ok, bb'). Inr bb'))"

definition append_int16 :: "bool \<Rightarrow> byte_buffer \<Rightarrow> 16 word \<Rightarrow> byte_buffer res" where
  "append_int16 little bb x =
     (let be16 = host_to_net16 little x
      in bindR (buf_append bb (obj_bytes little 2 be16)) (\<lambda>(ok, bb'). Inr bb'))"

definition append_int8 :: "bool \<Rightarrow> byte_buffer \<Rightarrow> 8 word \<Rightarrow> byte_buffer res" where
  "append_int8 little bb x =
     bindR (buf_append bb (obj_bytes little 1 x)) (\<lambda>(ok, bb'). Inr bb')"

definition peek_int64 :: "bool \<Rightarrow> byte_buffer \<Rightarrow> 64 word res" where
  "peek_int64 little bb =
     bindR (readable_bytes bb) (\<lambda>n. check (n \<ge> 8)
       (bindR (begin_read bb) (\<lambda>p. bindR (read_mem p 8 (buffer bb)) (\<lambda>be64.
         Inr (net_to_host64 little (of_obj_bytes little be64))))))"

definition peek_int32 :: "bool \<Rightarrow> byte_buffer \<Rightarrow> 32 word res" where
  "peek_int32 little bb =
     bindR (readable_bytes bb) (\<lambda>n. check (n \<ge> 4)
       (bindR (begin_read bb) (\<lambda>p. bindR (read_mem p 4 (buffer bb)) (\<lambda>be32.
         Inr (net_to_host32 little (of_obj_bytes little be32))))))"

definition peek_int16 :: "bool \<Rightarrow> byte_buffer \<Rightarrow> 16 word res" where
  "peek_int16 little bb =
     bindR (readable_bytes bb) (\<lambda>n. check (n \<ge> 2)
       (bindR (begin_read bb) (\<lambda>p. bindR (read_mem p 2 (buffer bb)) (\<lambda>be16.
         Inr (net_to_host16 little (of_obj_bytes little be16))))))"

definition peek_int8 :: "bool \<Rightarrow> byte_buffer \<Rightarrow> 8 word res" where
  "peek_int8 little bb =
     bindR (readable_bytes bb) (\<lambda>n. check (n \<ge> 1)
       (bindR (begin_read bb) (\<lambda>p. bindR (read_mem p 1 (buffer bb)) (\<lambda>be8.
         Inr (of_obj_bytes little be8)))))"

definition has_read_int64 :: "byte_buffer \<Rightarrow> byte_buffer res" where
  "has_read_int64 bb = has_read bb 8"

definition has_read_int32 :: "byte_buffer \<Rightarrow> byte_buffer res" where
  "has_read_int32 bb = has_read bb 4"

definition has_read_int16 :: "byte_buffer \<Rightarrow> byte_buffer res" where
  "has_read_int16 bb = has_read bb 2"

definition has_read_int8 :: "byte_buffer \<Rightarrow> byte_buffer res" where
  "has_read_int8 bb = has_read bb 1"

definition read_int64 :: "bool \<Rightarrow> byte_buffer \<Rightarrow> (64 word \<times> byte_buffer) res" where
  "read_int64 little bb =
     bindR (peek_int64 little bb) (\<lambda>r. bindR (has_read_int64 bb) (\<lambda>bb'. Inr (r, bb')))"

definition read_int32 :: "bool \<Rightarrow> byte_buffer \<Rightarrow> (32 word \<times> byte_buffer) res" where
  "read_int32 little bb =
     bindR (peek_int32 little bb) (\<lambda>r. bindR (has_read_int32 bb) (\<lambda>bb'. Inr (r, bb')))"

definition read_int16 :: "bool \<Rightarrow> byte_buffer \<Rightarrow> (16 word \<times> byte_buffer) res" where
  "read_int16 little bb =
     bindR (peek_int16 little bb) (\<lambda>r. bindR (has_read_int16 bb) (\<lambda>bb'. Inr (r, bb')))"

definition read_int8 :: "bool \<Rightarrow> byte_buffer \<Rightarrow> (8 word \<times> byte_buffer) res" where
  "read_int8 little bb =
     bindR (peek_int8 little bb) (\<lambda>r. bindR (has_read_int8 bb) (\<lambda>bb'. Inr (r, bb')))"

section \<open>Reading from a descriptor\<close>

type_synonym errno = int

definition extrabuf_size :: nat where
  "extrabuf_size = 65536"

text \<open>\<open>rv\<close> answers a request for at most \<open>n\<close> bytes. The kernel fills \<^verbatim>\<open>vec[0]\<close>, which starts at the
  writer index of the vector, before \<^verbatim>\<open>vec[1]\<close>, the buffer on the stack.\<close>

definition read_fd :: "byte_buffer \<Rightarrow> (nat \<Rightarrow> errno + byte list) \<Rightarrow> ((errno + nat) \<times> byte_buffer) res" where
  "read_fd bb rv =
     bindR (writable_bytes bb) (\<lambda>writable.
     bindR (begin_write bb) (\<lambda>p.
       let want = (if writable < extrabuf_size then writable + extrabuf_size else writable)
       in case rv want of
            Inl err \<Rightarrow> Inr (Inl err, bb)
          | Inr data \<Rightarrow>
              bindR (write_mem p (take writable data) (buffer bb)) (\<lambda>mem.
                let bb1 = bb\<lparr>buffer := mem\<rparr>
                in if length data \<le> writable
                   then bindR (has_written bb1 (length data)) (\<lambda>bb2. Inr (Inr (length data), bb2))
                   else bindR (has_written bb1 writable) (\<lambda>bb2.
                        bindR (buf_append bb2 (drop writable data)) (\<lambda>(ok, bb3).
                        Inr (Inr (length data), bb3))))))"

section \<open>Integers under the invariant\<close>

lemma obj_bytes_1 [simp]: "obj_bytes little 1 (x :: 8 word) = [x]"
  by (simp add: obj_bytes_def be_bytes_def numeral_eq_Suc)

lemma of_obj_bytes_1 [simp]: "of_obj_bytes little [b] = (b :: 8 word)"
  by (simp add: of_obj_bytes_def of_be_bytes_def)

lemma append_int_eq:
  "append_int64 little bb x = bindR (buf_append bb (be_bytes 8 x)) (\<lambda>(ok, bb'). Inr bb')"
  "append_int32 little bb y = bindR (buf_append bb (be_bytes 4 y)) (\<lambda>(ok, bb'). Inr bb')"
  "append_int16 little bb z = bindR (buf_append bb (be_bytes 2 z)) (\<lambda>(ok, bb'). Inr bb')"
  "append_int8 little bb w = bindR (buf_append bb [w]) (\<lambda>(ok, bb'). Inr bb')"
  by (simp_all only: append_int64_def append_int32_def append_int16_def append_int8_def
      obj_bytes_host_to_net Let_def obj_bytes_1)

lemma peek_int_eq:
  assumes "bb_inv bb"
  shows "8 \<le> length (contents bb) \<Longrightarrow> peek_int64 little bb = Inr (of_be_bytes (take 8 (contents bb)))"
    and "4 \<le> length (contents bb) \<Longrightarrow> peek_int32 little bb = Inr (of_be_bytes (take 4 (contents bb)))"
    and "2 \<le> length (contents bb) \<Longrightarrow> peek_int16 little bb = Inr (of_be_bytes (take 2 (contents bb)))"
    and "1 \<le> length (contents bb) \<Longrightarrow> peek_int8 little bb = Inr (hd (contents bb))"
proof -
  show "1 \<le> length (contents bb) \<Longrightarrow> peek_int8 little bb = Inr (hd (contents bb))"
    using assms by (cases "contents bb")
      (simp_all add: peek_int8_def readable_bytes_inv begin_read_inv read_contents)
qed (use assms in \<open>simp_all add: peek_int64_def peek_int32_def peek_int16_def
      readable_bytes_inv begin_read_inv read_contents net_to_host_of_obj_bytes\<close>)

lemma peek_int_short:
  assumes "bb_inv bb"
  shows "length (contents bb) < 8 \<Longrightarrow> peek_int64 little bb = Inl Check_failed"
    and "length (contents bb) < 4 \<Longrightarrow> peek_int32 little bb = Inl Check_failed"
    and "length (contents bb) < 2 \<Longrightarrow> peek_int16 little bb = Inl Check_failed"
    and "length (contents bb) < 1 \<Longrightarrow> peek_int8 little bb = Inl Check_failed"
  using assms by (simp_all add: peek_int64_def peek_int32_def peek_int16_def peek_int8_def
      readable_bytes_inv check_def)

text \<open>The four widths obey the same contract; \<open>net_int\<close> states it once. \<open>app\<close> appends the
  representation \<open>rep\<close> of a value, and \<open>rd\<close> reads it back.\<close>

locale net_int =
  fixes width :: nat
    and rep :: "'x \<Rightarrow> byte list"
    and app :: "byte_buffer \<Rightarrow> 'x \<Rightarrow> byte_buffer res"
    and rd :: "byte_buffer \<Rightarrow> ('x \<times> byte_buffer) res"
  assumes rep_length: "length (rep x) = width"
    and app_eq: "app bb x = bindR (buf_append bb (rep x)) (\<lambda>(ok, bb'). Inr bb')"
    and rd_rep: "bb_inv bb \<Longrightarrow> contents bb = rep x @ rest \<Longrightarrow>
      rd bb = bindR (has_read bb width) (\<lambda>bb'. Inr (x, bb'))"
begin

lemma app_ok:
  assumes "bb_inv bb" and "writer_index bb + width \<le> write_limit bb"
  shows "\<exists>bb'. app bb x = Inr bb' \<and> bb_inv bb' \<and> contents bb' = contents bb @ rep x
           \<and> writer_index bb' \<le> writer_index bb + width \<and> write_limit bb' = write_limit bb"
  using bb.append_ok [OF assms(1), of "rep x"] assms(2) by (auto simp: app_eq rep_length)

lemma rd_ok:
  assumes "bb_inv bb" and "contents bb = rep x @ rest"
  shows "\<exists>bb'. rd bb = Inr (x, bb') \<and> bb_inv bb' \<and> contents bb' = rest"
  using bb.consume_ok [OF assms(1), of width] rd_rep [OF assms] assms(2) by (auto simp: rep_length)

lemma app_rd:
  assumes "bb_inv bb" and "contents bb = []" and "writer_index bb + width \<le> write_limit bb"
  shows "\<exists>bb1 bb2. app bb x = Inr bb1 \<and> contents bb1 = rep x \<and> rd bb1 = Inr (x, bb2)
           \<and> bb_inv bb2 \<and> contents bb2 = []"
  using app_ok [OF assms(1,3), of x] assms(2) rd_ok [of _ x "[]"] by fastforce

end

interpretation int64: net_int 8 "be_bytes 8 :: 64 word \<Rightarrow> byte list"
    "append_int64 little" "read_int64 little"
  by unfold_locales
     (simp_all add: append_int_eq read_int64_def has_read_int64_def peek_int_eq of_be_bytes_be_bytes)

interpretation int32: net_int 4 "be_bytes 4 :: 32 word \<Rightarrow> byte list"
    "append_int32 little" "read_int32 little"
  by unfold_locales
     (simp_all add: append_int_eq read_int32_def has_read_int32_def peek_int_eq of_be_bytes_be_bytes)

interpretation int16: net_int 2 "be_bytes 2 :: 16 word \<Rightarrow> byte list"
    "append_int16 little" "read_int16 little"
  by unfold_locales
     (simp_all add: append_int_eq read_int16_def has_read_int16_def peek_int_eq of_be_bytes_be_bytes)

interpretation int8: net_int 1 "\<lambda>x. [x :: 8 word]" "append_int8 little" "read_int8 little"
  by unfold_locales (simp_all add: append_int_eq read_int8_def has_read_int8_def peek_int_eq)

section \<open>Sequences of integers\<close>

text \<open>A message as a program writes it: integers of mixed widths, one after the other.\<close>

datatype net_val = I8 "8 word" | I16 "16 word" | I32 "32 word" | I64 "64 word"

datatype net_type = T8 | T16 | T32 | T64

fun type_of :: "net_val \<Rightarrow> net_type" where
  "type_of (I8 _) = T8" | "type_of (I16 _) = T16" | "type_of (I32 _) = T32" | "type_of (I64 _) = T64"

fun val_bytes :: "net_val \<Rightarrow> byte list" where
  "val_bytes (I8 x) = [x]"
| "val_bytes (I16 x) = be_bytes 2 x"
| "val_bytes (I32 x) = be_bytes 4 x"
| "val_bytes (I64 x) = be_bytes 8 x"

fun append_val :: "bool \<Rightarrow> byte_buffer \<Rightarrow> net_val \<Rightarrow> byte_buffer res" where
  "append_val little bb (I8 x) = append_int8 little bb x"
| "append_val little bb (I16 x) = append_int16 little bb x"
| "append_val little bb (I32 x) = append_int32 little bb x"
| "append_val little bb (I64 x) = append_int64 little bb x"

fun read_val :: "bool \<Rightarrow> byte_buffer \<Rightarrow> net_type \<Rightarrow> (net_val \<times> byte_buffer) res" where
  "read_val little bb T8 = bindR (read_int8 little bb) (\<lambda>(x, bb'). Inr (I8 x, bb'))"
| "read_val little bb T16 = bindR (read_int16 little bb) (\<lambda>(x, bb'). Inr (I16 x, bb'))"
| "read_val little bb T32 = bindR (read_int32 little bb) (\<lambda>(x, bb'). Inr (I32 x, bb'))"
| "read_val little bb T64 = bindR (read_int64 little bb) (\<lambda>(x, bb'). Inr (I64 x, bb'))"

fun append_vals :: "bool \<Rightarrow> byte_buffer \<Rightarrow> net_val list \<Rightarrow> byte_buffer res" where
  "append_vals little bb [] = Inr bb"
| "append_vals little bb (v # vs) = bindR (append_val little bb v) (\<lambda>bb'. append_vals little bb' vs)"

fun read_vals :: "bool \<Rightarrow> byte_buffer \<Rightarrow> net_type list \<Rightarrow> (net_val list \<times> byte_buffer) res" where
  "read_vals little bb [] = Inr ([], bb)"
| "read_vals little bb (t # ts) =
     bindR (read_val little bb t) (\<lambda>(v, bb').
     bindR (read_vals little bb' ts) (\<lambda>(vs, bb''). Inr (v # vs, bb'')))"

lemma append_val_ok:
  assumes "bb_inv bb" and "writer_index bb + length (val_bytes v) \<le> write_limit bb"
  shows "\<exists>bb'. append_val little bb v = Inr bb' \<and> bb_inv bb'
           \<and> contents bb' = contents bb @ val_bytes v
           \<and> writer_index bb' \<le> writer_index bb + length (val_bytes v)
           \<and> write_limit bb' = write_limit bb"
  using assms int8.app_ok [of bb] int16.app_ok [of bb] int32.app_ok [of bb] int64.app_ok [of bb]
  by (cases v) simp_all

lemma read_val_ok:
  assumes "bb_inv bb" and "contents bb = val_bytes v @ rest"
  shows "\<exists>bb'. read_val little bb (type_of v) = Inr (v, bb') \<and> bb_inv bb' \<and> contents bb' = rest"
  using assms int8.rd_ok [of bb] int16.rd_ok [of bb] int32.rd_ok [of bb] int64.rd_ok [of bb]
  by (cases v) fastforce+

lemma append_vals_ok:
  "bb_inv bb \<Longrightarrow> writer_index bb + length (concat (map val_bytes vs)) \<le> write_limit bb \<Longrightarrow>
     \<exists>bb'. append_vals little bb vs = Inr bb' \<and> bb_inv bb'
        \<and> contents bb' = contents bb @ concat (map val_bytes vs)"
proof (induction vs arbitrary: bb)
  case (Cons v vs)
  then have "writer_index bb + length (val_bytes v) \<le> write_limit bb" by simp
  with Cons.prems(1) obtain bb1 where "append_val little bb v = Inr bb1" "bb_inv bb1"
    "contents bb1 = contents bb @ val_bytes v"
    "writer_index bb1 \<le> writer_index bb + length (val_bytes v)" "write_limit bb1 = write_limit bb"
    using append_val_ok by blast
  with Cons.IH [of bb1] Cons.prems(2) show ?case by fastforce
qed simp

lemma read_vals_ok:
  "bb_inv bb \<Longrightarrow> contents bb = concat (map val_bytes vs) @ rest \<Longrightarrow>
     \<exists>bb'. read_vals little bb (map type_of vs) = Inr (vs, bb') \<and> bb_inv bb' \<and> contents bb' = rest"
proof (induction vs arbitrary: bb)
  case (Cons v vs)
  then obtain bb1 where "read_val little bb (type_of v) = Inr (v, bb1)" "bb_inv bb1"
    "contents bb1 = concat (map val_bytes vs) @ rest"
    using read_val_ok [of bb v "concat (map val_bytes vs) @ rest"] by auto
  with Cons.IH [of bb1] show ?case by auto
qed simp

section \<open>Reading from a descriptor under the invariant\<close>

text \<open>Where the buffer is allocated up to the part of it the kernel may fill: always for an
  unlimited buffer, and for a fixed-length one unless it was shrunk or moved from.\<close>

definition fully_allocated :: "byte_buffer \<Rightarrow> bool" where
  "fully_allocated bb \<longleftrightarrow> max_size bb \<noteq> kUnLimitSize \<longrightarrow> write_limit bb \<le> buf_size bb"

definition free_bytes :: "byte_buffer \<Rightarrow> nat" where
  "free_bytes bb = (if max_size bb = kUnLimitSize then buf_size bb else write_limit bb) - writer_index bb"

definition read_request :: "byte_buffer \<Rightarrow> nat" where
  "read_request bb =
     (if free_bytes bb < extrabuf_size then free_bytes bb + extrabuf_size else free_bytes bb)"

lemma writable_free: "bb_inv bb \<Longrightarrow> writable_bytes bb = Inr (free_bytes bb)"
  by (simp add: writable_bytes_inv free_bytes_def)

lemma read_fd_fits:
  assumes "bb_inv bb" and "fully_allocated bb" and "length data \<le> free_bytes bb"
  shows "\<exists>bb'. bindR (write_mem (writer_index bb) data (buffer bb))
                 (\<lambda>mem. has_written (bb\<lparr>buffer := mem\<rparr>) (length data)) = Inr bb'
           \<and> bb_inv bb' \<and> contents bb' = contents bb @ data
           \<and> writer_index bb' = writer_index bb + length data \<and> max_size bb' = max_size bb"
proof -
  have "writer_index bb + length data \<le> write_limit bb \<and> writer_index bb + length data \<le> buf_size bb"
    using assms inv_limit [OF assms(1)]
    by (auto simp: fully_allocated_def free_bytes_def write_limit_def bb_inv_def buf_size_def
        split: if_splits)
  with write_then_has_written [OF assms(1)] show ?thesis by blast
qed

lemma read_fd_unlimited:
  assumes "bb_inv bb" and "max_size bb = kUnLimitSize"
    and "rv (read_request bb) = Inr data"
    and "writer_index bb + length data \<le> vec_max"
  shows "\<exists>bb'. read_fd bb rv = Inr (Inr (length data), bb') \<and> bb_inv bb'
           \<and> contents bb' = contents bb @ data \<and> max_size bb' = max_size bb
           \<and> writer_index bb' \<le> writer_index bb + length data"
proof -
  have fa: "fully_allocated bb" using assms(2) by (simp add: fully_allocated_def)
  note rd = read_fd_def writable_free [OF assms(1)] begin_write_inv [OF assms(1)] Let_def assms(3) [unfolded read_request_def]
  have bnd: "writer_index bb + free_bytes bb \<le> length (buffer bb)"
    using assms(1,2) by (auto simp: free_bytes_def bb_inv_def buf_size_def)
  show ?thesis
  proof (cases "length data \<le> free_bytes bb")
    case True
    with read_fd_fits [OF assms(1) fa True] bnd show ?thesis by (auto simp: rd)
  next
    case False
    let ?d = "take (free_bytes bb) data"
    have l: "length ?d = free_bytes bb" using False by simp
    obtain bb2 where b2: "has_written (bb\<lparr>buffer := overwrite (writer_index bb) ?d (buffer bb)\<rparr>) (free_bytes bb)
        = Inr bb2" "bb_inv bb2" "contents bb2 = contents bb @ ?d"
        "writer_index bb2 = writer_index bb + free_bytes bb" "max_size bb2 = max_size bb"
      using read_fd_fits [OF assms(1) fa, of ?d] bnd l by auto
    have "writer_index bb2 + length (drop (free_bytes bb) data) \<le> write_limit bb2"
      using b2(4,5) assms(2,4) False by (simp add: write_limit_def)
    from bb.append_ok [OF b2(2) this] obtain bb3 where b3:
        "buf_append bb2 (drop (free_bytes bb) data) = Inr (True, bb3)" "bb_inv bb3"
        "contents bb3 = contents bb2 @ drop (free_bytes bb) data"
        "writer_index bb3 \<le> writer_index bb2 + length (drop (free_bytes bb) data)"
      by blast
    have "max_size bb3 = max_size bb" using b3(1) b2(5) by (auto dest: max_size_frame)
    with False bnd l b2 b3 show ?thesis by (auto simp: rd)
  qed
qed

text \<open>On an unlimited buffer the only fault is that of a vector at its maximal size.\<close>

lemma read_fd_ensures:
  assumes "bb_inv bb" and "max_size bb = kUnLimitSize"
    and "\<And>n data. rv n = Inr data \<Longrightarrow> length data \<le> n"
  shows "ensures (\<lambda>f. f = Length_error) (\<lambda>(r, bb'). bb_inv bb' \<and> max_size bb' = kUnLimitSize
           \<and> (case rv (read_request bb) of
                Inl err \<Rightarrow> r = Inl err \<and> bb' = bb
              | Inr data \<Rightarrow> r = Inr (length data) \<and> contents bb' = contents bb @ data)) (read_fd bb rv)"
proof (cases "rv (read_request bb)")
  case (Inl err)
  with assms(1,2) show ?thesis
    by (simp add: read_fd_def writable_free begin_write_inv Let_def read_request_def split: if_splits)
next
  case (Inr data)
  have fa: "fully_allocated bb" using assms(2) by (simp add: fully_allocated_def)
  have bnd: "writer_index bb + free_bytes bb \<le> length (buffer bb)" "length (buffer bb) \<le> vec_max"
    using assms(1,2) by (auto simp: free_bytes_def bb_inv_def buf_size_def)
  show ?thesis
  proof (cases "writer_index bb + length data \<le> vec_max")
    case True
    from read_fd_unlimited [OF assms(1,2), of rv data] True Inr assms(2) show ?thesis by auto
  next
    case False
    let ?d = "take (free_bytes bb) data"
    have l: "length ?d = free_bytes bb" using False bnd by simp
    obtain bb2 where b2: "has_written (bb\<lparr>buffer := overwrite (writer_index bb) ?d (buffer bb)\<rparr>) (free_bytes bb)
        = Inr bb2" "bb_inv bb2" "writer_index bb2 = writer_index bb + free_bytes bb" "max_size bb2 = max_size bb"
      using read_fd_fits [OF assms(1) fa, of ?d] bnd l by auto
    have "length (drop (free_bytes bb) data) \<le> vec_max"
      using assms(3) [OF Inr] by (simp add: read_request_def extrabuf_size_def vec_max_def split: if_splits)
    then have "buf_append bb2 (drop (free_bytes bb) data) = Inl Length_error"
      using b2 False assms(2) by (cases rule: buf_append_cases [OF b2(2)]) (auto simp: write_limit_def)
    then show ?thesis
      using False bnd l b2(1) Inr assms(1)
      by (simp add: read_fd_def writable_free begin_write_inv Let_def read_request_def split: if_splits)
  qed
qed

lemma read_fd_fixed:
  assumes "bb_inv bb" and "max_size bb \<noteq> kUnLimitSize" and "fully_allocated bb"
    and "rv (read_request bb) = Inr data"
  shows "\<exists>bb'. read_fd bb rv = Inr (Inr (length data), bb') \<and> bb_inv bb'
           \<and> contents bb' = contents bb @ take (free_bytes bb) data"
proof -
  note rd = read_fd_def writable_free [OF assms(1)] begin_write_inv [OF assms(1)] Let_def assms(4) [unfolded read_request_def]
  have bnd: "writer_index bb + free_bytes bb \<le> length (buffer bb)"
    using assms(1-3) by (auto simp: free_bytes_def bb_inv_def buf_size_def fully_allocated_def)
  show ?thesis
  proof (cases "length data \<le> free_bytes bb")
    case True
    with read_fd_fits [OF assms(1,3) True] bnd show ?thesis by (auto simp: rd)
  next
    case False
    let ?d = "take (free_bytes bb) data"
    have l: "length ?d = free_bytes bb" using False by simp
    obtain bb2 where b2: "has_written (bb\<lparr>buffer := overwrite (writer_index bb) ?d (buffer bb)\<rparr>) (free_bytes bb)
        = Inr bb2" "bb_inv bb2" "contents bb2 = contents bb @ ?d"
        "writer_index bb2 = writer_index bb + free_bytes bb" "max_size bb2 = max_size bb"
      using read_fd_fits [OF assms(1,3), of ?d] bnd l by auto
    have "write_limit bb2 < writer_index bb2 + length (drop (free_bytes bb) data)"
      using b2(4,5) assms(2) False by (simp add: write_limit_def free_bytes_def)
    from buf_append_full [OF b2(2) _ this] have "buf_append bb2 (drop (free_bytes bb) data) = Inr (False, bb2)"
      using b2(5) assms(2) by simp
    with False bnd l b2 show ?thesis by (auto simp: rd)
  qed
qed

section \<open>Properties\<close>

text \<open>C27: Integers survive the network. A message of integers of mixed widths written by a host
  of one byte order is stored most significant byte first, and a host of any byte order that
  receives those bytes reads the same integers back, leaving what follows them.\<close>

theorem net_ints_round_trip:
  assumes "bb_inv out" and "contents out = []"
    and "writer_index out + length (concat (map val_bytes vs)) \<le> write_limit out"
  shows "\<exists>out'. append_vals little_out out vs = Inr out' \<and> bb_inv out'
           \<and> contents out' = concat (map val_bytes vs)
           \<and> (\<forall>inp rest. bb_inv inp \<and> contents inp = contents out' @ rest \<longrightarrow>
                (\<exists>inp'. read_vals little_in inp (map type_of vs) = Inr (vs, inp')
                   \<and> bb_inv inp' \<and> contents inp' = rest))"
proof -
  obtain out' where "append_vals little_out out vs = Inr out'" "bb_inv out'"
      "contents out' = concat (map val_bytes vs)"
    using append_vals_ok [OF assms(1,3)] assms(2) by auto
  then show ?thesis using read_vals_ok by metis
qed

theorem net_ints_round_trip_witness:
  "\<exists>out' inp'. append_vals False \<lparr>max_size = kUnLimitSize, reader_index = 0, writer_index = 0,
       buffer = []\<rparr> [I16 258, I8 7] = Inr out'
     \<and> contents out' = [1, 2, 7]
     \<and> read_vals True out' [T16, T8] = Inr ([I16 258, I8 7], inp') \<and> contents inp' = []"
proof -
  let ?bb = "\<lparr>max_size = kUnLimitSize, reader_index = 0, writer_index = 0, buffer = []\<rparr>"
  have "bb_inv ?bb" "contents ?bb = []"
    "writer_index ?bb + length (concat (map val_bytes [I16 258, I8 7])) \<le> write_limit ?bb"
    by (simp_all add: bb_inv_def contents_def write_limit_def vec_max_def)
  from net_ints_round_trip [OF this, of False True] obtain out' where o:
    "append_vals False ?bb [I16 258, I8 7] = Inr out'" "bb_inv out'"
    "contents out' = concat (map val_bytes [I16 258, I8 7])"
    "\<exists>inp'. read_vals True out' (map type_of [I16 258, I8 7]) = Inr ([I16 258, I8 7], inp')
       \<and> bb_inv inp' \<and> contents inp' = []"
    by (metis append_Nil2)
  moreover have "concat (map val_bytes [I16 258, I8 7]) = [1, 2, 7]" by code_simp
  ultimately show ?thesis by auto
qed

text \<open>\<^verbatim>\<open>read_fd\<close> on a buffer whose vector covers its free space. An error of \<^verbatim>\<open>readv\<close> leaves the
  buffer alone. Otherwise the number of bytes read is returned and, for an unlimited buffer,
  exactly these bytes are appended, including those that went through the buffer on the stack.
  A fixed-length buffer keeps only as many of them as it has room for, although the same number
  is returned. No assertion fails and nothing is written outside the vector.\<close>

theorem read_fd_result:
  assumes "bb_inv bb" and "fully_allocated bb"
    and "\<And>data. rv (read_request bb) = Inr data \<Longrightarrow> writer_index bb + length data \<le> vec_max"
  shows "case rv (read_request bb) of
           Inl err \<Rightarrow> read_fd bb rv = Inr (Inl err, bb)
         | Inr data \<Rightarrow>
             \<exists>bb'. read_fd bb rv = Inr (Inr (length data), bb') \<and> bb_inv bb'
               \<and> contents bb' =
                   contents bb @ (if max_size bb = kUnLimitSize then data else take (free_bytes bb) data)"
proof (cases "rv (read_request bb)")
  case (Inl err)
  with assms(1) show ?thesis
    by (simp add: read_fd_def writable_free begin_write_inv Let_def read_request_def split: if_splits)
next
  case (Inr data)
  with read_fd_unlimited [OF assms(1), of rv data] read_fd_fixed [OF assms(1) _ assms(2), of rv data] assms(3)
  show ?thesis by (cases "max_size bb = kUnLimitSize") auto
qed

theorem read_fd_result_witness:
  "\<exists>bb'. read_fd \<lparr>max_size = kUnLimitSize, reader_index = 0, writer_index = 1, buffer = [9, 0]\<rparr>
            (\<lambda>n. Inr [1, 2, 3]) = Inr (Inr 3, bb')
     \<and> bb_inv bb' \<and> contents bb' = [9, 1, 2, 3]"
proof -
  let ?bb = "\<lparr>max_size = kUnLimitSize, reader_index = 0, writer_index = 1, buffer = [9, 0]\<rparr>"
  have "bb_inv ?bb" "fully_allocated ?bb"
    by (simp_all add: bb_inv_def fully_allocated_def vec_max_def)
  from read_fd_result [OF this, of "\<lambda>n. Inr [1, 2, 3]"] show ?thesis
    by (simp add: vec_max_def contents_def bytes_at_def numeral_3_eq_3)
qed

end
