(* ===== verification/Codec_Base.thy ===== *)
theory Codec_Base
  imports Net_Buffer
begin

text \<open>
  \<^verbatim>\<open>Codec\<close> (include/codec/Codec.h): the loop that cuts the received bytes into messages, and the
  function that frames a message for sending. \<^verbatim>\<open>decode\<close> and \<^verbatim>\<open>encode\<close> are virtual; here they are
  parameters, and the locales below state what the subclasses promise of them:

  \<^item> \<open>codec_laws\<close>: \<^verbatim>\<open>decode\<close> never faults and consumes bytes when it reports a message, from which the
    receive loop terminates on every input;
  \<^item> \<open>frame_codec\<close>: a frame at the front of the buffer is decoded to its payload;
  \<^item> \<open>stream_codec\<close>: a part of a frame is left alone, from which follows that the way the stream is
    cut into segments does not matter.

  What the loop does to the connection is a list of events. The callback of the user is code of
  the client; the loop only depends on whether one is set.
\<close>

section \<open>The receive loop\<close>

type_synonym 'c decoder = "'c \<Rightarrow> byte_buffer \<Rightarrow> byte_buffer \<Rightarrow> (int \<times> byte_buffer \<times> byte_buffer \<times> 'c) res"

type_synonym 'c encoder = "'c \<Rightarrow> byte_buffer \<Rightarrow> byte_buffer \<Rightarrow> (int \<times> byte_buffer) res"

datatype codec_event =
    Ev_message "byte list"
  | Ev_no_callback
  | Ev_send "byte list"
  | Ev_shutdown

definition message_event :: "bool \<Rightarrow> byte_buffer \<Rightarrow> codec_event res" where
  "message_event has_cb payload =
     (if has_cb then bindR (to_string payload) (\<lambda>m. Inr (Ev_message m)) else Inr Ev_no_callback)"

text \<open>One round of the loop: what it did, and whether it goes on.\<close>

definition recv_round ::
  "'c decoder \<Rightarrow> bool \<Rightarrow> 'c \<Rightarrow> byte_buffer \<Rightarrow> (bool \<times> codec_event list \<times> 'c \<times> byte_buffer) res" where
  "recv_round dec has_cb c buff =
     bindR (new_buffer kUnLimitSize kInitialSize) (\<lambda>payload.
     bindR (dec c buff payload) (\<lambda>(rt, buff', payload', c').
       if rt = 1 then bindR (message_event has_cb payload') (\<lambda>e. Inr (True, [e], c', buff'))
       else if rt = -1 then Inr (False, [Ev_shutdown], c', buff')
       else Inr (False, [], c', buff')))"

partial_function (option) recv_loop ::
  "'c decoder \<Rightarrow> bool \<Rightarrow> 'c \<Rightarrow> byte_buffer \<Rightarrow> (codec_event list \<times> 'c \<times> byte_buffer) res option" where
  "recv_loop dec has_cb c buff =
     (case recv_round dec has_cb c buff of
        Inl f \<Rightarrow> Some (Inl f)
      | Inr (again, evs, c', buff') \<Rightarrow>
          if again
          then Option.bind (recv_loop dec has_cb c' buff') (\<lambda>r.
                 Some (bindR r (\<lambda>(evs', c'', buff''). Inr (evs @ evs', c'', buff''))))
          else Some (Inr (evs, c', buff')))"

definition recv ::
  "'c decoder \<Rightarrow> bool \<Rightarrow> bool \<Rightarrow> 'c \<Rightarrow> byte_buffer \<Rightarrow> (codec_event list \<times> 'c \<times> byte_buffer) res option" where
  "recv dec in_own_loop has_cb c buff =
     (if in_own_loop then recv_loop dec has_cb c buff else Some (Inl Check_failed))"

definition send :: "'c encoder \<Rightarrow> 'c \<Rightarrow> byte_buffer \<Rightarrow> codec_event list res" where
  "send enc c payload =
     bindR (new_buffer kUnLimitSize kInitialSize) (\<lambda>buff.
     bindR (enc c payload buff) (\<lambda>(rt, buff').
       if rt = 1 then bindR (to_string buff') (\<lambda>m. Inr [Ev_send m])
       else if rt = -1 then Inr [Ev_shutdown]
       else Inr []))"

text \<open>The segments of a stream arrive one after the other: \<^verbatim>\<open>read_fd\<close> appends a segment to the input
  buffer of the connection, and the message callback of the connection runs the receive loop.\<close>

fun recv_segments ::
  "'c decoder \<Rightarrow> 'c \<Rightarrow> byte_buffer \<Rightarrow> byte list list \<Rightarrow> (codec_event list \<times> 'c \<times> byte_buffer) res option" where
  "recv_segments dec c buff [] = Some (Inr ([], c, buff))"
| "recv_segments dec c buff (seg # segs) =
     (case buf_append buff seg of
        Inl f \<Rightarrow> Some (Inl f)
      | Inr (ok, buff1) \<Rightarrow>
          Option.bind (recv dec True True c buff1) (\<lambda>r.
            case r of
              Inl f \<Rightarrow> Some (Inl f)
            | Inr (evs, c', buff2) \<Rightarrow>
                Option.bind (recv_segments dec c' buff2 segs) (\<lambda>r'.
                  Some (bindR r' (\<lambda>(evs', c'', buff''). Inr (evs @ evs', c'', buff''))))))"

section \<open>The payload buffer\<close>

definition payload0 :: byte_buffer where
  "payload0 = \<lparr>max_size = kUnLimitSize, reader_index = 0, writer_index = 0,
     buffer = replicate kInitialSize 0\<rparr>"

lemma new_payload: "new_buffer kUnLimitSize kInitialSize = Inr payload0"
  by (simp add: new_buffer_def payload0_def kUnLimitSize_def kInitialSize_def vec_max_def)

lemma payload0_inv [simp]:
  "bb_inv payload0" "contents payload0 = []" "writer_index payload0 = 0" "write_limit payload0 = vec_max"
  "max_size payload0 = kUnLimitSize"
  by (simp_all add: payload0_def bb_inv_def contents_def write_limit_def kInitialSize_def vec_max_def)

section \<open>What a codec promises\<close>

locale codec_laws =
  fixes dec :: "'c decoder"
    and cinv :: "'c \<Rightarrow> bool"
  assumes dec_ok: "bb_inv b \<Longrightarrow> cinv c \<Longrightarrow>
    \<exists>rt b' pl' c'. dec c b payload0 = Inr (rt, b', pl', c') \<and> bb_inv b' \<and> bb_inv pl' \<and> cinv c'
      \<and> (if rt = 1 then length (contents b') < length (contents b) else contents b' = contents b)
      \<and> writer_index b' \<le> writer_index b \<and> write_limit b' = write_limit b"
begin

lemma recv_round_ok:
  assumes "bb_inv b" and "cinv c"
  obtains again evs c' b' where "recv_round dec has_cb c b = Inr (again, evs, c', b')"
    "bb_inv b'" "cinv c'" "again \<Longrightarrow> length (contents b') < length (contents b)"
    "\<not> again \<Longrightarrow> contents b' = contents b"
    "writer_index b' \<le> writer_index b" "write_limit b' = write_limit b"
  using dec_ok [OF assms]
  by (fastforce simp: recv_round_def new_payload message_event_def to_string_inv split: if_splits)

lemma recv_returns:
  "bb_inv b \<Longrightarrow> cinv c \<Longrightarrow>
     \<exists>evs c' b'. recv dec True has_cb c b = Some (Inr (evs, c', b')) \<and> bb_inv b' \<and> cinv c'
       \<and> writer_index b' \<le> writer_index b \<and> write_limit b' = write_limit b"
proof (induction "length (contents b)" arbitrary: b c rule: less_induct)
  case less
  from recv_round_ok [OF less.prems, of has_cb] obtain again evs c1 b1 where
    r: "recv_round dec has_cb c b = Inr (again, evs, c1, b1)" "bb_inv b1" "cinv c1"
      "again \<Longrightarrow> length (contents b1) < length (contents b)"
      "writer_index b1 \<le> writer_index b" "write_limit b1 = write_limit b" by metis
  show ?case
  proof (cases again)
    case True
    with less.hyps [OF r(4) r(2,3)] r show ?thesis
      by (auto simp: recv_def) (subst recv_loop.simps, auto)
  next
    case False
    with r show ?thesis by (auto simp: recv_def) (subst recv_loop.simps, auto)
  qed
qed

end

locale frame_codec = codec_laws dec cinv
  for dec :: "'c decoder" and cinv :: "'c \<Rightarrow> bool" +
  fixes frame :: "'c \<Rightarrow> byte list \<Rightarrow> byte list"
    and valid :: "'c \<Rightarrow> byte list \<Rightarrow> bool"
    and ready :: "'c \<Rightarrow> bool"
  assumes ready_inv: "ready c \<Longrightarrow> cinv c"
    and dec_frame: "ready c \<Longrightarrow> bb_inv b \<Longrightarrow> valid c p \<Longrightarrow> contents b = frame c p @ rest \<Longrightarrow>
      \<exists>b' pl'. dec c b payload0 = Inr (1, b', pl', c) \<and> bb_inv b' \<and> bb_inv pl'
        \<and> contents b' = rest \<and> contents pl' = p
        \<and> writer_index b' \<le> writer_index b \<and> write_limit b' = write_limit b"
    and dec_empty: "ready c \<Longrightarrow> bb_inv b \<Longrightarrow> contents b = [] \<Longrightarrow> dec c b payload0 = Inr (0, b, payload0, c)"
begin

lemma recv_loop_frame:
  assumes "ready c" and "bb_inv b" and "valid c p" and "contents b = frame c p @ rest"
  obtains b' where "bb_inv b'" "contents b' = rest" "writer_index b' \<le> writer_index b"
    "write_limit b' = write_limit b"
    "recv_loop dec True c b = Option.bind (recv_loop dec True c b') (\<lambda>r.
       Some (bindR r (\<lambda>(evs, c2, bb). Inr (Ev_message p # evs, c2, bb))))"
proof -
  from dec_frame [OF assms] obtain b' pl' where
    d: "dec c b payload0 = Inr (1, b', pl', c)" "bb_inv b'" "bb_inv pl'" "contents b' = rest"
      "contents pl' = p" "writer_index b' \<le> writer_index b" "write_limit b' = write_limit b"
    by blast
  then have "recv_round dec True c b = Inr (True, [Ev_message p], c, b')"
    by (simp add: recv_round_def new_payload message_event_def to_string_inv)
  then have "recv_loop dec True c b = Option.bind (recv_loop dec True c b') (\<lambda>r.
       Some (bindR r (\<lambda>(evs, c2, bb). Inr (Ev_message p # evs, c2, bb))))"
    by (subst recv_loop.simps) simp
  with d that show ?thesis by blast
qed

lemma recv_frames:
  "ready c \<Longrightarrow> bb_inv b \<Longrightarrow> list_all (valid c) ps \<Longrightarrow> contents b = concat (map (frame c) ps) \<Longrightarrow>
     \<exists>b'. recv dec True True c b = Some (Inr (map Ev_message ps, c, b')) \<and> bb_inv b' \<and> contents b' = []"
proof (induction ps arbitrary: b)
  case Nil
  then have "recv_round dec True c b = Inr (False, [], c, b)"
    by (simp add: recv_round_def new_payload dec_empty)
  with Nil show ?case by (simp add: recv_def) (subst recv_loop.simps, simp)
next
  case (Cons p ps)
  then have "valid c p" "contents b = frame c p @ concat (map (frame c) ps)" by simp_all
  with Cons.prems(1,2) obtain b' where "bb_inv b'" "contents b' = concat (map (frame c) ps)"
    "recv_loop dec True c b = Option.bind (recv_loop dec True c b') (\<lambda>r.
       Some (bindR r (\<lambda>(evs, c2, bb). Inr (Ev_message p # evs, c2, bb))))"
    using recv_loop_frame by blast
  with Cons.IH [of b'] Cons.prems(1,3) show ?case by (auto simp: recv_def)
qed

end

locale stream_codec = frame_codec dec cinv frame valid ready
  for dec :: "'c decoder" and cinv :: "'c \<Rightarrow> bool" and frame :: "'c \<Rightarrow> byte list \<Rightarrow> byte list"
    and valid :: "'c \<Rightarrow> byte list \<Rightarrow> bool" and ready :: "'c \<Rightarrow> bool" +
  assumes dec_partial: "ready c \<Longrightarrow> bb_inv b \<Longrightarrow> valid c p \<Longrightarrow> frame c p = contents b @ missing \<Longrightarrow> missing \<noteq> [] \<Longrightarrow>
      dec c b payload0 = Inr (0, b, payload0, c)"
begin

lemma recv_prefix:
  "ready c \<Longrightarrow> bb_inv b \<Longrightarrow> list_all (valid c) ps \<Longrightarrow> contents b @ rest = concat (map (frame c) ps) \<Longrightarrow>
     \<exists>b' qs rs. ps = qs @ rs \<and> recv_loop dec True c b = Some (Inr (map Ev_message qs, c, b'))
       \<and> bb_inv b' \<and> contents b' @ rest = concat (map (frame c) rs)
       \<and> (rs \<noteq> [] \<longrightarrow> length (contents b') < length (frame c (hd rs)))
       \<and> writer_index b' \<le> writer_index b \<and> write_limit b' = write_limit b"
proof (induction ps arbitrary: b)
  case Nil
  then have "recv_round dec True c b = Inr (False, [], c, b)"
    by (simp add: recv_round_def new_payload dec_empty)
  then have "recv_loop dec True c b = Some (Inr ([], c, b))"
    by (subst recv_loop.simps) simp
  with Nil show ?case by auto
next
  case (Cons p ps)
  show ?case
  proof (cases "length (contents b) < length (frame c p)")
    case True
    with Cons.prems(4) obtain missing where m: "frame c p = contents b @ missing" "missing \<noteq> []"
      by (auto simp: append_eq_append_conv2) (metis append_Nil2 less_irrefl)
    with Cons.prems have "recv_round dec True c b = Inr (False, [], c, b)"
      by (simp add: recv_round_def new_payload dec_partial [OF _ _ _ m])
    then have "recv_loop dec True c b = Some (Inr (map Ev_message [], c, b))"
      by (subst recv_loop.simps) simp
    with Cons.prems True show ?thesis
      by (intro exI [of _ b] exI [of _ "[]"] exI [of _ "p # ps"]) simp
  next
    case False
    with Cons.prems(4) obtain tl where tl: "contents b = frame c p @ tl" "tl @ rest = concat (map (frame c) ps)"
      by (auto simp: append_eq_append_conv2)
         (metis append_Nil2 length_append less_add_same_cancel1 length_greater_0_conv)
    with Cons.prems obtain b1 where b1: "bb_inv b1" "contents b1 = tl" "writer_index b1 \<le> writer_index b"
      "write_limit b1 = write_limit b"
      "recv_loop dec True c b = Option.bind (recv_loop dec True c b1) (\<lambda>r.
         Some (bindR r (\<lambda>(evs, c2, bb). Inr (Ev_message p # evs, c2, bb))))"
      using recv_loop_frame [of c b p tl] by auto
    from Cons.IH [OF Cons.prems(1) b1(1)] Cons.prems(3) tl(2) b1(2) obtain b' qs rs where
      "ps = qs @ rs" "recv_loop dec True c b1 = Some (Inr (map Ev_message qs, c, b'))"
      "bb_inv b'" "contents b' @ rest = concat (map (frame c) rs)"
      "rs \<noteq> [] \<longrightarrow> length (contents b') < length (frame c (hd rs))"
      "writer_index b' \<le> writer_index b1" "write_limit b' = write_limit b1"
      by auto
    with b1 show ?thesis
      by (intro exI [of _ b'] exI [of _ "p # qs"] exI [of _ rs]) auto
  qed
qed

lemma recv_segments_frames:
  "ready c \<Longrightarrow> bb_inv b \<Longrightarrow> list_all (valid c) ps \<Longrightarrow> contents b @ concat segs = concat (map (frame c) ps) \<Longrightarrow>
   writer_index b + length (concat segs) \<le> write_limit b \<Longrightarrow>
   (ps \<noteq> [] \<Longrightarrow> length (contents b) < length (frame c (hd ps))) \<Longrightarrow>
     \<exists>b'. recv_segments dec c b segs = Some (Inr (map Ev_message ps, c, b')) \<and> bb_inv b' \<and> contents b' = []"
proof (induction segs arbitrary: b ps)
  case Nil
  then have "ps = []" by (cases ps) auto
  with Nil show ?case by simp
next
  case (Cons seg segs)
  then have "writer_index b + length seg \<le> write_limit b" by simp
  with Cons.prems(2) obtain b1 where b1: "buf_append b seg = Inr (True, b1)" "bb_inv b1"
    "contents b1 = contents b @ seg" "writer_index b1 \<le> writer_index b + length seg"
    "write_limit b1 = write_limit b"
    using bb.append_ok by blast
  with Cons.prems(1,3,4) obtain b2 qs rs where b2: "ps = qs @ rs"
    "recv_loop dec True c b1 = Some (Inr (map Ev_message qs, c, b2))" "bb_inv b2"
    "contents b2 @ concat segs = concat (map (frame c) rs)"
    "rs \<noteq> [] \<longrightarrow> length (contents b2) < length (frame c (hd rs))"
    "writer_index b2 \<le> writer_index b1" "write_limit b2 = write_limit b1"
    using recv_prefix [of c b1 ps "concat segs"] by auto
  with Cons.IH [of b2 rs] Cons.prems(1,3,5) b1
  obtain b' where "recv_segments dec c b2 segs = Some (Inr (map Ev_message rs, c, b'))"
    "bb_inv b'" "contents b' = []" by auto
  with b1 b2 show ?case by (auto simp: recv_def)
qed

end

end
