(* ===== verification/Crc32.thy ===== *)
theory Crc32
  imports Byte_Order
begin

text \<open>
  The checksum (include/Crc32c.h, src/Crc32c.cc): the two lookup tables, the nibble-wise and the
  byte-wise routine, and the incremental one. Whether plain \<^verbatim>\<open>char\<close> is signed depends on the target;
  it is the parameter \<open>signed_char\<close>. \<open>crc_ref\<close> is the bit-wise definition of the CRC with the reversed
  polynomial 0xedb88320, against which the three are proved correct, and the last section shows
  which transmission errors the checksum detects.
\<close>

section \<open>Tables and routines\<close>

definition crc32_table16 :: "32 word list" where
  "crc32_table16 =
     [0x00000000, 0x1db71064, 0x3b6e20c8, 0x26d930ac, 0x76dc4190, 0x6b6b51f4, 0x4db26158, 0x5005713c,
      0xedb88320, 0xf00f9344, 0xd6d6a3e8, 0xcb61b38c, 0x9b64c2b0, 0x86d3d2d4, 0xa00ae278, 0xbdbdf21c]"

definition crc32_table256 :: "32 word list" where
  "crc32_table256 =
     [0x00000000, 0x77073096, 0xee0e612c, 0x990951ba, 0x076dc419, 0x706af48f, 0xe963a535, 0x9e6495a3,
      0x0edb8832, 0x79dcb8a4, 0xe0d5e91e, 0x97d2d988, 0x09b64c2b, 0x7eb17cbd, 0xe7b82d07, 0x90bf1d91,
      0x1db71064, 0x6ab020f2, 0xf3b97148, 0x84be41de, 0x1adad47d, 0x6ddde4eb, 0xf4d4b551, 0x83d385c7,
      0x136c9856, 0x646ba8c0, 0xfd62f97a, 0x8a65c9ec, 0x14015c4f, 0x63066cd9, 0xfa0f3d63, 0x8d080df5,
      0x3b6e20c8, 0x4c69105e, 0xd56041e4, 0xa2677172, 0x3c03e4d1, 0x4b04d447, 0xd20d85fd, 0xa50ab56b,
      0x35b5a8fa, 0x42b2986c, 0xdbbbc9d6, 0xacbcf940, 0x32d86ce3, 0x45df5c75, 0xdcd60dcf, 0xabd13d59,
      0x26d930ac, 0x51de003a, 0xc8d75180, 0xbfd06116, 0x21b4f4b5, 0x56b3c423, 0xcfba9599, 0xb8bda50f,
      0x2802b89e, 0x5f058808, 0xc60cd9b2, 0xb10be924, 0x2f6f7c87, 0x58684c11, 0xc1611dab, 0xb6662d3d,
      0x76dc4190, 0x01db7106, 0x98d220bc, 0xefd5102a, 0x71b18589, 0x06b6b51f, 0x9fbfe4a5, 0xe8b8d433,
      0x7807c9a2, 0x0f00f934, 0x9609a88e, 0xe10e9818, 0x7f6a0dbb, 0x086d3d2d, 0x91646c97, 0xe6635c01,
      0x6b6b51f4, 0x1c6c6162, 0x856530d8, 0xf262004e, 0x6c0695ed, 0x1b01a57b, 0x8208f4c1, 0xf50fc457,
      0x65b0d9c6, 0x12b7e950, 0x8bbeb8ea, 0xfcb9887c, 0x62dd1ddf, 0x15da2d49, 0x8cd37cf3, 0xfbd44c65,
      0x4db26158, 0x3ab551ce, 0xa3bc0074, 0xd4bb30e2, 0x4adfa541, 0x3dd895d7, 0xa4d1c46d, 0xd3d6f4fb,
      0x4369e96a, 0x346ed9fc, 0xad678846, 0xda60b8d0, 0x44042d73, 0x33031de5, 0xaa0a4c5f, 0xdd0d7cc9,
      0x5005713c, 0x270241aa, 0xbe0b1010, 0xc90c2086, 0x5768b525, 0x206f85b3, 0xb966d409, 0xce61e49f,
      0x5edef90e, 0x29d9c998, 0xb0d09822, 0xc7d7a8b4, 0x59b33d17, 0x2eb40d81, 0xb7bd5c3b, 0xc0ba6cad,
      0xedb88320, 0x9abfb3b6, 0x03b6e20c, 0x74b1d29a, 0xead54739, 0x9dd277af, 0x04db2615, 0x73dc1683,
      0xe3630b12, 0x94643b84, 0x0d6d6a3e, 0x7a6a5aa8, 0xe40ecf0b, 0x9309ff9d, 0x0a00ae27, 0x7d079eb1,
      0xf00f9344, 0x8708a3d2, 0x1e01f268, 0x6906c2fe, 0xf762575d, 0x806567cb, 0x196c3671, 0x6e6b06e7,
      0xfed41b76, 0x89d32be0, 0x10da7a5a, 0x67dd4acc, 0xf9b9df6f, 0x8ebeeff9, 0x17b7be43, 0x60b08ed5,
      0xd6d6a3e8, 0xa1d1937e, 0x38d8c2c4, 0x4fdff252, 0xd1bb67f1, 0xa6bc5767, 0x3fb506dd, 0x48b2364b,
      0xd80d2bda, 0xaf0a1b4c, 0x36034af6, 0x41047a60, 0xdf60efc3, 0xa867df55, 0x316e8eef, 0x4669be79,
      0xcb61b38c, 0xbc66831a, 0x256fd2a0, 0x5268e236, 0xcc0c7795, 0xbb0b4703, 0x220216b9, 0x5505262f,
      0xc5ba3bbe, 0xb2bd0b28, 0x2bb45a92, 0x5cb36a04, 0xc2d7ffa7, 0xb5d0cf31, 0x2cd99e8b, 0x5bdeae1d,
      0x9b64c2b0, 0xec63f226, 0x756aa39c, 0x026d930a, 0x9c0906a9, 0xeb0e363f, 0x72076785, 0x05005713,
      0x95bf4a82, 0xe2b87a14, 0x7bb12bae, 0x0cb61b38, 0x92d28e9b, 0xe5d5be0d, 0x7cdcefb7, 0x0bdbdf21,
      0x86d3d2d4, 0xf1d4e242, 0x68ddb3f8, 0x1fda836e, 0x81be16cd, 0xf6b9265b, 0x6fb077e1, 0x18b74777,
      0x88085ae6, 0xff0f6a70, 0x66063bca, 0x11010b5c, 0x8f659eff, 0xf862ae69, 0x616bffd3, 0x166ccf45,
      0xa00ae278, 0xd70dd2ee, 0x4e048354, 0x3903b3c2, 0xa7672661, 0xd06016f7, 0x4969474d, 0x3e6e77db,
      0xaed16a4a, 0xd9d65adc, 0x40df0b66, 0x37d83bf0, 0xa9bcae53, 0xdebb9ec5, 0x47b2cf7f, 0x30b5ffe9,
      0xbdbdf21c, 0xcabac28a, 0x53b39330, 0x24b4a3a6, 0xbad03605, 0xcdd70693, 0x54de5729, 0x23d967bf,
      0xb3667a2e, 0xc4614ab8, 0x5d681b02, 0x2a6f2b94, 0xb40bbe37, 0xc30c8ea1, 0x5a05df1b, 0x2d02ef8d]"

definition promote_char :: "bool \<Rightarrow> byte \<Rightarrow> 32 word" where
  "promote_char signed_char c = (if signed_char then scast c else ucast c)"

definition short_step :: "bool \<Rightarrow> byte \<Rightarrow> 32 word \<Rightarrow> 32 word" where
  "short_step signed_char c crc =
     (let i = promote_char signed_char c;
          crc1 = crc32_table16 ! unat ((crc XOR (i AND 0xf)) AND 0xf) XOR drop_bit 4 crc
      in crc32_table16 ! unat ((crc1 XOR signed_drop_bit 4 i) AND 0xf) XOR drop_bit 4 crc1)"

definition long_step :: "bool \<Rightarrow> byte \<Rightarrow> 32 word \<Rightarrow> 32 word" where
  "long_step signed_char c crc =
     crc32_table256 ! unat ((crc XOR promote_char signed_char c) AND 0xff) XOR drop_bit 8 crc"

definition crc32_short :: "bool \<Rightarrow> byte list \<Rightarrow> 32 word" where
  "crc32_short signed_char buff = fold (short_step signed_char) buff 0xffffffff XOR 0xffffffff"

definition crc32_long :: "bool \<Rightarrow> byte list \<Rightarrow> 32 word" where
  "crc32_long signed_char buff = fold (long_step signed_char) buff 0xffffffff XOR 0xffffffff"

definition crc32_update :: "bool \<Rightarrow> 32 word \<Rightarrow> byte list \<Rightarrow> 32 word" where
  "crc32_update signed_char crc buff = fold (long_step signed_char) buff crc"

section \<open>The bit-wise reference\<close>

definition crc_poly :: "32 word" where
  "crc_poly = 0xedb88320"

definition crc_bit :: "32 word \<Rightarrow> 32 word" where
  "crc_bit r = (if bit r 0 then drop_bit 1 r XOR crc_poly else drop_bit 1 r)"

definition ref_step :: "byte \<Rightarrow> 32 word \<Rightarrow> 32 word" where
  "ref_step b r = (crc_bit ^^ 8) (r XOR ucast b)"

definition crc_ref :: "byte list \<Rightarrow> 32 word" where
  "crc_ref bs = fold ref_step bs 0xffffffff XOR 0xffffffff"

lemma crc_bit_xor: "crc_bit (a XOR b) = crc_bit a XOR crc_bit b"
  by (auto simp: crc_bit_def bit_simps xor.assoc xor.left_commute xor.commute)

lemma crc_bits_xor: "(crc_bit ^^ n) (a XOR b) = (crc_bit ^^ n) a XOR (crc_bit ^^ n) b"
  by (induction n) (simp_all add: crc_bit_xor)

lemma bit_32_less: "bit (x :: 32 word) n \<Longrightarrow> n < 32"
  by (drule bit_imp_le_length) simp

text \<open>Bits above the first \<open>n\<close> are only shifted by \<open>n\<close> steps.\<close>

lemma crc_bits_high: "(crc_bit ^^ n) (x AND NOT (mask n)) = drop_bit n x"
proof (induction n arbitrary: x)
  case (Suc n)
  have "crc_bit (x AND NOT (mask (Suc n))) = drop_bit 1 x AND NOT (mask n)"
  proof (rule bit_word_eqI)
    fix k assume "k < LENGTH(32)"
    with bit_32_less [of x "Suc k"]
    show "bit (crc_bit (x AND NOT (mask (Suc n)))) k = bit (drop_bit 1 x AND NOT (mask n)) k"
      by (auto simp: crc_bit_def bit_simps)
  qed
  then show ?case by (simp add: funpow_Suc_right Suc.IH drop_bit_drop_bit del: funpow.simps)
qed simp

lemma crc_bits_split: "(crc_bit ^^ n) r = (crc_bit ^^ n) (take_bit n r) XOR drop_bit n r"
proof -
  have "r = take_bit n r XOR (r AND NOT (mask n))"
    by (rule bit_word_eqI) (auto simp: bit_simps)
  then have "(crc_bit ^^ n) r = (crc_bit ^^ n) (take_bit n r) XOR (crc_bit ^^ n) (r AND NOT (mask n))"
    by (metis crc_bits_xor)
  then show ?thesis by (simp only: crc_bits_high)
qed

section \<open>The tables\<close>

lemma crc_bit_eval:
  "crc_bit 0 = 0" "crc_bit 1 = 0xedb88320"
  "crc_bit (numeral n) =
     (if odd (numeral n :: 32 word) then drop_bit 1 (numeral n) XOR 0xedb88320
      else drop_bit 1 (numeral n))"
  by (simp_all add: crc_bit_def crc_poly_def bit_0)

lemma crc_bits_unfold:
  "(crc_bit ^^ 4) r = crc_bit (crc_bit (crc_bit (crc_bit r)))"
  "(crc_bit ^^ 8) r = (crc_bit ^^ 4) ((crc_bit ^^ 4) r)"
  by (simp_all add: numeral_eq_Suc)

lemmas crc_bits_eval =
  crc_bits_unfold [of 0] crc_bits_unfold [of 1] crc_bits_unfold [of "numeral n" for n]

text \<open>\<open>tab_ok\<close> compares a table entry by entry with the reference, from index \<open>i\<close> on.\<close>

fun tab_ok :: "(32 word \<Rightarrow> 32 word) \<Rightarrow> nat \<Rightarrow> 32 word list \<Rightarrow> bool" where
  "tab_ok f i [] = True"
| "tab_ok f i (x # xs) = (f (of_nat i) = x \<and> tab_ok f (i + 1) xs)"

lemma tab_ok_nth: "tab_ok f i xs \<Longrightarrow> k < length xs \<Longrightarrow> xs ! k = f (of_nat (i + k))"
proof (induction xs arbitrary: i k)
  case (Cons x xs)
  then show ?case by (cases k) (auto simp: algebra_simps)
qed simp

lemma crc32_table16_ok: "tab_ok (crc_bit ^^ 4) 0 crc32_table16"
  by (simp add: crc32_table16_def crc_bits_eval crc_bit_eval)

lemma crc32_table256_ok: "tab_ok (crc_bit ^^ 8) 0 crc32_table256"
  by (simp add: crc32_table256_def crc_bits_eval crc_bit_eval)

section \<open>The routines compute the reference\<close>

lemma length_tables: "length crc32_table16 = 16" "length crc32_table256 = 256"
  by (simp_all add: crc32_table16_def crc32_table256_def)

lemma low_bits: "r AND 0xf = take_bit 4 (r :: 32 word)" "r AND 0xff = take_bit 8 (r :: 32 word)"
  by (simp_all add: take_bit_eq_mask mask_eq_exp_minus_1)

lemma table16_lookup: "crc32_table16 ! unat (r AND 0xf) = (crc_bit ^^ 4) (take_bit 4 r)"
proof -
  have "unat (take_bit 4 r) < 16"
    by (simp add: unsigned_take_bit_eq) (simp add: take_bit_eq_mod)
  then show ?thesis
    using tab_ok_nth [OF crc32_table16_ok, of "unat (take_bit 4 r)"]
    by (simp add: low_bits length_tables)
qed

lemma table256_lookup: "crc32_table256 ! unat (r AND 0xff) = (crc_bit ^^ 8) (take_bit 8 r)"
proof -
  have "unat (take_bit 8 r) < 256"
    by (simp add: unsigned_take_bit_eq) (simp add: take_bit_eq_mod)
  then show ?thesis
    using tab_ok_nth [OF crc32_table256_ok, of "unat (take_bit 8 r)"]
    by (simp add: low_bits length_tables)
qed

lemma bit_promote_char: "n < 8 \<Longrightarrow> bit (promote_char signed_char c) n = bit c n"
  by (auto simp: promote_char_def bit_simps)

lemma bit_8_less: "bit (c :: byte) n \<Longrightarrow> n < 8"
  by (drule bit_imp_le_length) simp

lemma long_step_ref: "long_step signed_char = ref_step"
proof (intro ext)
  fix c :: byte and crc :: "32 word"
  have "take_bit 8 (crc XOR promote_char signed_char c) = take_bit 8 (crc XOR ucast c)"
    by (rule bit_word_eqI) (auto simp: bit_simps bit_promote_char)
  moreover have "drop_bit 8 (crc XOR ucast c) = drop_bit 8 crc"
    by (rule bit_word_eqI) (auto simp: bit_simps dest: bit_8_less)
  ultimately show "long_step signed_char c crc = ref_step c crc"
    unfolding long_step_def ref_step_def table256_lookup
    by (subst (2) crc_bits_split) simp
qed

lemma crc_bits_4_low:
  "crc32_table16 ! unat ((r XOR x) AND 0xf) XOR drop_bit 4 r = (crc_bit ^^ 4) (r XOR take_bit 4 x)"
proof -
  have "take_bit 4 (r XOR take_bit 4 x) = take_bit 4 (r XOR x)"
    "drop_bit 4 (r XOR take_bit 4 x) = drop_bit 4 r"
    by (rule bit_word_eqI; auto simp: bit_simps)+
  then show ?thesis
    unfolding table16_lookup by (subst (2) crc_bits_split) simp
qed

lemma short_step_ref: "short_step signed_char = ref_step"
proof (intro ext)
  fix c :: byte and crc :: "32 word"
  let ?i = "promote_char signed_char c"
  let ?hi = "take_bit 4 (signed_drop_bit 4 ?i)"
  have c: "ucast c = take_bit 4 ?i XOR push_bit 4 ?hi"
  proof (rule bit_word_eqI)
    fix n assume "n < LENGTH(32)"
    then show "bit (ucast c :: 32 word) n = bit (take_bit 4 ?i XOR push_bit 4 ?hi) n"
      by (cases "n < 8") (auto simp: bit_simps bit_promote_char dest: bit_8_less)
  qed
  have "push_bit 4 ?hi AND NOT (mask 4) = push_bit 4 ?hi" "drop_bit 4 (push_bit 4 ?hi) = ?hi"
    by (rule bit_word_eqI; auto simp: bit_simps)+
  then have hi: "(crc_bit ^^ 4) (push_bit 4 ?hi) = ?hi"
    using crc_bits_high [of 4 "push_bit 4 ?hi"] by simp
  have "ref_step c crc = (crc_bit ^^ 4) ((crc_bit ^^ 4) (crc XOR take_bit 4 ?i) XOR ?hi)"
    unfolding ref_step_def crc_bits_unfold(2) c hi
    by (simp only: crc_bits_xor hi flip: xor.assoc)
  also have "\<dots> = short_step signed_char c crc"
    unfolding short_step_def Let_def crc_bits_4_low by (simp add: low_bits)
  finally show "short_step signed_char c crc = ref_step c crc" by simp
qed

lemma crc32_update_ref: "crc32_update signed_char crc bs = fold ref_step bs crc"
  by (simp add: crc32_update_def long_step_ref)

section \<open>Which errors the checksum detects\<close>

lemma xor_cancel:
  fixes a b c :: "32 word"
  shows "a XOR c = b XOR c \<Longrightarrow> a = b" and "c XOR a = c XOR b \<Longrightarrow> a = b"
proof -
  show "a XOR c = b XOR c \<Longrightarrow> a = b"
    by (drule arg_cong [where f = "\<lambda>x. x XOR c"]) (simp add: xor.assoc)
  then show "c XOR a = c XOR b \<Longrightarrow> a = b" by (simp add: xor.commute)
qed

lemma inj_crc_bit: "inj crc_bit"
proof (rule injI)
  fix a b assume eq: "crc_bit a = crc_bit b"
  have top: "bit (crc_bit r) 31 = bit r 0" for r
    using bit_32_less [of r 32] by (auto simp: crc_bit_def crc_poly_def bit_simps)
  then have b0: "bit a 0 = bit b 0" using eq by metis
  with eq have "drop_bit 1 a = drop_bit 1 b"
    by (auto simp: crc_bit_def split: if_splits dest: xor_cancel)
  then have "bit (drop_bit 1 a) n = bit (drop_bit 1 b) n" for n by simp
  then have "bit a (Suc n) = bit b (Suc n)" for n by (simp add: bit_simps)
  with b0 have "bit a n = bit b n" for n by (cases n) simp_all
  then show "a = b" by (intro bit_word_eqI) simp
qed

lemma inj_crc_bits: "inj (crc_bit ^^ n)"
proof (induction n)
  case (Suc n)
  show ?case by (rule injI) (simp add: inj_eq [OF inj_crc_bit] inj_eq [OF Suc])
qed simp

lemma inj_ref_fold: "inj (fold ref_step bs)"
proof (induction bs)
  case (Cons b bs)
  have "inj (ref_step b)"
    by (rule injI) (auto simp: ref_step_def inj_eq [OF inj_crc_bits] dest: xor_cancel)
  then show ?case by (intro injI) (simp add: inj_eq [OF Cons] inj_eq)
qed simp

text \<open>Up to four bytes enter the register as one little-endian word.\<close>

lemma ref_fold_word:
  "length bs \<le> 4 \<Longrightarrow> fold ref_step bs r = (crc_bit ^^ (8 * length bs)) (r XOR of_le_bytes bs)"
proof (induction bs arbitrary: r)
  case (Cons b bs)
  let ?w = "of_le_bytes bs :: 32 word"
  have less: "k < 24" if "bit ?w k" for k
    using that Cons.prems by (auto simp: bit_of_le_bytes)
  have w: "push_bit 8 ?w AND NOT (mask 8) = push_bit 8 ?w"
    by (rule bit_word_eqI) (auto simp: bit_simps)
  have "drop_bit 8 (push_bit 8 ?w) = ?w"
    by (rule bit_word_eqI) (use less in \<open>auto simp: bit_simps\<close>)
  then have hi: "(crc_bit ^^ 8) (push_bit 8 ?w) = ?w"
    using crc_bits_high [of 8 "push_bit 8 ?w"] by (simp only: w)
  have o: "of_le_bytes (b # bs) = (ucast b XOR push_bit 8 ?w :: 32 word)"
    by (rule bit_word_eqI) (auto simp: bit_simps dest: bit_8_less)
  have step: "(crc_bit ^^ 8) (r XOR of_le_bytes (b # bs)) = ref_step b r XOR ?w"
    by (simp only: o ref_step_def crc_bits_xor hi xor.assoc)
  have "8 * length (b # bs) = 8 * length bs + 8" by simp
  then have "(crc_bit ^^ (8 * length (b # bs))) (r XOR of_le_bytes (b # bs))
      = (crc_bit ^^ (8 * length bs)) (ref_step b r XOR ?w)"
    by (simp only: funpow_add comp_apply step)
  with Cons show ?case by simp
qed simp

lemma ref_fold_burst:
  assumes "length xs = length ys" and "length xs \<le> 4" and "fold ref_step xs r = fold ref_step ys r"
  shows "xs = ys"
proof -
  have "r XOR of_le_bytes xs = r XOR (of_le_bytes ys :: 32 word)"
    using assms by (simp add: ref_fold_word inj_eq [OF inj_crc_bits])
  then have "of_le_bytes xs = (of_le_bytes ys :: 32 word)"
    by (rule xor_cancel)
  then have "le_bytes (length xs) (of_le_bytes xs :: 32 word)
      = le_bytes (length ys) (of_le_bytes ys :: 32 word)"
    using assms(1) by simp
  then show ?thesis
    using assms(1,2) by (subst (asm) (1 2) le_bytes_of_le_bytes) simp_all
qed

lemma crc_ref_burst:
  assumes "length xs = length ys" and "length xs \<le> 4" and "xs \<noteq> ys"
  shows "crc_ref (pre @ xs @ post) \<noteq> crc_ref (pre @ ys @ post)"
proof
  assume "crc_ref (pre @ xs @ post) = crc_ref (pre @ ys @ post)"
  then have "fold ref_step (pre @ xs @ post) 0xffffffff = fold ref_step (pre @ ys @ post) 0xffffffff"
    unfolding crc_ref_def by (rule xor_cancel)
  then have "fold ref_step xs (fold ref_step pre 0xffffffff) = fold ref_step ys (fold ref_step pre 0xffffffff)"
    by (simp add: inj_eq [OF inj_ref_fold])
  with ref_fold_burst [OF assms(1,2)] assms(3) show False by blast
qed

section \<open>Properties\<close>

text \<open>C25: The two table-driven checksum routines, nibble-wise and byte-wise, compute the same CRC:
  the bit-wise one with the reversed polynomial 0xedb88320, initial value and final complement
  0xffffffff. Feeding the bytes in any number of pieces to \<^verbatim>\<open>crc32_update\<close> gives it too. All this
  holds whether \<^verbatim>\<open>char\<close> is signed or not.\<close>

theorem crc32_correct:
  "crc32_short signed_char bs = crc_ref bs \<and> crc32_long signed_char bs = crc_ref bs
   \<and> (concat pieces = bs \<longrightarrow>
        fold (\<lambda>p crc. crc32_update signed_char crc p) pieces 0xffffffff XOR 0xffffffff = crc_ref bs)"
proof -
  have "fold (\<lambda>p crc. crc32_update signed_char crc p) pieces r = fold ref_step (concat pieces) r" for r
    by (induction pieces arbitrary: r) (simp_all add: crc32_update_ref)
  then show ?thesis
    by (auto simp: crc32_short_def crc32_long_def crc_ref_def short_step_ref long_step_ref)
qed

theorem crc32_correct_witness:
  "concat [[1], [2, 3]] = [1, 2, 3 :: byte]
   \<and> fold (\<lambda>p crc. crc32_update True crc p) [[1], [2, 3]] 0xffffffff XOR 0xffffffff = crc_ref [1, 2, 3]"
  using crc32_correct [of True "[1, 2, 3]" "[[1], [2, 3]]"] by simp

text \<open>Error detection. If two messages of equal length agree outside a window of at most four
  consecutive bytes and differ inside it, their checksums differ.\<close>

theorem crc32_detects_bursts:
  assumes "length xs = length ys" and "length xs \<le> 4" and "xs \<noteq> ys"
  shows "crc32_short signed_char (pre @ xs @ post) \<noteq> crc32_short signed_char (pre @ ys @ post)"
  using crc_ref_burst [OF assms, of pre post] by (simp add: crc32_short_def short_step_ref crc_ref_def)

theorem crc32_detects_bursts_witness:
  "crc32_short True ([7] @ [1, 2, 3, 4] @ [9]) \<noteq> crc32_short True ([7] @ [5, 2, 3, 0] @ [9])"
  using crc32_detects_bursts [of "[1, 2, 3, 4]" "[5, 2, 3, 0]" True "[7]" "[9]"] by simp

end
