(* ===== verification/Length_Header_Codec.thy ===== *)
theory Length_Header_Codec
  imports Codec_Base Crc32
begin

text \<open>
  \<^verbatim>\<open>LengthHeaderCodec\<close> (include/codec/LengthHeaderCodec.h): a frame is the length of the rest of the
  frame as a signed integer of 1, 2, 4 or 8 bytes in network byte order, the payload, and
  optionally its CRC-32. \<open>lh_decode\<close> and \<open>lh_encode\<close> follow the source; arithmetic on \<^verbatim>\<open>ssize_t\<close> is on
  \<^typ>\<open>int\<close> with the overflow as a fault. \<open>lh_frame\<close> is the abstract frame of a payload and
  \<open>lh_decode_contents\<close> the function \<^verbatim>\<open>decode\<close> computes on the readable bytes. The codec is an instance
  of \<open>stream_codec\<close>.
\<close>

datatype length_type = kLengthType8 | kLengthType16 | kLengthType32 | kLengthType64

fun length_type_size :: "length_type \<Rightarrow> nat" where
  "length_type_size kLengthType8 = 1"
| "length_type_size kLengthType16 = 2"
| "length_type_size kLengthType32 = 4"
| "length_type_size kLengthType64 = 8"

record length_header_codec =
  length_type :: length_type
  max_payload :: int
  checksum_length :: int

definition new_length_header_codec :: "length_type \<Rightarrow> bool \<Rightarrow> int \<Rightarrow> length_header_codec" where
  "new_length_header_codec lt enable_checksum mp =
     \<lparr>length_type = lt, max_payload = mp, checksum_length = (if \<not> enable_checksum then 0 else 4)\<rparr>"

definition min_payload :: "length_header_codec \<Rightarrow> int" where
  "min_payload c = checksum_length c"

section \<open>Decoding and encoding\<close>

definition ssize :: "int \<Rightarrow> int res" where
  "ssize i = (if - (2 ^ 63) \<le> i \<and> i < 2 ^ 63 then Inr i else Inl Signed_overflow)"

fun get_payload_length :: "bool \<Rightarrow> length_type \<Rightarrow> byte_buffer \<Rightarrow> int res" where
  "get_payload_length little kLengthType8 buff = bindR (peek_int8 little buff) (\<lambda>x. Inr (sint x))"
| "get_payload_length little kLengthType16 buff = bindR (peek_int16 little buff) (\<lambda>x. Inr (sint x))"
| "get_payload_length little kLengthType32 buff = bindR (peek_int32 little buff) (\<lambda>x. Inr (sint x))"
| "get_payload_length little kLengthType64 buff = bindR (peek_int64 little buff) (\<lambda>x. Inr (sint x))"

fun set_buff_length :: "bool \<Rightarrow> length_type \<Rightarrow> int \<Rightarrow> byte_buffer \<Rightarrow> byte_buffer res" where
  "set_buff_length little kLengthType8 n buff = append_int8 little buff (word_of_int n)"
| "set_buff_length little kLengthType16 n buff = append_int16 little buff (word_of_int n)"
| "set_buff_length little kLengthType32 n buff = append_int32 little buff (word_of_int n)"
| "set_buff_length little kLengthType64 n buff = append_int64 little buff (word_of_int n)"

definition peek_uint32 :: "bool \<Rightarrow> nat \<Rightarrow> byte list \<Rightarrow> 32 word res" where
  "peek_uint32 little off mem =
     bindR (read_mem off 4 mem) (\<lambda>be32. Inr (net_to_host32 little (of_obj_bytes little be32)))"

definition crc32_of :: "bool \<Rightarrow> nat \<Rightarrow> nat \<Rightarrow> byte list \<Rightarrow> 32 word res" where
  "crc32_of signed_char off n mem =
     bindR (read_mem off n mem) (\<lambda>bs.
       Inr (if n > 60 then crc32_long signed_char bs else crc32_short signed_char bs))"

definition lh_decode ::
  "bool \<Rightarrow> bool \<Rightarrow> length_header_codec \<Rightarrow> byte_buffer \<Rightarrow> byte_buffer \<Rightarrow> (int \<times> byte_buffer \<times> byte_buffer) res" where
  "lh_decode little signed_char c buff payload =
     (let lt = length_type_size (length_type c); cs = checksum_length c in
      bindR (readable_bytes buff) (\<lambda>n.
      if n \<ge> lt then
        bindR (get_payload_length little (length_type c) buff) (\<lambda>len.
        if len < min_payload c \<or> (max_payload c > 0 \<and> len > max_payload c) then Inr (-1, buff, payload)
        else bindR (ssize (len + int lt)) (\<lambda>total.
          if n \<ge> to_size total then
            bindR (begin_read buff) (\<lambda>p.
            bindR (if cs > 0 then peek_uint32 little (p + lt + nat len - nat cs) (buffer buff) else Inr 0) (\<lambda>checksum.
            bindR (if cs > 0 then crc32_of signed_char (p + lt) (nat (len - cs)) (buffer buff) else Inr 0) (\<lambda>expectsum.
            if expectsum = checksum then
              bindR (read_mem (p + lt) (nat (len - cs)) (buffer buff)) (\<lambda>body.
              bindR (buf_append payload body) (\<lambda>(ok, payload').
              bindR (has_read buff (to_size total)) (\<lambda>buff'.
              Inr (1, buff', payload'))))
            else Inr (-1, buff, payload))))
          else Inr (0, buff, payload)))
      else Inr (0, buff, payload)))"

definition lh_encode ::
  "bool \<Rightarrow> bool \<Rightarrow> length_header_codec \<Rightarrow> byte_buffer \<Rightarrow> byte_buffer \<Rightarrow> (int \<times> byte_buffer) res" where
  "lh_encode little signed_char c payload buff =
     bindR (readable_bytes payload) (\<lambda>n.
       let len = int n; cs = checksum_length c in
       if len = 0 then Inr (0, buff)
       else if len < min_payload c - cs \<or> (max_payload c > 0 \<and> len > max_payload c) then Inr (-1, buff)
       else
         bindR (ssize (len + cs)) (\<lambda>total.
         bindR (set_buff_length little (length_type c) total buff) (\<lambda>buff1.
         bindR (begin_read payload) (\<lambda>p.
         bindR (read_mem p n (buffer payload)) (\<lambda>body.
         bindR (buf_append buff1 body) (\<lambda>(ok, buff2).
         if cs > 0 then
           bindR (crc32_of signed_char p n (buffer payload)) (\<lambda>checksum.
           bindR (append_int32 little buff2 checksum) (\<lambda>buff3.
           Inr (1, buff3)))
         else Inr (1, buff2)))))))"

definition lh_decoder :: "bool \<Rightarrow> bool \<Rightarrow> length_header_codec decoder" where
  "lh_decoder little signed_char c buff payload =
     bindR (lh_decode little signed_char c buff payload) (\<lambda>(rt, buff', payload'). Inr (rt, buff', payload', c))"

section \<open>What they compute on the readable bytes\<close>

fun length_bytes :: "length_type \<Rightarrow> int \<Rightarrow> byte list" where
  "length_bytes kLengthType8 n = [word_of_int n]"
| "length_bytes kLengthType16 n = be_bytes 2 (word_of_int n :: 16 word)"
| "length_bytes kLengthType32 n = be_bytes 4 (word_of_int n :: 32 word)"
| "length_bytes kLengthType64 n = be_bytes 8 (word_of_int n :: 64 word)"

fun length_value :: "length_type \<Rightarrow> byte list \<Rightarrow> int" where
  "length_value kLengthType8 bs = sint (hd bs)"
| "length_value kLengthType16 bs = sint (of_be_bytes (take 2 bs) :: 16 word)"
| "length_value kLengthType32 bs = sint (of_be_bytes (take 4 bs) :: 32 word)"
| "length_value kLengthType64 bs = sint (of_be_bytes (take 8 bs) :: 64 word)"

definition lh_wf :: "length_header_codec \<Rightarrow> bool" where
  "lh_wf c \<longleftrightarrow> checksum_length c \<in> {0, 4} \<and>
     (length_type c = kLengthType64 \<longrightarrow> 0 < max_payload c \<and> max_payload c < 2 ^ 63 - 8)"

text \<open>The verdict of \<^verbatim>\<open>decode\<close> on the bytes at hand: an error, not enough bytes, or a payload and the
  number of bytes of its frame.\<close>

datatype verdict = Bad | Incomplete | Payload "byte list" nat

definition lh_decode_contents :: "length_header_codec \<Rightarrow> byte list \<Rightarrow> verdict" where
  "lh_decode_contents c xs =
     (let lt = length_type_size (length_type c); cs = nat (checksum_length c);
          len = length_value (length_type c) xs;
          body = take (nat len - cs) (drop lt xs)
      in if length xs < lt then Incomplete
         else if len < int cs \<or> (max_payload c > 0 \<and> len > max_payload c) then Bad
         else if length xs < lt + nat len then Incomplete
         else if cs > 0 \<and> of_be_bytes (take 4 (drop (lt + nat len - cs) xs)) \<noteq> crc_ref body then Bad
         else Payload body (lt + nat len))"

definition lh_frame :: "length_header_codec \<Rightarrow> byte list \<Rightarrow> byte list" where
  "lh_frame c p =
     length_bytes (length_type c) (int (length p) + checksum_length c) @ p
     @ (if checksum_length c > 0 then be_bytes 4 (crc_ref p) else [])"

definition lh_valid :: "length_header_codec \<Rightarrow> byte list \<Rightarrow> bool" where
  "lh_valid c p \<longleftrightarrow> p \<noteq> []
     \<and> int (length p) + checksum_length c < 2 ^ (8 * length_type_size (length_type c) - 1)
     \<and> (max_payload c > 0 \<longrightarrow> int (length p) + checksum_length c \<le> max_payload c)"

section \<open>Decoding under the invariant\<close>

lemma length_type_size_pos [simp]: "0 < length_type_size lt"
  by (cases lt) simp_all

lemma get_payload_length_inv:
  "bb_inv b \<Longrightarrow> length_type_size lt \<le> length (contents b) \<Longrightarrow>
     get_payload_length little lt b = Inr (length_value lt (contents b))"
  by (cases lt) (simp_all add: peek_int_eq)

lemma length_value_bound:
  "length_value lt xs < 2 ^ (8 * length_type_size lt - 1)"
  using sint_lt [of "hd xs"] sint_lt [of "of_be_bytes (take 2 xs) :: 16 word"]
    sint_lt [of "of_be_bytes (take 4 xs) :: 32 word"] sint_lt [of "of_be_bytes (take 8 xs) :: 64 word"]
  by (cases lt) simp_all

text \<open>The one fault of \<^verbatim>\<open>decode\<close>: \<^verbatim>\<open>length + length_type()\<close> overflows, which takes a length field of 64 bits that no
  limit rejects.\<close>

definition lh_overflows :: "length_header_codec \<Rightarrow> byte list \<Rightarrow> bool" where
  "lh_overflows c xs \<longleftrightarrow>
     (let lt = length_type_size (length_type c); len = length_value (length_type c) xs
      in lt \<le> length xs \<and> checksum_length c \<le> len \<and> (max_payload c > 0 \<longrightarrow> len \<le> max_payload c) \<and> 2 ^ 63 \<le> len + int lt)"

lemma lh_overflows_unbounded: "lh_overflows c xs \<Longrightarrow> length_type c = kLengthType64 \<and> \<not> (0 < max_payload c \<and> max_payload c < 2 ^ 63 - 8)"
  using length_value_bound [of "length_type c" xs] by (cases "length_type c") (auto simp: lh_overflows_def Let_def)

lemma ssize_total:
  assumes "0 \<le> len" and "len + int lt < 2 ^ 63"
  shows "ssize (len + int lt) = Inr (len + int lt)" and "to_size (len + int lt) = nat len + lt"
  using assms by (auto simp: ssize_def to_size_nonneg nat_add_distrib)

lemma crc32_of_contents:
  "bb_inv b \<Longrightarrow> off + n \<le> length (contents b) \<Longrightarrow>
     crc32_of signed_char (reader_index b + off) n (buffer b) = Inr (crc_ref (take n (drop off (contents b))))"
  by (simp add: crc32_of_def read_contents_at crc32_short_def crc32_long_def crc_ref_def
      short_step_ref long_step_ref)

lemma peek_uint32_contents:
  "bb_inv b \<Longrightarrow> off + 4 \<le> length (contents b) \<Longrightarrow>
     peek_uint32 little (reader_index b + off) (buffer b) = Inr (of_be_bytes (take 4 (drop off (contents b))))"
  by (simp add: peek_uint32_def read_contents_at net_to_host_of_obj_bytes)

lemma lh_decode_eq:
  assumes "bb_inv b" and "checksum_length c \<in> {0, 4}"
  shows "lh_decode little signed_char c b pl =
    (if lh_overflows c (contents b) then Inl Signed_overflow
     else case lh_decode_contents c (contents b) of
       Bad \<Rightarrow> Inr (-1, b, pl)
     | Incomplete \<Rightarrow> Inr (0, b, pl)
     | Payload body k \<Rightarrow>
         bindR (buf_append pl body) (\<lambda>(ok, pl'). bindR (has_read b k) (\<lambda>b'. Inr (1, b', pl'))))"
proof -
  define lt where "lt = length_type_size (length_type c)"
  define cs where "cs = nat (checksum_length c)"
  define xs where "xs = contents b"
  define len where "len = length_value (length_type c) xs"
  have cs: "checksum_length c = int cs" "cs \<in> {0, 4}" using assms(2) by (auto simp: cs_def)
  have ov: "lh_overflows c xs \<longleftrightarrow> lt \<le> length xs \<and> int cs \<le> len \<and> (max_payload c > 0 \<longrightarrow> len \<le> max_payload c) \<and> 2 ^ 63 \<le> len + int lt"
    unfolding lh_overflows_def Let_def cs(1) by (simp flip: lt_def len_def)
  consider (short) "length xs < lt"
    | (bad) "lt \<le> length xs" "len < int cs \<or> (max_payload c > 0 \<and> len > max_payload c)"
    | (overflow) "lt \<le> length xs" "int cs \<le> len" "max_payload c > 0 \<longrightarrow> len \<le> max_payload c" "2 ^ 63 \<le> len + int lt"
    | (rest) "lt \<le> length xs" "int cs \<le> len" "max_payload c > 0 \<longrightarrow> len \<le> max_payload c" "len + int lt < 2 ^ 63"
    by linarith
  then show ?thesis
  proof cases
    case short
    then show ?thesis
      using assms by (simp add: lh_decode_def lh_decode_contents_def readable_bytes_inv Let_def ov
          flip: lt_def xs_def)
  next
    case bad
    then have "\<not> lh_overflows c xs" unfolding ov by auto
    with bad show ?thesis
      using assms
      by (simp add: lh_decode_def lh_decode_contents_def readable_bytes_inv get_payload_length_inv
          min_payload_def cs Let_def flip: lt_def xs_def len_def)
  next
    case (overflow)
    then have "ssize (len + int lt) = Inl Signed_overflow" by (simp add: ssize_def)
    moreover have "\<not> (0 < max_payload c \<and> max_payload c < len)" using overflow(3) by auto
    ultimately show ?thesis
      using overflow assms
      by (simp add: lh_decode_def readable_bytes_inv get_payload_length_inv min_payload_def cs Let_def ov
          flip: lt_def xs_def len_def)
  next
    case rest
    have tot: "ssize (len + int lt) = Inr (len + int lt)" "to_size (len + int lt) = nat len + lt"
      using ssize_total [of len lt] rest(2,4) by auto
    let ?body = "take (nat len - cs) (drop lt xs)"
    let ?sum = "of_be_bytes (take 4 (drop (lt + nat len - cs) xs)) :: 32 word"
    show ?thesis
    proof (cases "length xs < lt + nat len")
      case True
      with rest assms show ?thesis
        by (simp add: lh_decode_def lh_decode_contents_def readable_bytes_inv get_payload_length_inv
            min_payload_def cs Let_def tot ov flip: lt_def xs_def len_def)
    next
      case False
      then have fits: "lt + (nat len - cs) \<le> length xs" "lt + nat len - cs + 4 \<le> length xs \<or> cs = 0"
        using rest(2) cs(2) by auto
      have "nat (len - int cs) = nat len - cs" by (simp add: nat_diff_distrib')
      moreover have "reader_index b + lt + nat len - cs = reader_index b + (lt + nat len - cs)"
        using rest(2) by simp
      moreover have "cs \<noteq> 0 \<Longrightarrow> peek_uint32 little (reader_index b + (lt + nat len - cs)) (buffer b) = Inr ?sum"
        using fits peek_uint32_contents [OF assms(1)] by (auto simp: xs_def)
      moreover have "crc32_of signed_char (reader_index b + lt) (nat len - cs) (buffer b) = Inr (crc_ref ?body)"
        using fits crc32_of_contents [OF assms(1)] by (simp add: xs_def)
      moreover have "read_mem (reader_index b + lt) (nat len - cs) (buffer b) = Inr ?body"
        using fits read_contents_at [OF assms(1)] by (simp add: xs_def)
      ultimately show ?thesis
        using rest assms False
        by (auto simp: lh_decode_def lh_decode_contents_def readable_bytes_inv get_payload_length_inv
            min_payload_def cs Let_def tot ov begin_read_inv add.commute [of lt] simp flip: lt_def xs_def len_def)
    qed
  qed
qed

lemma lh_decode_inv:
  assumes "bb_inv b" and "lh_wf c"
  shows "lh_decode little signed_char c b pl =
    (case lh_decode_contents c (contents b) of
       Bad \<Rightarrow> Inr (-1, b, pl)
     | Incomplete \<Rightarrow> Inr (0, b, pl)
     | Payload body k \<Rightarrow>
         bindR (buf_append pl body) (\<lambda>(ok, pl'). bindR (has_read b k) (\<lambda>b'. Inr (1, b', pl'))))"
proof -
  have "\<not> lh_overflows c (contents b)" using assms(2) lh_overflows_unbounded [of c] by (auto simp: lh_wf_def)
  with lh_decode_eq [OF assms(1), of c little signed_char pl] assms(2) show ?thesis by (simp add: lh_wf_def)
qed

section \<open>Frames\<close>

lemma length_length_bytes [simp]: "length (length_bytes lt n) = length_type_size lt"
  by (cases lt) simp_all

lemma length_value_bytes:
  assumes "0 \<le> n" and "n < 2 ^ (8 * length_type_size lt - 1)"
  shows "length_value lt (length_bytes lt n @ ys) = n"
  using assms
  by (cases lt) (simp_all add: of_be_bytes_be_bytes sint_sbintrunc' signed_take_bit_int_eq_self)

lemma length_value_prefix:
  "length_type_size lt \<le> length xs \<Longrightarrow> length_value lt (xs @ ys) = length_value lt xs"
  by (cases lt) (auto simp: hd_append)

lemma length_lh_frame:
  "lh_wf c \<Longrightarrow> length (lh_frame c p)
     = length_type_size (length_type c) + length p + nat (checksum_length c)"
  by (auto simp: lh_frame_def lh_wf_def)

lemma lh_frame_value:
  assumes "lh_wf c" and "lh_valid c p"
  shows "length_value (length_type c) (lh_frame c p @ rest) = int (length p) + checksum_length c"
  using assms length_value_bytes [of "int (length p) + checksum_length c" "length_type c"]
  by (auto simp: lh_frame_def lh_valid_def lh_wf_def)

lemma lh_decode_contents_frame:
  assumes "lh_wf c" and "lh_valid c p"
  shows "lh_decode_contents c (lh_frame c p @ rest) = Payload p (length (lh_frame c p))"
proof -
  define lt where "lt = length_type_size (length_type c)"
  define cs where "cs = nat (checksum_length c)"
  define n where "n = length p + cs"
  define xs where "xs = lh_frame c p @ rest"
  have cs: "checksum_length c = int cs" "cs = 0 \<or> cs = 4" using assms(1) by (auto simp: lh_wf_def cs_def)
  have v: "length_value (length_type c) xs = int n"
    using lh_frame_value [OF assms] by (simp add: cs n_def xs_def)
  have len: "lt + n \<le> length xs" "lt + n = length (lh_frame c p)"
    using length_lh_frame [OF assms(1)] by (simp_all add: xs_def n_def lt_def cs_def)
  have "drop lt xs = p @ (if cs > 0 then be_bytes 4 (crc_ref p) else []) @ rest"
    by (simp add: lh_frame_def lt_def cs xs_def)
  moreover have "drop (lt + n - cs) xs = (if cs > 0 then be_bytes 4 (crc_ref p) else []) @ rest"
    by (simp add: lh_frame_def lt_def cs xs_def n_def)
  ultimately have "take (n - cs) (drop lt xs) = p"
    "cs > 0 \<longrightarrow> of_be_bytes (take 4 (drop (lt + n - cs) xs)) = crc_ref p"
    by (simp_all add: n_def of_be_bytes_be_bytes)
  moreover have "cs \<le> n" "max_payload c > 0 \<longrightarrow> int n \<le> max_payload c"
    using assms(2) by (auto simp: n_def lh_valid_def cs)
  ultimately show ?thesis
    using len(1)
    by (auto simp: lh_decode_contents_def v Let_def len(2) [symmetric] simp flip: lt_def cs_def xs_def)
qed

lemma lh_decode_contents_partial:
  assumes "lh_wf c" and "lh_valid c p" and "lh_frame c p = xs @ missing" and "missing \<noteq> []"
  shows "lh_decode_contents c xs = Incomplete"
proof (cases "length xs < length_type_size (length_type c)")
  case True
  then show ?thesis by (simp add: lh_decode_contents_def Let_def)
next
  case False
  define n where "n = length p + nat (checksum_length c)"
  have n: "int n = int (length p) + checksum_length c" using assms(1) by (auto simp: lh_wf_def n_def)
  from False have "length_value (length_type c) xs = int n"
    using lh_frame_value [OF assms(1,2), of "[]"] length_value_prefix [of "length_type c" xs missing]
    by (simp add: assms(3) n)
  moreover have "length xs < length_type_size (length_type c) + n"
    using assms(3,4) length_lh_frame [OF assms(1), of p] by (cases missing) (simp_all add: n_def)
  moreover have "max_payload c > 0 \<longrightarrow> int n \<le> max_payload c"
    using assms(2) by (auto simp: lh_valid_def n)
  moreover have "nat (checksum_length c) \<le> n" by (simp add: n_def)
  ultimately show ?thesis
    using False by (auto simp: lh_decode_contents_def Let_def)
qed

lemma lh_decode_contents_payload:
  assumes "lh_decode_contents c xs = Payload body k"
  shows "0 < k" and "k \<le> length xs" and "length body \<le> length xs"
  using assms by (auto simp: lh_decode_contents_def Let_def split: if_splits)

text \<open>What is decoded is the frame of the payload: the bytes that \<^verbatim>\<open>decode\<close> takes are those \<^verbatim>\<open>encode\<close> writes for it.\<close>

lemma length_bytes_value:
  assumes "length_type_size lt \<le> length xs"
  shows "length_bytes lt (length_value lt xs) = take (length_type_size lt) xs"
  using assms be_bytes_of_be_bytes [of "take 2 xs", where ?'a = 16] be_bytes_of_be_bytes [of "take 4 xs", where ?'a = 32]
    be_bytes_of_be_bytes [of "take 8 xs", where ?'a = 64]
  by (cases lt) (auto simp: Suc_le_length_iff)

lemma lh_decode_contents_is_frame:
  assumes "checksum_length c \<in> {0, 4}" and pl: "lh_decode_contents c xs = Payload body k"
  shows "take k xs = lh_frame c body" and "length (lh_frame c body) = k"
proof -
  define lt where "lt = length_type_size (length_type c)"
  define cs where "cs = nat (checksum_length c)"
  define len where "len = length_value (length_type c) xs"
  have cs: "checksum_length c = int cs" "cs = 0 \<or> cs = 4" using assms(1) by (auto simp: cs_def)
  have d: "lt \<le> length xs" "int cs \<le> len" "lt + nat len \<le> length xs" "k = lt + nat len"
      "body = take (nat len - cs) (drop lt xs)" "cs > 0 \<longrightarrow> of_be_bytes (take 4 (drop (lt + nat len - cs) xs)) = crc_ref body"
    using pl by (auto simp: lh_decode_contents_def Let_def simp flip: lt_def cs_def len_def split: if_splits)
  have lb: "length body = nat len - cs" using d(3,5) by simp
  then have n: "int (length body) + checksum_length c = len" using d(2) cs(1) by simp
  have "length_bytes (length_type c) len = take lt xs"
    using length_bytes_value [of "length_type c" xs] d(1) by (simp add: lt_def len_def)
  moreover have "(if checksum_length c > 0 then be_bytes 4 (crc_ref body) else []) = take cs (drop (lt + nat len - cs) xs)"
  proof (cases "cs = 0")
    case False
    then have c4: "cs = 4" using cs(2) by simp
    have "length (take 4 (drop (lt + nat len - cs) xs)) = 4" using d(2,3) c4 by simp
    with be_bytes_of_be_bytes [of "take 4 (drop (lt + nat len - cs) xs)", where ?'a = 32] d(6) c4 cs(1) show ?thesis by simp
  qed (simp add: cs(1))
  ultimately have "lh_frame c body = take lt xs @ take (nat len - cs) (drop lt xs) @ take cs (drop (lt + (nat len - cs)) xs)"
    unfolding lh_frame_def n using d(2,5) by simp
  also have "\<dots> = take lt xs @ take (nat len) (drop lt xs)"
    using d(2) take_add [of "nat len - cs" cs "drop lt xs"] by (simp add: add.commute)
  also have "\<dots> = take k xs" by (simp add: d(4) take_add)
  finally show "take k xs = lh_frame c body" by simp
  then show "length (lh_frame c body) = k" using d(3,4) by (metis length_take min.absorb2)
qed

lemma lh_decoder_ok:
  assumes "bb_inv b" and "lh_wf c"
  shows "\<exists>rt b' pl' c'. lh_decoder little signed_char c b payload0 = Inr (rt, b', pl', c')
      \<and> bb_inv b' \<and> bb_inv pl' \<and> c' = c
      \<and> (case lh_decode_contents c (contents b) of
           Bad \<Rightarrow> rt = -1 \<and> b' = b \<and> pl' = payload0
         | Incomplete \<Rightarrow> rt = 0 \<and> b' = b \<and> pl' = payload0
         | Payload body k \<Rightarrow> rt = 1 \<and> contents pl' = body \<and> contents b' = drop k (contents b))
      \<and> writer_index b' \<le> writer_index b \<and> write_limit b' = write_limit b"
proof (cases "lh_decode_contents c (contents b)")
  case (Payload body k)
  have "writer_index payload0 + length body \<le> write_limit payload0"
    using lh_decode_contents_payload(3) [OF Payload] length_contents_le [OF assms(1)] by simp
  with bb.append_ok [OF payload0_inv(1), of body] bb.consume_ok [OF assms(1), of k] Payload
  show ?thesis by (auto simp: lh_decoder_def lh_decode_inv [OF assms])
qed (use assms in \<open>auto simp: lh_decoder_def lh_decode_inv [OF assms]\<close>)

section \<open>The codec as a stream codec\<close>

interpretation lhc: stream_codec "lh_decoder little signed_char" lh_wf lh_frame lh_valid lh_wf
proof unfold_locales
  fix b c assume "bb_inv b" "lh_wf c"
  from lh_decoder_ok [OF this, of little signed_char] show
    "\<exists>rt b' pl' c'. lh_decoder little signed_char c b payload0 = Inr (rt, b', pl', c') \<and> bb_inv b' \<and> bb_inv pl'
       \<and> lh_wf c' \<and> (if rt = 1 then length (contents b') < length (contents b) else contents b' = contents b)
       \<and> writer_index b' \<le> writer_index b \<and> write_limit b' = write_limit b"
    using \<open>lh_wf c\<close> lh_decode_contents_payload [of c "contents b"]
    by (cases "lh_decode_contents c (contents b)") fastforce+
next
  fix c b p rest assume "lh_wf c" "bb_inv b" "lh_valid c p" "contents b = lh_frame c p @ rest"
  with lh_decoder_ok [of b c little signed_char] show
    "\<exists>b' pl'. lh_decoder little signed_char c b payload0 = Inr (1, b', pl', c) \<and> bb_inv b' \<and> bb_inv pl'
       \<and> contents b' = rest \<and> contents pl' = p
       \<and> writer_index b' \<le> writer_index b \<and> write_limit b' = write_limit b"
    by (auto simp: lh_decode_contents_frame)
next
  fix c b p missing
  assume "lh_wf c" "bb_inv b" "lh_valid c p" "lh_frame c p = contents b @ missing" "missing \<noteq> []"
  with lh_decoder_ok [of b c little signed_char] show
    "lh_decoder little signed_char c b payload0 = Inr (0, b, payload0, c)"
    by (auto simp: lh_decode_contents_partial)
next
  fix c b assume "lh_wf c" "bb_inv b" "contents b = []"
  moreover from this have "lh_decode_contents c (contents b) = Incomplete"
    by (simp add: lh_decode_contents_def Let_def)
  ultimately show "lh_decoder little signed_char c b payload0 = Inr (0, b, payload0, c)"
    using lh_decoder_ok [of b c little signed_char] by auto
qed simp

section \<open>Encoding\<close>

lemma set_buff_length_ok:
  assumes "bb_inv b" and "writer_index b + length_type_size lt \<le> write_limit b"
  shows "\<exists>b'. set_buff_length little lt n b = Inr b' \<and> bb_inv b' \<and> contents b' = contents b @ length_bytes lt n
           \<and> writer_index b' \<le> writer_index b + length_type_size lt \<and> write_limit b' = write_limit b"
  using assms int8.app_ok [of b] int16.app_ok [of b] int32.app_ok [of b] int64.app_ok [of b]
  by (cases lt) simp_all

lemma lh_encode_ok:
  assumes "lh_wf c" and "bb_inv payload" and "bb_inv buff" and "contents payload \<noteq> []"
    and "max_payload c > 0 \<longrightarrow> int (length (contents payload)) \<le> max_payload c"
    and room: "writer_index buff + length (lh_frame c (contents payload)) \<le> write_limit buff"
  shows "\<exists>buff'. lh_encode little signed_char c payload buff = Inr (1, buff') \<and> bb_inv buff'
           \<and> contents buff' = contents buff @ lh_frame c (contents payload)"
proof -
  define p where "p = contents payload"
  define lt where "lt = length_type_size (length_type c)"
  define cs where "cs = nat (checksum_length c)"
  have cs: "checksum_length c = int cs" "cs = 0 \<or> cs = 4" using assms(1) by (auto simp: lh_wf_def cs_def)
  have room: "writer_index buff + (lt + length p + cs) \<le> write_limit buff"
    using room length_lh_frame [OF assms(1), of p] by (simp add: p_def lt_def cs_def)
  have "length p + cs \<le> vec_max"
    using room inv_limit [OF assms(3)] by simp
  then have s: "ssize (int (length p) + int cs) = Inr (int (length p) + int cs)"
    by (simp add: ssize_def vec_max_def)
  from room have "writer_index buff + length_type_size (length_type c) \<le> write_limit buff"
    by (simp add: lt_def)
  from set_buff_length_ok [OF assms(3) this] obtain b1 where b1:
    "set_buff_length little (length_type c) (int (length p) + int cs) buff = Inr b1" "bb_inv b1"
    "contents b1 = contents buff @ length_bytes (length_type c) (int (length p) + int cs)"
    "writer_index b1 \<le> writer_index buff + lt" "write_limit b1 = write_limit buff"
    by (auto simp: lt_def)
  have "writer_index b1 + length p \<le> write_limit b1" using room b1 by simp
  from bb.append_ok [OF b1(2) this] obtain b2 where b2:
    "buf_append b1 p = Inr (True, b2)" "bb_inv b2" "contents b2 = contents b1 @ p"
    "writer_index b2 \<le> writer_index b1 + length p" "write_limit b2 = write_limit b1"
    by blast
  have r: "read_mem (reader_index payload) (length p) (buffer payload) = Inr p"
    "crc32_of signed_char (reader_index payload) (length p) (buffer payload) = Inr (crc_ref p)"
    using read_contents_at [OF assms(2), of 0 "length p"] crc32_of_contents [OF assms(2), of 0 "length p"]
    by (simp_all add: p_def)
  have "cs = 4 \<Longrightarrow> writer_index b2 + 4 \<le> write_limit b2" using room b1 b2 by simp
  from int32.app_ok [OF b2(2) this, of little "crc_ref p"] cs(2) s b1 b2 r assms(2,4,5)
  show ?thesis
    by (auto simp: lh_encode_def readable_bytes_inv begin_read_inv Let_def min_payload_def
        lh_frame_def cs(1) simp flip: p_def)
qed


lemma lh_encode_refuses:
  assumes "bb_inv payload"
  shows "contents payload = [] \<Longrightarrow> lh_encode little signed_char c payload buff = Inr (0, buff)"
    and "0 < max_payload c \<Longrightarrow> max_payload c < int (length (contents payload)) \<Longrightarrow>
      lh_encode little signed_char c payload buff = Inr (-1, buff)"
  using assms by (auto simp: lh_encode_def readable_bytes_inv Let_def)

text \<open>A frame whose checksum field does not belong to its payload is refused; this is so when at most four
  consecutive bytes of the payload have changed, and when the checksum itself has.\<close>

lemma lh_sum_bad:
  assumes "lh_wf c" and "checksum_length c = 4" and "lh_valid c q" and "length cksum = 4" and "of_be_bytes cksum \<noteq> crc_ref q"
  shows "lh_decode_contents c (length_bytes (length_type c) (int (length q) + 4) @ q @ cksum @ rest) = Bad"
proof -
  define lt where "lt = length_type_size (length_type c)"
  define zs where "zs = length_bytes (length_type c) (int (length q) + 4) @ q @ cksum @ rest"
  have len: "lt + (length q + 4) \<le> length zs" using assms(4) by (simp add: zs_def lt_def)
  have v: "length_value (length_type c) zs = int (length q + 4)"
    using length_value_bytes [of "int (length q) + 4" "length_type c"] assms(2,3) by (simp add: lh_valid_def zs_def)
  have "take (length q) (drop lt zs) = q" "take 4 (drop (lt + length q) zs) = cksum"
    using assms(4) by (simp_all add: zs_def lt_def)
  then have "lh_decode_contents c zs = Bad"
    using len v assms(2,3,5) by (auto simp: lh_decode_contents_def Let_def lh_valid_def nat_add_distrib simp flip: lt_def)
  then show ?thesis by (simp add: zs_def)
qed

lemma lh_valid_length: "length q = length p \<Longrightarrow> lh_valid c p \<Longrightarrow> lh_valid c q"
  by (auto simp: lh_valid_def)

lemma lh_too_long_bad:
  assumes "lh_wf c" and "checksum_length c = 4" and "0 < max_payload c"
    and "max_payload c < int (length p) + 4" and "int (length p) + 4 < 2 ^ (8 * length_type_size (length_type c) - 1)"
  shows "lh_decode_contents c (lh_frame c p @ rest) = Bad"
proof -
  have "length_value (length_type c) (lh_frame c p @ rest) = int (length p) + 4"
    using assms(2,5) length_value_bytes [of "int (length p) + 4" "length_type c"] by (simp add: lh_frame_def)
  with assms length_lh_frame [OF assms(1), of p] show ?thesis
    by (simp add: lh_decode_contents_def Let_def)
qed

section \<open>Properties\<close>

lemma lh_send_frame:
  assumes "lh_wf c" and "bb_inv pl" and "lh_valid c (contents pl)" and "length (contents pl) + 12 \<le> vec_max"
  shows "send (lh_encode little signed_char) c pl = Inr [Ev_send (lh_frame c (contents pl))]"
proof -
  have "length_type_size (length_type c) \<le> 8" by (cases "length_type c") simp_all
  moreover have "nat (checksum_length c) \<le> 4" using assms(1) by (auto simp: lh_wf_def)
  ultimately have "writer_index payload0 + length (lh_frame c (contents pl)) \<le> write_limit payload0"
    using assms(4) length_lh_frame [OF assms(1), of "contents pl"] by simp
  moreover have "max_payload c > 0 \<longrightarrow> int (length (contents pl)) \<le> max_payload c"
    using assms(1,3) by (auto simp: lh_valid_def lh_wf_def)
  moreover have "contents pl \<noteq> []" using assms(3) by (simp add: lh_valid_def)
  ultimately obtain buff where "lh_encode little signed_char c pl payload0 = Inr (1, buff)" "bb_inv buff"
    "contents buff = lh_frame c (contents pl)"
    using lh_encode_ok [OF assms(1,2) payload0_inv(1)] by auto
  then show ?thesis by (simp add: send_def new_payload to_string_inv)
qed



text \<open>What \<^verbatim>\<open>encode\<close> does on every branch: nothing for an empty payload (0), an error for one above
  the maximal payload (-1), otherwise the frame of the payload is appended to the output (1), and
  the payload buffer is only read.\<close>

theorem length_header_encode:
  assumes "lh_wf c" and "bb_inv payload" and "bb_inv buff"
    and "writer_index buff + length (lh_frame c (contents payload)) \<le> write_limit buff"
  shows "if contents payload = [] then lh_encode little signed_char c payload buff = Inr (0, buff)
         else if 0 < max_payload c \<and> max_payload c < int (length (contents payload))
         then lh_encode little signed_char c payload buff = Inr (-1, buff)
         else \<exists>buff'. lh_encode little signed_char c payload buff = Inr (1, buff') \<and> bb_inv buff'
                \<and> contents buff' = contents buff @ lh_frame c (contents payload)"
  using lh_encode_refuses [OF assms(2)]
    lh_encode_ok [OF assms(1-3) _ _ assms(4), of little signed_char]
  by auto

theorem length_header_encode_witness:
  "\<exists>buff'. lh_encode True True (new_length_header_codec kLengthType16 False 100)
       \<lparr>max_size = kUnLimitSize, reader_index = 0, writer_index = 2, buffer = [8, 9]\<rparr> payload0 = Inr (1, buff')
     \<and> bb_inv buff' \<and> contents buff' = [0, 2, 8, 9]"
proof -
  let ?c = "new_length_header_codec kLengthType16 False 100"
  let ?p = "\<lparr>max_size = kUnLimitSize, reader_index = 0, writer_index = 2, buffer = [8, 9]\<rparr>"
  have "lh_frame ?c [8, 9] = [0, 2, 8, 9]" by code_simp
  moreover have "contents ?p = [8, 9]" by (simp add: contents_def bytes_at_def)
  moreover have "lh_wf ?c" by (simp add: lh_wf_def new_length_header_codec_def)
  moreover have "bb_inv ?p" by (simp add: bb_inv_def vec_max_def)
  moreover have "max_payload ?c = 100" by (simp add: new_length_header_codec_def)
  ultimately show ?thesis
    using length_header_encode [of ?c ?p payload0 True True] by (simp add: vec_max_def)
qed

definition delivery :: "bool \<Rightarrow> byte list \<Rightarrow> codec_event" where
  "delivery has_cb p = (if has_cb then Ev_message p else Ev_no_callback)"

lemma lh_recv_round:
  assumes "bb_inv b" and cs: "checksum_length c \<in> {0, 4}"
  shows "case lh_decode_contents c (contents b) of
      Payload body k \<Rightarrow> lh_overflows c (contents b) \<or>
        (\<exists>b'. recv_round (lh_decoder little signed_char) has_cb c b = Inr (True, [delivery has_cb body], c, b')
           \<and> bb_inv b' \<and> contents b' = drop k (contents b))
    | v \<Rightarrow> lh_overflows c (contents b) \<or>
        recv_round (lh_decoder little signed_char) has_cb c b = Inr (False, if v = Bad then [Ev_shutdown] else [], c, b)"
    and "lh_overflows c (contents b) \<Longrightarrow> recv_round (lh_decoder little signed_char) has_cb c b = Inl Signed_overflow"
proof -
  note eq = lh_decode_eq [OF assms, of little signed_char payload0]
  show "lh_overflows c (contents b) \<Longrightarrow> recv_round (lh_decoder little signed_char) has_cb c b = Inl Signed_overflow"
    using eq by (simp add: recv_round_def new_payload lh_decoder_def)
  show "case lh_decode_contents c (contents b) of
      Payload body k \<Rightarrow> lh_overflows c (contents b) \<or>
        (\<exists>b'. recv_round (lh_decoder little signed_char) has_cb c b = Inr (True, [delivery has_cb body], c, b')
           \<and> bb_inv b' \<and> contents b' = drop k (contents b))
    | v \<Rightarrow> lh_overflows c (contents b) \<or>
        recv_round (lh_decoder little signed_char) has_cb c b = Inr (False, if v = Bad then [Ev_shutdown] else [], c, b)"
  proof (cases "lh_overflows c (contents b)")
    case False
    show ?thesis
    proof (cases "lh_decode_contents c (contents b)")
      case (Payload body k)
      have "writer_index payload0 + length body \<le> write_limit payload0"
        using lh_decode_contents_payload(3) [OF Payload] length_contents_le [OF assms(1)] by simp
      with bb.append_ok [OF payload0_inv(1), of body] bb.consume_ok [OF assms(1), of k] Payload False eq show ?thesis
        by (auto simp: recv_round_def new_payload lh_decoder_def message_event_def to_string_inv delivery_def)
    qed (use False eq in \<open>auto simp: recv_round_def new_payload lh_decoder_def\<close>)
  qed (simp split: verdict.splits)
qed

lemma lh_recv_loop:
  assumes cs: "checksum_length c \<in> {0, 4}"
  shows "bb_inv b \<Longrightarrow> \<exists>ps b'. bb_inv b' \<and> contents b = concat (map (lh_frame c) ps) @ contents b'
    \<and> (lh_overflows c (contents b') \<and> recv_loop (lh_decoder little signed_char) has_cb c b = Some (Inl Signed_overflow)
       \<or> lh_decode_contents c (contents b') = Incomplete
           \<and> recv_loop (lh_decoder little signed_char) has_cb c b = Some (Inr (map (delivery has_cb) ps, c, b'))
       \<or> lh_decode_contents c (contents b') = Bad
           \<and> recv_loop (lh_decoder little signed_char) has_cb c b = Some (Inr (map (delivery has_cb) ps @ [Ev_shutdown], c, b')))"
proof (induction "length (contents b)" arbitrary: b rule: less_induct)
  case less
  let ?dec = "lh_decoder little signed_char"
  note round = lh_recv_round [OF less.prems cs, of little signed_char has_cb]
  show ?case
  proof (cases "\<exists>body k. lh_decode_contents c (contents b) = Payload body k \<and> \<not> lh_overflows c (contents b)")
    case True
    then obtain body k b1 where p: "lh_decode_contents c (contents b) = Payload body k"
      and b1: "recv_round ?dec has_cb c b = Inr (True, [delivery has_cb body], c, b1)" "bb_inv b1" "contents b1 = drop k (contents b)"
      using round(1) by auto
    have "length (contents b1) < length (contents b)" using b1(3) lh_decode_contents_payload(1,2) [OF p] by simp
    from less.hyps [OF this b1(2)] obtain ps b' where IH: "bb_inv b'" "contents b1 = concat (map (lh_frame c) ps) @ contents b'"
      "lh_overflows c (contents b') \<and> recv_loop ?dec has_cb c b1 = Some (Inl Signed_overflow)
       \<or> lh_decode_contents c (contents b') = Incomplete \<and> recv_loop ?dec has_cb c b1 = Some (Inr (map (delivery has_cb) ps, c, b'))
       \<or> lh_decode_contents c (contents b') = Bad \<and> recv_loop ?dec has_cb c b1 = Some (Inr (map (delivery has_cb) ps @ [Ev_shutdown], c, b'))"
      by blast
    have "contents b = lh_frame c body @ contents b1"
      using lh_decode_contents_is_frame(1) [OF cs p] b1(3) by (metis append_take_drop_id)
    moreover have "recv_loop ?dec has_cb c b = Option.bind (recv_loop ?dec has_cb c b1) (\<lambda>r.
        Some (bindR r (\<lambda>(evs', c'', buff''). Inr ([delivery has_cb body] @ evs', c'', buff''))))"
      using b1(1) by (subst recv_loop.simps) simp
    ultimately show ?thesis using IH by (intro exI [of _ "body # ps"] exI [of _ b']) auto
  next
    case False
    show ?thesis
    proof (cases "lh_overflows c (contents b)")
      case True
      then have "recv_loop ?dec has_cb c b = Some (Inl Signed_overflow)" using round(2) by (subst recv_loop.simps) simp
      with True less.prems show ?thesis by (intro exI [of _ "[]"] exI [of _ b]) simp
    next
      case no: False
      with False have v: "lh_decode_contents c (contents b) = Bad \<or> lh_decode_contents c (contents b) = Incomplete"
        by (cases "lh_decode_contents c (contents b)") auto
      with round(1) no have "recv_loop ?dec has_cb c b
          = Some (Inr (if lh_decode_contents c (contents b) = Bad then [Ev_shutdown] else [], c, b))"
        by (subst recv_loop.simps) auto
      with v less.prems show ?thesis by (intro exI [of _ "[]"] exI [of _ b]) auto
    qed
  qed
qed

text \<open>C28: The receive loop of the codec returns on every input and for every setting the constructor accepts. The
  bytes in the buffer are frames followed by a rest that does not begin with a frame; the loop delivers the
  payloads of these frames in order and leaves the rest, and it shuts the connection down exactly when the
  rest is malformed. Its only fault is the overflow of \<^verbatim>\<open>length + length_type()\<close>, with a length field of 64 bits and no limit
  below the largest length.\<close>

theorem length_header_recv_returns:
  assumes "c = new_length_header_codec lt enable_checksum mp" and "bb_inv b"
  shows "\<exists>ps rest r. contents b = concat (map (lh_frame c) ps) @ rest \<and> recv (lh_decoder little signed_char) True has_cb c b = Some r
    \<and> (case r of
         Inl f \<Rightarrow> f = Signed_overflow \<and> lt = kLengthType64 \<and> \<not> (0 < mp \<and> mp < 2 ^ 63 - 8)
       | Inr (evs, c', b') \<Rightarrow> c' = c \<and> bb_inv b' \<and> contents b' = rest
           \<and> (lh_decode_contents c rest = Incomplete \<and> evs = map (delivery has_cb) ps
              \<or> lh_decode_contents c rest = Bad \<and> evs = map (delivery has_cb) ps @ [Ev_shutdown]))"
proof -
  have c: "checksum_length c \<in> {0, 4}" "length_type c = lt" "max_payload c = mp"
    by (simp_all add: assms(1) new_length_header_codec_def)
  from lh_recv_loop [OF c(1) assms(2), of little signed_char has_cb] lh_overflows_unbounded [of c] show ?thesis
    unfolding recv_def c(2,3) by fastforce
qed

theorem length_header_recv_returns_witness:
  "let c = new_length_header_codec kLengthType8 False 0;
       b = \<lparr>max_size = kUnLimitSize, reader_index = 0, writer_index = 4, buffer = [2, 8, 9, 255]\<rparr>
   in \<exists>ps rest evs b'. [2, 8, 9, 255] = concat (map (lh_frame c) ps) @ rest \<and> ps \<noteq> []
        \<and> recv (lh_decoder True True) True True c b = Some (Inr (evs, c, b')) \<and> contents b' = rest
        \<and> (lh_decode_contents c rest = Incomplete \<and> evs = map (delivery True) ps
           \<or> lh_decode_contents c rest = Bad \<and> evs = map (delivery True) ps @ [Ev_shutdown])"
proof -
  let ?c = "new_length_header_codec kLengthType8 False 0"
  let ?b = "\<lparr>max_size = kUnLimitSize, reader_index = 0, writer_index = 4, buffer = [2, 8, 9, 255]\<rparr>"
  have inv: "bb_inv ?b" and cont: "contents ?b = [2, 8, 9, 255]" by (simp_all add: bb_inv_def vec_max_def contents_def bytes_at_def)
  from length_header_recv_returns [OF refl inv, of kLengthType8 False 0 True True True, unfolded cont]
  obtain ps rest r where p: "[2, 8, 9, 255] = concat (map (lh_frame ?c) ps) @ rest" "recv (lh_decoder True True) True True ?c ?b = Some r"
      "case r of Inl f \<Rightarrow> f = Signed_overflow \<and> kLengthType8 = kLengthType64 \<and> \<not> (0 < (0 :: int) \<and> (0 :: int) < 2 ^ 63 - 8)
       | Inr (evs, c', b') \<Rightarrow> c' = ?c \<and> bb_inv b' \<and> contents b' = rest
           \<and> (lh_decode_contents ?c rest = Incomplete \<and> evs = map (delivery True) ps
              \<or> lh_decode_contents ?c rest = Bad \<and> evs = map (delivery True) ps @ [Ev_shutdown])"
    by blast
  from p(3) obtain evs b' where "r = Inr (evs, ?c, b')" "contents b' = rest"
      "lh_decode_contents ?c rest = Incomplete \<and> evs = map (delivery True) ps
       \<or> lh_decode_contents ?c rest = Bad \<and> evs = map (delivery True) ps @ [Ev_shutdown]"
    by (cases r) auto
  note r = p(1) p(2) [unfolded this(1)] this(2,3)
  have "lh_decode_contents ?c [2, 8, 9, 255] = Payload [8, 9] 3"
    by (simp add: lh_decode_contents_def new_length_header_codec_def)
  with r(1,4) have "ps \<noteq> []" by auto
  with r show ?thesis unfolding Let_def by blast
qed

text \<open>The overflow: a length field of 64 bits with the largest value, and no limit.\<close>

lemma length_header_overflow:
  "lh_decode True True (new_length_header_codec kLengthType64 False 0)
     \<lparr>max_size = kUnLimitSize, reader_index = 0, writer_index = 8, buffer = [127, 255, 255, 255, 255, 255, 255, 255]\<rparr> payload0
   = Inl Signed_overflow"
proof -
  let ?c = "new_length_header_codec kLengthType64 False 0"
  let ?b = "\<lparr>max_size = kUnLimitSize, reader_index = 0, writer_index = 8, buffer = [127, 255, 255, 255, 255, 255, 255, 255]\<rparr>"
  have "bb_inv ?b" "contents ?b = [127, 255, 255, 255, 255, 255, 255, 255]"
    by (simp_all add: bb_inv_def vec_max_def contents_def bytes_at_def)
  moreover have "sint (of_be_bytes [127, 255, 255, 255, 255, 255, 255, 255] :: 64 word) = 2 ^ 63 - 1" by code_simp
  then have "lh_overflows ?c [127, 255, 255, 255, 255, 255, 255, 255]"
    by (simp add: lh_overflows_def new_length_header_codec_def)
  ultimately show ?thesis using lh_decode_eq [of ?b ?c] by (simp add: new_length_header_codec_def)
qed



text \<open>The two ends disagree about the maximal payload. \<^verbatim>\<open>encode\<close> compares it with the length of the
  payload, \<^verbatim>\<open>decode\<close> with that length plus the checksum: a payload within four bytes of the limit
  is framed by the sender and refused by a receiver with the same settings.\<close>

theorem length_header_limit_mismatch:
  assumes "lh_wf c" and "checksum_length c = 4" and "0 < max_payload c"
    and "int (length (contents payload)) \<le> max_payload c"
    and "max_payload c < int (length (contents payload)) + 4"
    and "int (length (contents payload)) + 4 < 2 ^ (8 * length_type_size (length_type c) - 1)"
    and "bb_inv payload" and "contents payload \<noteq> []" and "bb_inv buff" and "contents buff = []"
    and "writer_index buff + length (lh_frame c (contents payload)) \<le> write_limit buff"
  shows "\<exists>buff'. lh_encode little signed_char c payload buff = Inr (1, buff')
           \<and> lh_decode little signed_char c buff' payload0 = Inr (-1, buff', payload0)"
proof -
  obtain buff' where "lh_encode little signed_char c payload buff = Inr (1, buff')" "bb_inv buff'"
    "contents buff' = lh_frame c (contents payload)"
    using lh_encode_ok [OF assms(1,7,9,8) _ assms(11)] assms(4,10) by auto
  moreover from this lh_too_long_bad [OF assms(1-3,5,6), of "[]"]
  have "lh_decode little signed_char c buff' payload0 = Inr (-1, buff', payload0)"
    by (simp add: lh_decode_inv [OF _ assms(1)])
  ultimately show ?thesis by blast
qed

theorem length_header_limit_mismatch_witness:
  "\<exists>buff'. lh_encode True True (new_length_header_codec kLengthType8 True 6)
       \<lparr>max_size = kUnLimitSize, reader_index = 0, writer_index = 3, buffer = [1, 2, 3]\<rparr> payload0 = Inr (1, buff')
     \<and> lh_decode True True (new_length_header_codec kLengthType8 True 6) buff' payload0 = Inr (-1, buff', payload0)"
proof -
  let ?c = "new_length_header_codec kLengthType8 True 6"
  let ?p = "\<lparr>max_size = kUnLimitSize, reader_index = 0, writer_index = 3, buffer = [1, 2, 3]\<rparr>"
  have "lh_wf ?c" "bb_inv ?p"
    by (simp_all add: lh_wf_def new_length_header_codec_def bb_inv_def vec_max_def)
  moreover have "contents ?p = [1, 2, 3]" by (simp add: contents_def bytes_at_def)
  moreover have "length (lh_frame ?c [1, 2, 3]) = 8"
    by (simp add: lh_frame_def new_length_header_codec_def)
  ultimately show ?thesis
    by (intro length_header_limit_mismatch) (simp_all add: new_length_header_codec_def vec_max_def)
qed

end
