(* ===== verification/String_Piece.thy ===== *)
theory String_Piece
  imports Annety_Prelude "HOL-Library.Sublist" "HOL-Library.List_Lexorder"
begin

text \<open>
  \<^verbatim>\<open>StringPiece\<close> (include/strings/StringPiece.h, src/StringPiece.cc): a view of a character sequence,
  here the sequence itself. Functions that only compare characters are polymorphic, so that they
  apply to strings and to bytes; those with a lookup table or an order are on \<^typ>\<open>char\<close>, whose
  code as an \<^verbatim>\<open>unsigned char\<close> is \<open>uchar\<close>. \<open>npos\<close> is the largest \<^verbatim>\<open>size_t\<close>. The standard algorithms
  \<^verbatim>\<open>std::search\<close> and \<^verbatim>\<open>std::find_end\<close> and \<^verbatim>\<open>memcmp\<close>, of which only the sign matters, are defined first.
\<close>

section \<open>Standard algorithms\<close>

definition npos :: nat where
  "npos = 2 ^ 64 - 1"

definition uchar :: "char \<Rightarrow> nat" where
  "uchar c = of_char c"

fun std_search :: "'a list \<Rightarrow> 'a list \<Rightarrow> nat" where
  "std_search [] s = 0"
| "std_search (x # xs) s = (if take (length s) (x # xs) = s then 0 else Suc (std_search xs s))"

text \<open>The last occurrence of a nonempty sequence, or the length of the list.\<close>

fun std_find_end :: "'a list \<Rightarrow> 'a list \<Rightarrow> nat" where
  "std_find_end [] s = 0"
| "std_find_end (x # xs) s =
     (if std_find_end xs s < length xs then Suc (std_find_end xs s)
      else if take (length s) (x # xs) = s then 0 else Suc (length xs))"

fun memcmp :: "string \<Rightarrow> string \<Rightarrow> nat \<Rightarrow> int" where
  "memcmp (x # xs) (y # ys) (Suc n) =
     (if x = y then memcmp xs ys n else int (uchar x) - int (uchar y))"
| "memcmp _ _ _ = 0"

section \<open>Loops over indices\<close>

function scan_up :: "('a \<Rightarrow> bool) \<Rightarrow> 'a list \<Rightarrow> nat \<Rightarrow> nat" where
  "scan_up P xs i =
     (if i < length xs then (if P (xs ! i) then i else scan_up P xs (i + 1)) else npos)"
  by pat_completeness auto
termination
  by (relation "measure (\<lambda>(P, xs, i). length xs - i)") auto

declare scan_up.simps [simp del]

fun scan_down :: "('a \<Rightarrow> bool) \<Rightarrow> 'a list \<Rightarrow> nat \<Rightarrow> nat" where
  "scan_down P xs 0 = (if P (xs ! 0) then 0 else npos)"
| "scan_down P xs (Suc i) = (if P (xs ! Suc i) then Suc i else scan_down P xs i)"

section \<open>Searching\<close>

definition piece_find :: "'a list \<Rightarrow> 'a list \<Rightarrow> nat \<Rightarrow> nat" where
  "piece_find self s pos =
     (if pos > length self then npos
      else let xpos = pos + std_search (drop pos self) s
           in if xpos + length s \<le> length self then xpos else npos)"

definition find_char :: "'a list \<Rightarrow> 'a \<Rightarrow> nat \<Rightarrow> nat" where
  "find_char self c pos = (if pos \<ge> length self then npos else scan_up (\<lambda>x. x = c) self pos)"

definition rfind :: "'a list \<Rightarrow> 'a list \<Rightarrow> nat \<Rightarrow> nat" where
  "rfind self s pos =
     (if length self < length s then npos
      else if s = [] then min (length self) pos
      else let last = min (length self - length s) pos + length s;
               result = std_find_end (take last self) s
           in if result \<noteq> last then result else npos)"

definition rfind_char :: "'a list \<Rightarrow> 'a \<Rightarrow> nat \<Rightarrow> nat" where
  "rfind_char self c pos =
     (if length self = 0 then npos else scan_down (\<lambda>x. x = c) self (min pos (length self - 1)))"

text \<open>\<open>build_lookup_table\<close> sets one entry of a table of 256 flags per character.\<close>

definition build_lookup_table :: "string \<Rightarrow> bool list" where
  "build_lookup_table wanted = fold (\<lambda>c t. t[uchar c := True]) wanted (replicate 256 False)"

definition find_first_of :: "string \<Rightarrow> string \<Rightarrow> nat \<Rightarrow> nat" where
  "find_first_of self s pos =
     (if length self = 0 \<or> length s = 0 then npos
      else if length s = 1 then find_char self (s ! 0) pos
      else let lookup = build_lookup_table s in scan_up (\<lambda>x. lookup ! uchar x) self pos)"

definition find_first_not_of_char :: "'a list \<Rightarrow> 'a \<Rightarrow> nat \<Rightarrow> nat" where
  "find_first_not_of_char self c pos =
     (if length self = 0 then npos else scan_up (\<lambda>x. x \<noteq> c) self pos)"

definition find_first_not_of :: "string \<Rightarrow> string \<Rightarrow> nat \<Rightarrow> nat" where
  "find_first_not_of self s pos =
     (if length self = 0 then npos
      else if length s = 0 then 0
      else if length s = 1 then find_first_not_of_char self (s ! 0) pos
      else let lookup = build_lookup_table s in scan_up (\<lambda>x. \<not> lookup ! uchar x) self pos)"

definition find_last_of :: "string \<Rightarrow> string \<Rightarrow> nat \<Rightarrow> nat" where
  "find_last_of self s pos =
     (if length self = 0 \<or> length s = 0 then npos
      else if length s = 1 then rfind_char self (s ! 0) pos
      else let lookup = build_lookup_table s
           in scan_down (\<lambda>x. lookup ! uchar x) self (min pos (length self - 1)))"

definition find_last_not_of_char :: "'a list \<Rightarrow> 'a \<Rightarrow> nat \<Rightarrow> nat" where
  "find_last_not_of_char self c pos =
     (if length self = 0 then npos else scan_down (\<lambda>x. x \<noteq> c) self (min pos (length self - 1)))"

definition find_last_not_of :: "string \<Rightarrow> string \<Rightarrow> nat \<Rightarrow> nat" where
  "find_last_not_of self s pos =
     (if length self = 0 then npos
      else let i = min pos (length self - 1)
           in if length s = 0 then i
              else if length s = 1 then find_last_not_of_char self (s ! 0) pos
              else let lookup = build_lookup_table s in scan_down (\<lambda>x. \<not> lookup ! uchar x) self i)"

section \<open>Parts and comparison\<close>

definition substr :: "'a list \<Rightarrow> nat \<Rightarrow> nat \<Rightarrow> 'a list" where
  "substr self pos n =
     (let pos' = (if pos > length self then length self else pos);
          n' = (if n > length self - pos' then length self - pos' else n)
      in take n' (drop pos' self))"

text \<open>\<^verbatim>\<open>copy\<close> reads \<open>min (size - pos) n\<close> characters from offset \<open>pos\<close>; the subtraction wraps.\<close>

definition piece_copy :: "'a list \<Rightarrow> nat \<Rightarrow> nat \<Rightarrow> 'a list res" where
  "piece_copy self n pos = read_mem pos (min (size_sub (length self) pos) n) self"

definition copy_to_string :: "'a list \<Rightarrow> 'a list \<Rightarrow> 'a list" where
  "copy_to_string self target = (if self = [] then [] else self)"

definition append_to_string :: "'a list \<Rightarrow> 'a list \<Rightarrow> 'a list" where
  "append_to_string self target = (if self \<noteq> [] then target @ self else target)"

definition piece_at :: "'a list \<Rightarrow> nat \<Rightarrow> 'a res" where
  "piece_at self i = check (i < length self) (Inr (self ! i))"

definition piece_front :: "'a list \<Rightarrow> 'a res" where
  "piece_front self = check (0 \<noteq> length self) (Inr (self ! 0))"

definition piece_back :: "'a list \<Rightarrow> 'a res" where
  "piece_back self = check (0 \<noteq> length self) (Inr (self ! (length self - 1)))"

definition remove_prefix :: "'a list \<Rightarrow> nat \<Rightarrow> 'a list res" where
  "remove_prefix self n = check (n \<le> length self) (Inr (drop n self))"

definition remove_suffix :: "'a list \<Rightarrow> nat \<Rightarrow> 'a list res" where
  "remove_suffix self n = check (n \<le> length self) (Inr (take (length self - n) self))"

definition piece_starts_with :: "string \<Rightarrow> string \<Rightarrow> bool" where
  "piece_starts_with self x \<longleftrightarrow> length self \<ge> length x \<and> memcmp self x (length x) = 0"

definition piece_ends_with :: "string \<Rightarrow> string \<Rightarrow> bool" where
  "piece_ends_with self x \<longleftrightarrow>
     length self \<ge> length x \<and> memcmp (drop (length self - length x) self) x (length x) = 0"

definition compare :: "string \<Rightarrow> string \<Rightarrow> int" where
  "compare self x =
     (let r = memcmp self x (if length self < length x then length self else length x)
      in if r = 0 then (if length self < length x then -1 else if length self > length x then 1 else r)
         else r)"

definition piece_eq :: "string \<Rightarrow> string \<Rightarrow> bool" where
  "piece_eq self x \<longleftrightarrow> length self = length x \<and> memcmp self x (length self) = 0"

definition piece_less :: "string \<Rightarrow> string \<Rightarrow> bool" where
  "piece_less self x \<longleftrightarrow>
     (let r = memcmp self x (if length self < length x then length self else length x)
      in r < 0 \<or> (r = 0 \<and> length self < length x))"

definition piece_less_eq :: "string \<Rightarrow> string \<Rightarrow> bool" where
  "piece_less_eq self x \<longleftrightarrow>
     (let r = memcmp self x (if length self < length x then length self else length x)
      in r < 0 \<or> (r = 0 \<and> length self \<le> length x))"

text \<open>The hash is computed in \<^verbatim>\<open>size_t\<close> from plain characters, signed or not.\<close>

definition string_piece_hash :: "bool \<Rightarrow> string \<Rightarrow> 64 word" where
  "string_piece_hash signed_char sp =
     fold (\<lambda>c result. result * 131
             + (if signed_char then scast (of_char c :: 8 word) else ucast (of_char c :: 8 word))) sp 0"

section \<open>First and last positions\<close>

definition occurs_at :: "'a list \<Rightarrow> 'a list \<Rightarrow> nat \<Rightarrow> bool" where
  "occurs_at self s i \<longleftrightarrow> i + length s \<le> length self \<and> take (length s) (drop i self) = s"

definition elem_at :: "('a \<Rightarrow> bool) \<Rightarrow> 'a list \<Rightarrow> nat \<Rightarrow> bool" where
  "elem_at P self i \<longleftrightarrow> i < length self \<and> P (self ! i)"

text \<open>\<open>r\<close> is the first position from \<open>pos\<close> on, or the last one up to \<open>pos\<close>, where \<open>Q\<close> holds, and \<open>npos\<close> when
  there is none.\<close>

definition is_first :: "(nat \<Rightarrow> bool) \<Rightarrow> nat \<Rightarrow> nat \<Rightarrow> bool" where
  "is_first Q pos r \<longleftrightarrow>
     (if r = npos then \<forall>i. pos \<le> i \<longrightarrow> \<not> Q i else pos \<le> r \<and> Q r \<and> (\<forall>i. pos \<le> i \<and> i < r \<longrightarrow> \<not> Q i))"

definition is_last :: "(nat \<Rightarrow> bool) \<Rightarrow> nat \<Rightarrow> nat \<Rightarrow> bool" where
  "is_last Q pos r \<longleftrightarrow>
     (if r = npos then \<forall>i. i \<le> pos \<longrightarrow> \<not> Q i else r \<le> pos \<and> Q r \<and> (\<forall>i. r < i \<and> i \<le> pos \<longrightarrow> \<not> Q i))"

lemma npos_large: "n \<le> vec_max \<Longrightarrow> n < npos"
  by (simp add: npos_def vec_max_def)

lemma std_search_le: "std_search xs s \<le> length xs"
  by (induction xs) auto

lemma std_search_hit:
  "std_search xs s + length s \<le> length xs \<Longrightarrow> take (length s) (drop (std_search xs s) xs) = s"
  by (induction xs) auto

lemma std_search_first: "i < std_search xs s \<Longrightarrow> \<not> occurs_at xs s i"
proof (induction xs arbitrary: i)
  case (Cons x xs)
  then show ?case by (cases i) (auto simp: occurs_at_def split: if_splits)
qed simp

lemma std_search_none: "length xs < std_search xs s + length s \<Longrightarrow> \<not> occurs_at xs s i"
proof (induction xs arbitrary: i)
  case (Cons x xs)
  then show ?case by (cases i) (auto simp: occurs_at_def split: if_splits)
qed (simp add: occurs_at_def)

lemma occurs_at_drop: "occurs_at (drop k xs) s i \<longleftrightarrow> k \<le> length xs \<and> occurs_at xs s (k + i) \<or> length xs < k \<and> s = [] \<and> i = 0"
  by (cases "k \<le> length xs") (auto simp: occurs_at_def add.commute)

lemma piece_find_first:
  assumes "length self \<le> vec_max"
  shows "is_first (occurs_at self s) pos (piece_find self s pos)"
proof (cases "pos \<le> length self")
  case True
  let ?k = "std_search (drop pos self) s"
  have k: "?k \<le> length self - pos" using std_search_le [of "drop pos self" s] by simp
  have at: "occurs_at self s i \<longleftrightarrow> occurs_at (drop pos self) s (i - pos)" if "pos \<le> i" for i
    using that True by (simp add: occurs_at_drop)
  show ?thesis
  proof (cases "pos + ?k + length s \<le> length self")
    case hit: True
    then have "occurs_at self s (pos + ?k)"
      using std_search_hit [of "drop pos self" s] at [of "pos + ?k"] by (simp add: occurs_at_def)
    moreover have "\<not> occurs_at self s i" if "pos \<le> i" "i < pos + ?k" for i
      using std_search_first [of "i - pos" "drop pos self" s] at [of i] that by auto
    moreover have "pos + ?k \<noteq> npos" using k True assms npos_large [of "length self"] by linarith
    ultimately show ?thesis
      using True hit by (auto simp: piece_find_def is_first_def Let_def)
  next
    case False
    then have "\<not> occurs_at self s i" if "pos \<le> i" for i
      using std_search_none [of "drop pos self" s "i - pos"] at [OF that] True by simp
    with True False show ?thesis by (auto simp: piece_find_def is_first_def Let_def)
  qed
next
  case False
  then show ?thesis by (auto simp: piece_find_def is_first_def occurs_at_def)
qed

lemma is_first_step: "\<not> Q i \<Longrightarrow> is_first Q (Suc i) r \<Longrightarrow> is_first Q i r"
  unfolding is_first_def by (auto split: if_splits) (metis Suc_leI le_neq_implies_less)+

lemma scan_up_first: "length xs \<le> vec_max \<Longrightarrow> is_first (elem_at P xs) i (scan_up P xs i)"
proof (induction P xs i rule: scan_up.induct)
  case (1 P xs i)
  show ?case
  proof (cases "i < length xs \<and> \<not> P (xs ! i)")
    case True
    then have "\<not> elem_at P xs i" by (simp add: elem_at_def)
    with True 1 show ?thesis by (subst scan_up.simps) (auto intro: is_first_step)
  next
    case False
    with 1(2) npos_large [of "length xs"] show ?thesis
      by (subst scan_up.simps) (auto simp: is_first_def elem_at_def)
  qed
qed

lemma scan_down_last:
  "i < length xs \<Longrightarrow> length xs \<le> vec_max \<Longrightarrow> is_last (elem_at P xs) i (scan_down P xs i)"
proof (induction i)
  case (Suc i)
  then have "Suc i \<noteq> npos" using npos_large [of "length xs"] by auto
  with Suc show ?case by (auto simp: is_last_def elem_at_def le_Suc_eq split: if_splits)
qed (auto simp: is_last_def elem_at_def npos_def)

lemma std_find_end_spec:
  assumes "s \<noteq> []"
  shows "std_find_end xs s \<le> length xs"
    and "std_find_end xs s < length xs \<Longrightarrow> occurs_at xs s (std_find_end xs s)"
    and "std_find_end xs s < i \<Longrightarrow> \<not> occurs_at xs s i"
    and "std_find_end xs s = length xs \<Longrightarrow> \<not> occurs_at xs s i"
proof (induction xs arbitrary: i)
  case (Cons x xs)
  {
    case 1 show ?case using Cons by auto
  next
    case 2
    show ?case
    proof (cases "std_find_end xs s < length xs")
      case True
      with Cons.IH(2) show ?thesis by (simp add: occurs_at_def)
    next
      case False
      with 2 have "take (length s) (x # xs) = s" by (auto split: if_splits)
      moreover from this have "length s \<le> length (x # xs)" by (metis length_take min.cobounded1)
      ultimately show ?thesis using False by (simp add: occurs_at_def)
    qed
  next
    case 3
    then obtain j where j: "i = Suc j" by (cases i) auto
    then have "\<not> occurs_at xs s j"
      using 3 Cons.IH(3,4) [of j] Cons.IH(1) by (auto split: if_splits)
    with j show ?case by (auto simp: occurs_at_def)
  next
    case 4
    then have "\<not> std_find_end xs s < length xs" "take (length s) (x # xs) \<noteq> s" by (auto split: if_splits)
    moreover from this Cons.IH(1) have "std_find_end xs s = length xs" by simp
    ultimately show ?case using Cons.IH(4) by (cases i) (auto simp: occurs_at_def)
  }
qed (use assms in \<open>auto simp: occurs_at_def\<close>)

lemma rfind_last:
  assumes "length self \<le> vec_max"
  shows "is_last (occurs_at self s) pos (rfind self s pos)"
proof -
  have big: "n \<le> length self \<Longrightarrow> n \<noteq> npos" for n using assms npos_large [of "length self"] by auto
  consider (short) "length self < length s" | (empty) "s = []"
    | (search) "s \<noteq> []" "length s \<le> length self" by linarith
  then show ?thesis
  proof cases
    case short
    then show ?thesis by (simp add: rfind_def is_last_def occurs_at_def)
  next
    case empty
    then show ?thesis using big by (auto simp: rfind_def is_last_def occurs_at_def)
  next
    case search
    define k where "k = min (length self - length s) pos"
    have at: "occurs_at (take (k + length s) self) s i \<longleftrightarrow> i \<le> pos \<and> occurs_at self s i" for i
      using search(2) by (auto simp: occurs_at_def k_def drop_take min_def)
    let ?r = "std_find_end (take (k + length s) self) s"
    have len: "length (take (k + length s) self) = k + length s" using search(2) by (simp add: k_def)
    note spec = std_find_end_spec [OF search(1), of "take (k + length s) self", unfolded len at]
    have "rfind self s pos = (if ?r \<noteq> k + length s then ?r else npos)"
      using search by (simp add: rfind_def Let_def k_def)
    moreover have "?r \<noteq> npos" using big [of ?r] spec(1) search(2) by (simp add: k_def)
    ultimately show ?thesis
      using spec by (cases "?r = k + length s") (auto simp: is_last_def)
  qed
qed

lemma uchar_less: "uchar c < 256"
  by (simp add: uchar_def)

lemma uchar_inj [simp]: "uchar c = uchar d \<longleftrightarrow> c = d"
  by (simp add: uchar_def)

lemma lookup_fold:
  "length t = 256 \<Longrightarrow>
     fold (\<lambda>c t. t[uchar c := True]) s t ! uchar x \<longleftrightarrow> t ! uchar x \<or> x \<in> set s"
  by (induction s arbitrary: t) (auto simp: nth_list_update uchar_less)

lemma lookup_table [simp]: "build_lookup_table s ! uchar x \<longleftrightarrow> x \<in> set s"
  by (simp add: build_lookup_table_def lookup_fold uchar_less)

lemma singleton_set: "length s = Suc 0 \<Longrightarrow> (x \<in> set s) = (x = s ! 0)"
  by (cases s) auto

lemma no_position [simp]: "is_first (elem_at P []) pos npos" "is_last (elem_at P []) pos npos"
  "is_first (elem_at (\<lambda>x. False) xs) pos npos" "is_last (elem_at (\<lambda>x. False) xs) pos npos"
  by (simp_all add: is_first_def is_last_def elem_at_def)

lemma first_of_nil: "length xs \<le> vec_max \<Longrightarrow> length xs \<le> pos \<Longrightarrow> is_first (elem_at P xs) pos npos"
  by (auto simp: is_first_def elem_at_def)

lemma is_last_min:
  "xs \<noteq> [] \<Longrightarrow> is_last (elem_at P xs) (min pos (length xs - 1)) r \<Longrightarrow> is_last (elem_at P xs) pos r"
  by (auto simp: is_last_def elem_at_def min_def split: if_splits)

lemma find_char_first:
  "length self \<le> vec_max \<Longrightarrow> is_first (elem_at (\<lambda>x. x = c) self) pos (find_char self c pos)"
  by (auto simp: find_char_def first_of_nil intro: scan_up_first)

lemma scan_down_from:
  "length self \<le> vec_max \<Longrightarrow> self \<noteq> [] \<Longrightarrow>
     is_last (elem_at P self) pos (scan_down P self (min pos (length self - 1)))"
  by (rule is_last_min, assumption, rule scan_down_last) (auto simp: min_less_iff_disj)

lemma rfind_char_last:
  "length self \<le> vec_max \<Longrightarrow> is_last (elem_at (\<lambda>x. x = c) self) pos (rfind_char self c pos)"
  using scan_down_from [of self "\<lambda>x. x = c" pos]
  by (auto simp: rfind_char_def is_last_def elem_at_def)

lemma find_first_of_first:
  "length self \<le> vec_max \<Longrightarrow> is_first (elem_at (\<lambda>x. x \<in> set s) self) pos (find_first_of self s pos)"
  by (cases "self = [] \<or> s = []"; cases "length s = 1")
     (auto simp: find_first_of_def Let_def singleton_set find_char_first scan_up_first)

lemma find_first_not_of_first:
  "length self \<le> vec_max \<Longrightarrow> s \<noteq> [] \<or> self = [] \<Longrightarrow>
     is_first (elem_at (\<lambda>x. x \<notin> set s) self) pos (find_first_not_of self s pos)"
  by (cases "self = []"; cases "length s = 1")
     (auto simp: find_first_not_of_def find_first_not_of_char_def Let_def singleton_set scan_up_first)

lemma find_last_of_last:
  "length self \<le> vec_max \<Longrightarrow> is_last (elem_at (\<lambda>x. x \<in> set s) self) pos (find_last_of self s pos)"
  using scan_down_from [of self "\<lambda>x. x \<in> set s" pos] rfind_char_last [of self "s ! 0" pos]
  by (cases "self = [] \<or> s = []"; cases "length s = 1")
     (auto simp: find_last_of_def Let_def singleton_set)

lemma last_any: "length self \<le> vec_max \<Longrightarrow> self \<noteq> [] \<Longrightarrow>
   is_last (elem_at (\<lambda>x. True) self) pos (min pos (length self - 1))"
  using npos_large [of "length self"]
  by (cases self) (auto simp: is_last_def elem_at_def min_def not_le)

lemma find_last_not_of_last:
  "length self \<le> vec_max \<Longrightarrow> is_last (elem_at (\<lambda>x. x \<notin> set s) self) pos (find_last_not_of self s pos)"
  using scan_down_from [of self "\<lambda>x. x \<notin> set s" pos] last_any [of self pos]
  by (cases "self = []"; cases "s = []"; cases "length s = 1")
     (auto simp: find_last_not_of_def find_last_not_of_char_def Let_def singleton_set)

section \<open>Order\<close>

lemma memcmp_take: "memcmp xs ys n = memcmp (take n xs) (take n ys) n"
  by (induction xs ys n rule: memcmp.induct) auto

lemma memcmp_zero: "n \<le> length xs \<Longrightarrow> n \<le> length ys \<Longrightarrow> memcmp xs ys n = 0 \<longleftrightarrow> take n xs = take n ys"
  by (induction xs ys n rule: memcmp.induct) auto

lemma compare_Cons:
  "compare (x # xs) (y # ys) = (if x = y then compare xs ys else int (uchar x) - int (uchar y))"
proof -
  have "int (uchar x) - int (uchar y) \<noteq> 0" if "x \<noteq> y" using that by simp
  then show ?thesis by (auto simp: compare_def Let_def)
qed

lemma compare_Nil: "compare [] [] = 0" "compare (x # xs) [] = 1" "compare [] (y # ys) = -1"
  by (simp_all add: compare_def)

lemma compare_sign:
  "(compare x y < 0 \<longleftrightarrow> map uchar x < map uchar y) \<and> (compare x y = 0 \<longleftrightarrow> x = y)"
proof (induction x arbitrary: y)
  case Nil
  then show ?case by (cases y) (simp_all add: compare_Nil)
next
  case (Cons a x)
  then show ?case by (cases y) (auto simp: compare_Nil compare_Cons)
qed

lemma piece_less_compare: "piece_less x y \<longleftrightarrow> compare x y < 0"
  by (auto simp: piece_less_def compare_def Let_def)

lemma piece_less_eq_compare: "piece_less_eq x y \<longleftrightarrow> compare x y \<le> 0"
  by (auto simp: piece_less_eq_def compare_def Let_def)

lemma piece_eq_iff: "piece_eq x y \<longleftrightarrow> x = y"
  by (auto simp: piece_eq_def memcmp_zero)

section \<open>Properties\<close>



text \<open>\<^verbatim>\<open>compare\<close> and the comparison operators are the lexicographic order of the character codes as
  \<^verbatim>\<open>unsigned char\<close>, with equality exactly on equal pieces; \<^verbatim>\<open>starts_with\<close> and \<^verbatim>\<open>ends_with\<close> decide prefix
  and suffix.\<close>

theorem compare_is_lexicographic:
  "(compare x y < 0 \<longleftrightarrow> map uchar x < map uchar y) \<and> (compare x y = 0 \<longleftrightarrow> x = y)
   \<and> (0 < compare x y \<longleftrightarrow> map uchar y < map uchar x)
   \<and> (piece_less x y \<longleftrightarrow> map uchar x < map uchar y) \<and> (piece_less_eq x y \<longleftrightarrow> map uchar x \<le> map uchar y)
   \<and> (piece_eq x y \<longleftrightarrow> x = y)
   \<and> (piece_starts_with x y \<longleftrightarrow> prefix y x) \<and> (piece_ends_with x y \<longleftrightarrow> suffix y x)"
proof -
  have eq: "map uchar x = map uchar y \<longleftrightarrow> x = y" by (simp add: inj_map_eq_map inj_def)
  have pos: "0 < compare x y \<longleftrightarrow> map uchar y < map uchar x"
    using compare_sign [of x y] eq by (metis linorder_neqE_linordered_idom not_less_iff_gr_or_eq)
  have "piece_starts_with x y \<longleftrightarrow> prefix y x"
    by (auto simp: piece_starts_with_def memcmp_zero prefix_def) (metis append_take_drop_id)
  moreover have "piece_ends_with x y \<longleftrightarrow> suffix y x"
    by (auto simp: piece_ends_with_def memcmp_zero suffix_def) (metis append_take_drop_id)
  moreover have "piece_less_eq x y \<longleftrightarrow> map uchar x \<le> map uchar y"
    using compare_sign [of x y] eq by (auto simp: piece_less_eq_compare le_less)
  ultimately show ?thesis
    using compare_sign [of x y] pos by (simp add: piece_less_compare piece_eq_iff)
qed

end
