(* ===== verification/String_Eof_Codec.thy ===== *)
theory String_Eof_Codec
  imports Codec_Base String_Piece
begin

text \<open>
  \<^verbatim>\<open>StringEofCodec\<close> (include/codec/StringEofCodec.h): a frame is a payload followed by a delimiter.
  The codec remembers in \<^verbatim>\<open>curr_offset_\<close> how far it has searched; the offset is a \<^verbatim>\<open>size_t\<close> and its
  update wraps. The codec is an instance of \<open>frame_codec\<close>: frames that arrive whole are delivered.
  It is not one of \<open>stream_codec\<close>: the last property shows a segmentation after which a complete
  frame is not found.
\<close>

record string_eof_codec =
  string_eof :: "byte list"
  se_max_payload :: int
  curr_offset :: nat

definition new_string_eof_codec :: "byte list \<Rightarrow> int \<Rightarrow> string_eof_codec res" where
  "new_string_eof_codec eof mp =
     check (length eof > 0) (check (mp > 0)
       (Inr \<lparr>string_eof = eof, se_max_payload = mp, curr_offset = 0\<rparr>))"

definition se_find :: "string_eof_codec \<Rightarrow> byte list \<Rightarrow> nat" where
  "se_find c piece =
     (if length (string_eof c) = 1 then find_char piece (string_eof c ! 0) (curr_offset c)
      else piece_find piece (string_eof c) (curr_offset c))"

definition se_decode :: "string_eof_codec decoder" where
  "se_decode c buff payload =
     (let eof = length (string_eof c) in
      bindR (readable_bytes buff) (\<lambda>readable.
      if readable \<ge> eof then
        bindR (to_string buff) (\<lambda>piece.
          let n = se_find c piece;
              c1 = c\<lparr>curr_offset := size_add (curr_offset c) (size_sub (size_sub readable eof) 1)\<rparr>
          in if n = npos \<and> se_max_payload c > 0 \<and> readable > size_add (to_size (se_max_payload c)) eof
             then Inr (-1, buff, payload, c1)
             else if n \<noteq> npos then
               bindR (begin_read buff) (\<lambda>p.
               bindR (read_mem p n (buffer buff)) (\<lambda>body.
               bindR (buf_append payload body) (\<lambda>(ok, payload').
               bindR (has_read buff (n + eof)) (\<lambda>buff'.
               Inr (1, buff', payload', c1\<lparr>curr_offset := 0\<rparr>)))))
             else Inr (0, buff, payload, c1))
      else Inr (0, buff, payload, c)))"

definition se_encode :: "string_eof_codec encoder" where
  "se_encode c payload buff =
     bindR (readable_bytes payload) (\<lambda>n.
       let len = int n in
       if len = 0 then Inr (0, buff)
       else if se_max_payload c > 0 \<and> len > se_max_payload c then Inr (-1, buff)
       else
         bindR (begin_read payload) (\<lambda>p.
         bindR (read_mem p n (buffer payload)) (\<lambda>body.
         bindR (buf_append buff body) (\<lambda>(ok, buff1).
         bindR (buf_append buff1 (string_eof c)) (\<lambda>(ok', buff2).
         Inr (1, buff2))))))"

section \<open>Decoding on the readable bytes\<close>

definition se_wf :: "string_eof_codec \<Rightarrow> bool" where
  "se_wf c \<longleftrightarrow> string_eof c \<noteq> []"

definition se_ready :: "string_eof_codec \<Rightarrow> bool" where
  "se_ready c \<longleftrightarrow> se_wf c \<and> curr_offset c = 0"

definition se_frame :: "string_eof_codec \<Rightarrow> byte list \<Rightarrow> byte list" where
  "se_frame c p = p @ string_eof c"

text \<open>A payload that can be framed: the delimiter does not occur in the frame before its end.\<close>

definition se_valid :: "string_eof_codec \<Rightarrow> byte list \<Rightarrow> bool" where
  "se_valid c p \<longleftrightarrow> list_all (\<lambda>i. \<not> occurs_at (se_frame c p) (string_eof c) i) [0..<length p]"

lemma occurs_at_single: "occurs_at xs [x] = elem_at (\<lambda>y. y = x) xs"
proof
  fix i show "occurs_at xs [x] i = elem_at (\<lambda>y. y = x) xs i"
    by (cases "i < length xs") (auto simp: occurs_at_def elem_at_def simp flip: Cons_nth_drop_Suc)
qed

lemma se_find_first:
  assumes "se_wf c" and "length piece \<le> vec_max"
  shows "is_first (occurs_at piece (string_eof c)) (curr_offset c) (se_find c piece)"
proof (cases "length (string_eof c) = 1")
  case True
  then obtain x where "string_eof c = [x]" by (cases "string_eof c") auto
  with find_char_first [OF assms(2), of x "curr_offset c"] show ?thesis
    by (simp add: se_find_def occurs_at_single)
next
  case False
  then show ?thesis using piece_find_first [OF assms(2)] by (simp add: se_find_def)
qed

lemma se_find_bound:
  assumes "se_wf c" and "length piece \<le> vec_max" and "se_find c piece \<noteq> npos"
  shows "se_find c piece + length (string_eof c) \<le> length piece"
  using se_find_first [OF assms(1,2)] assms(3) by (simp add: is_first_def occurs_at_def)

definition se_next_offset :: "string_eof_codec \<Rightarrow> nat \<Rightarrow> nat" where
  "se_next_offset c readable =
     size_add (curr_offset c) (size_sub (size_sub readable (length (string_eof c))) 1)"

lemma se_decode_found:
  assumes "se_wf c" and "bb_inv b" and "length (string_eof c) \<le> length (contents b)"
    and "se_find c (contents b) \<noteq> npos"
  shows "\<exists>b' pl'. se_decode c b payload0 = Inr (1, b', pl', c\<lparr>curr_offset := 0\<rparr>) \<and> bb_inv b' \<and> bb_inv pl'
     \<and> contents pl' = take (se_find c (contents b)) (contents b)
     \<and> contents b' = drop (se_find c (contents b) + length (string_eof c)) (contents b)
     \<and> writer_index b' \<le> writer_index b \<and> write_limit b' = write_limit b"
proof -
  let ?n = "se_find c (contents b)"
  have n: "?n + length (string_eof c) \<le> length (contents b)"
    using se_find_bound [OF assms(1) length_contents_le [OF assms(2)] assms(4)] .
  let ?body = "take ?n (contents b)"
  have "writer_index payload0 + length ?body \<le> write_limit payload0"
    using length_contents_le [OF assms(2)] by simp
  from bb.append_ok [OF payload0_inv(1) this] obtain pl' where
    pl: "buf_append payload0 ?body = Inr (True, pl')" "bb_inv pl'" "contents pl' = ?body" by auto
  from bb.consume_ok [OF assms(2), of "?n + length (string_eof c)"] obtain b' where
    "has_read b (?n + length (string_eof c)) = Inr b'" "bb_inv b'"
    "contents b' = drop (?n + length (string_eof c)) (contents b)"
    "writer_index b' \<le> writer_index b" "write_limit b' = write_limit b" by blast
  with pl assms n read_contents [OF assms(2), of ?n] show ?thesis
    by (simp add: se_decode_def readable_bytes_inv to_string_inv begin_read_inv Let_def)
qed

lemma se_decode_not_found:
  assumes "bb_inv b" and "length (string_eof c) \<le> length (contents b)" and "se_find c (contents b) = npos"
  shows "\<exists>rt. rt \<in> {-1, 0} \<and>
     se_decode c b payload0 = Inr (rt, b, payload0, c\<lparr>curr_offset := se_next_offset c (length (contents b))\<rparr>)"
  using assms by (auto simp: se_decode_def readable_bytes_inv to_string_inv Let_def se_next_offset_def)

lemma se_decode_short:
  "bb_inv b \<Longrightarrow> length (contents b) < length (string_eof c) \<Longrightarrow>
     se_decode c b payload0 = Inr (0, b, payload0, c)"
  by (simp add: se_decode_def readable_bytes_inv Let_def)

lemma se_find_frame:
  assumes "se_ready c" and "se_valid c p" and "length (se_frame c p @ rest) \<le> vec_max"
  shows "se_find c (se_frame c p @ rest) = length p"
proof -
  let ?xs = "se_frame c p @ rest"
  have here: "occurs_at ?xs (string_eof c) (length p)"
    by (simp add: occurs_at_def se_frame_def)
  have before: "\<not> occurs_at ?xs (string_eof c) i" if "i < length p" for i
  proof -
    have "\<not> occurs_at (se_frame c p) (string_eof c) i"
      using assms(2) that by (simp add: se_valid_def list_all_iff)
    then show ?thesis using that by (auto simp: occurs_at_def se_frame_def)
  qed
  have "is_first (occurs_at ?xs (string_eof c)) 0 (se_find c ?xs)"
    using se_find_first [of c, OF _ assms(3)] assms(1) by (auto simp: se_ready_def)
  with here before show ?thesis
    by (auto simp: is_first_def split: if_splits) (meson linorder_neqE_nat)
qed

interpretation sec: frame_codec se_decode se_wf se_frame se_valid se_ready
proof unfold_locales
  fix b c assume inv: "bb_inv b" "se_wf c"
  consider (short) "length (contents b) < length (string_eof c)"
    | (none) "length (string_eof c) \<le> length (contents b)" "se_find c (contents b) = npos"
    | (found) "length (string_eof c) \<le> length (contents b)" "se_find c (contents b) \<noteq> npos"
    by linarith
  then show "\<exists>rt b' pl' c'. se_decode c b payload0 = Inr (rt, b', pl', c') \<and> bb_inv b' \<and> bb_inv pl'
       \<and> se_wf c' \<and> (if rt = 1 then length (contents b') < length (contents b) else contents b' = contents b)
       \<and> writer_index b' \<le> writer_index b \<and> write_limit b' = write_limit b"
  proof cases
    case short
    with inv show ?thesis by (simp add: se_decode_short)
  next
    case none
    from se_decode_not_found [OF inv(1) none] obtain rt where "rt \<noteq> 1"
      "se_decode c b payload0 = Inr (rt, b, payload0, c\<lparr>curr_offset := se_next_offset c (length (contents b))\<rparr>)"
      by auto
    with inv show ?thesis by (intro exI [of _ rt]) (simp add: se_wf_def)
  next
    case found
    have pos: "0 < length (string_eof c)" using inv(2) by (simp add: se_wf_def)
    obtain b' pl' where d: "se_decode c b payload0 = Inr (1, b', pl', c\<lparr>curr_offset := 0\<rparr>)"
      "bb_inv b'" "bb_inv pl'"
      "contents b' = drop (se_find c (contents b) + length (string_eof c)) (contents b)"
      "writer_index b' \<le> writer_index b" "write_limit b' = write_limit b"
      using se_decode_found [OF inv(2,1) found] by blast
    have "length (contents b') < length (contents b)"
      unfolding d(4) length_drop using pos found(1) by linarith
    with d inv(2) show ?thesis by (simp add: se_wf_def)
  qed
next
  fix c b p rest
  assume a: "se_ready c" "bb_inv b" "se_valid c p" "contents b = se_frame c p @ rest"
  have len: "length (contents b) \<le> vec_max" using a(2) by (rule length_contents_le)
  have f: "se_find c (contents b) = length p"
    using se_find_frame [OF a(1,3)] len by (simp add: a(4))
  have "length p \<noteq> npos" using npos_large [OF len] a(4) by (auto simp: se_frame_def)
  moreover have "c\<lparr>curr_offset := 0\<rparr> = c" using a(1) by (simp add: se_ready_def)
  ultimately show "\<exists>b' pl'. se_decode c b payload0 = Inr (1, b', pl', c) \<and> bb_inv b' \<and> bb_inv pl'
       \<and> contents b' = rest \<and> contents pl' = p
       \<and> writer_index b' \<le> writer_index b \<and> write_limit b' = write_limit b"
    using se_decode_found [of c b] a f by (auto simp: se_ready_def se_frame_def)
qed (auto simp: se_ready_def se_wf_def se_decode_short)

section \<open>Properties\<close>

text \<open>Frames that have arrived whole are delivered. With the search offset at 0 and a buffer that
  holds the frames of some payloads and nothing else, the receive loop hands over exactly these
  payloads in order, empties the buffer and is ready again.\<close>

theorem string_eof_recv_frames:
  assumes "se_ready c" and "list_all (se_valid c) ps" and "bb_inv b"
    and "contents b = concat (map (se_frame c) ps)"
  shows "\<exists>b'. recv se_decode True True c b = Some (Inr (map Ev_message ps, c, b')) \<and> bb_inv b' \<and> contents b' = []"
  using sec.recv_frames [OF assms(1,3,2,4)] .

theorem string_eof_recv_frames_witness:
  "\<exists>b'. recv se_decode True True \<lparr>string_eof = [13, 10], se_max_payload = 64, curr_offset = 0\<rparr>
       \<lparr>max_size = kUnLimitSize, reader_index = 0, writer_index = 7, buffer = [1, 2, 13, 10, 3, 13, 10]\<rparr>
     = Some (Inr ([Ev_message [1, 2], Ev_message [3]],
         \<lparr>string_eof = [13, 10], se_max_payload = 64, curr_offset = 0\<rparr>, b')) \<and> bb_inv b' \<and> contents b' = []"
proof -
  let ?c = "\<lparr>string_eof = [13, 10], se_max_payload = 64, curr_offset = 0\<rparr>"
  let ?b = "\<lparr>max_size = kUnLimitSize, reader_index = 0, writer_index = 7, buffer = [1, 2, 13, 10, 3, 13, 10]\<rparr>"
  have "se_ready ?c" by (simp add: se_ready_def se_wf_def)
  moreover have "list_all (se_valid ?c) [[1, 2], [3]]"
    by (simp add: se_valid_def se_frame_def occurs_at_def upt_rec)
  moreover have "bb_inv ?b" by (simp add: bb_inv_def vec_max_def)
  moreover have "contents ?b = concat (map (se_frame ?c) [[1, 2], [3]])"
    by (simp add: contents_def bytes_at_def se_frame_def)
  ultimately show ?thesis using string_eof_recv_frames [of ?c "[[1, 2], [3]]" ?b] by simp
qed

text \<open>A terminator that begins before the search offset is not found.\<close>

lemma se_decode_unseen:
  assumes "se_wf c" and "bb_inv b" and "length (string_eof c) \<le> length (contents b)"
    and "\<And>k. occurs_at (contents b) (string_eof c) k \<Longrightarrow> k < curr_offset c"
  shows "\<exists>rt. rt \<noteq> 1 \<and>
     se_decode c b payload0 = Inr (rt, b, payload0, c\<lparr>curr_offset := se_next_offset c (length (contents b))\<rparr>)"
proof -
  have "is_first (occurs_at (contents b) (string_eof c)) (curr_offset c) (se_find c (contents b))"
    using se_find_first [OF assms(1) length_contents_le [OF assms(2)]] .
  with assms(4) have "se_find c (contents b) = npos"
    by (auto simp: is_first_def split: if_splits) (meson leD)
  from se_decode_not_found [OF assms(2,3) this] show ?thesis by auto
qed

lemma se_offset_steps:
  assumes "curr_offset c \<le> 2 ^ 63" and "length (string_eof c) < n" and "n \<le> vec_max"
  shows "se_next_offset c n = curr_offset c + (n - length (string_eof c) - 1)"
  using assms by (simp add: se_next_offset_def size_add_def vec_max_def)

text \<open>C35: A segment boundary can hide a frame, in two ways. When the bytes received so far are exactly as many as
  the delimiter has, and are not the delimiter, the search offset wraps to the largest \<^verbatim>\<open>size_t\<close>, and
  the next call of \<^verbatim>\<open>decode\<close> delivers nothing, whatever complete frames the buffer then holds. And since each
  call adds to the offset, after two calls that found no delimiter the third one misses every delimiter
  that begins before the sum of the two steps; this can be one that the second read cut in two.\<close>

theorem string_eof_misses_frame:
  assumes "se_ready c" and "bb_inv b" and "bb_inv b2" and "bb_inv b3"
  shows "(length (contents b) = length (string_eof c) \<and> contents b \<noteq> string_eof c \<longrightarrow>
       (\<exists>rt c' rt2 c2. se_decode c b payload0 = Inr (rt, b, payload0, c') \<and> rt \<noteq> 1
          \<and> se_decode c' b2 payload0 = Inr (rt2, b2, payload0, c2) \<and> rt2 \<noteq> 1))
    \<and> (length (string_eof c) < length (contents b) \<and> length (contents b) \<le> length (contents b2)
         \<and> length (contents b2) \<le> length (contents b3)
         \<and> (\<forall>k. \<not> occurs_at (contents b) (string_eof c) k) \<and> (\<forall>k. \<not> occurs_at (contents b2) (string_eof c) k)
         \<and> (\<forall>k. occurs_at (contents b3) (string_eof c) k \<longrightarrow>
              k + 2 * length (string_eof c) + 2 < length (contents b) + length (contents b2)) \<longrightarrow>
       (\<exists>rt c' rt2 c2 rt3 c3. se_decode c b payload0 = Inr (rt, b, payload0, c') \<and> rt \<noteq> 1
          \<and> se_decode c' b2 payload0 = Inr (rt2, b2, payload0, c2) \<and> rt2 \<noteq> 1
          \<and> se_decode c2 b3 payload0 = Inr (rt3, b3, payload0, c3) \<and> rt3 \<noteq> 1))"
proof (intro conjI impI)
  have wf: "se_wf c" "curr_offset c = 0" using assms(1) by (simp_all add: se_ready_def)
  let ?e = "length (string_eof c)"
  have wf': "se_wf (c\<lparr>curr_offset := k\<rparr>)" for k using wf(1) by (simp add: se_wf_def)
  note le = length_contents_le [OF assms(2)] length_contents_le [OF assms(3)]
  {
    assume first: "length (contents b) = ?e \<and> contents b \<noteq> string_eof c"
    have off: "se_next_offset c (length (contents b)) = npos"
      using first wf(2) by (simp add: se_next_offset_def size_sub_def size_add_def npos_def)
    have "\<not> occurs_at (contents b) (string_eof c) k" for k using first by (auto simp: occurs_at_def)
    with se_decode_unseen [OF wf(1) assms(2)] first off obtain rt where
      1: "se_decode c b payload0 = Inr (rt, b, payload0, c\<lparr>curr_offset := npos\<rparr>)" "rt \<noteq> 1" by force
    have "k < npos" if "occurs_at (contents b2) (string_eof c) k" for k
      using that le(2) npos_large [of "length (contents b2)"] by (auto simp: occurs_at_def)
    with se_decode_unseen [OF wf', of b2 npos] se_decode_short [of b2 "c\<lparr>curr_offset := npos\<rparr>"] assms(3)
    have "\<exists>rt2 c2. se_decode (c\<lparr>curr_offset := npos\<rparr>) b2 payload0 = Inr (rt2, b2, payload0, c2) \<and> rt2 \<noteq> 1"
      by (cases "length (contents b2) < ?e") auto
    with 1 show "\<exists>rt c' rt2 c2. se_decode c b payload0 = Inr (rt, b, payload0, c') \<and> rt \<noteq> 1
      \<and> se_decode c' b2 payload0 = Inr (rt2, b2, payload0, c2) \<and> rt2 \<noteq> 1" by blast
  next
    assume cut: "?e < length (contents b) \<and> length (contents b) \<le> length (contents b2)
      \<and> length (contents b2) \<le> length (contents b3)
      \<and> (\<forall>k. \<not> occurs_at (contents b) (string_eof c) k) \<and> (\<forall>k. \<not> occurs_at (contents b2) (string_eof c) k)
      \<and> (\<forall>k. occurs_at (contents b3) (string_eof c) k \<longrightarrow> k + 2 * ?e + 2 < length (contents b) + length (contents b2))"
    define k1 where "k1 = length (contents b) - ?e - 1"
    define k2 where "k2 = k1 + (length (contents b2) - ?e - 1)"
    have k1: "se_next_offset c (length (contents b)) = k1" "k1 \<le> 2 ^ 63"
      using se_offset_steps [of c "length (contents b)"] wf(2) cut le by (auto simp: k1_def vec_max_def)
    have k2: "se_next_offset (c\<lparr>curr_offset := k1\<rparr>) (length (contents b2)) = k2"
      using se_offset_steps [of "c\<lparr>curr_offset := k1\<rparr>" "length (contents b2)"] k1(2) cut le by (simp add: k2_def)
    obtain rt where 1: "se_decode c b payload0 = Inr (rt, b, payload0, c\<lparr>curr_offset := k1\<rparr>)" "rt \<noteq> 1"
      using se_decode_unseen [OF wf(1) assms(2)] cut k1(1) by auto
    obtain rt2 where 2: "se_decode (c\<lparr>curr_offset := k1\<rparr>) b2 payload0 = Inr (rt2, b2, payload0, c\<lparr>curr_offset := k2\<rparr>)" "rt2 \<noteq> 1"
      using se_decode_unseen [OF wf' assms(3), of k1] cut k2 by auto
    have "k < k2" if "occurs_at (contents b3) (string_eof c) k" for k
    proof -
      have "k + 2 * ?e + 2 < length (contents b) + length (contents b2)" using cut that by blast
      then show ?thesis using cut by (simp add: k1_def k2_def)
    qed
    then obtain rt3 c3 where "se_decode (c\<lparr>curr_offset := k2\<rparr>) b3 payload0 = Inr (rt3, b3, payload0, c3)" "rt3 \<noteq> 1"
      using se_decode_unseen [OF wf' assms(4), of k2] cut by auto
    with 1 2 show "\<exists>rt c' rt2 c2 rt3 c3. se_decode c b payload0 = Inr (rt, b, payload0, c') \<and> rt \<noteq> 1
      \<and> se_decode c' b2 payload0 = Inr (rt2, b2, payload0, c2) \<and> rt2 \<noteq> 1
      \<and> se_decode c2 b3 payload0 = Inr (rt3, b3, payload0, c3) \<and> rt3 \<noteq> 1" by blast
  }
qed

text \<open>Two reads, the second of which ends between the two bytes of the delimiter.\<close>

definition buf_of :: "byte list \<Rightarrow> byte_buffer" where
  "buf_of xs = \<lparr>max_size = kUnLimitSize, reader_index = 0, writer_index = length xs, buffer = xs\<rparr>"

theorem string_eof_misses_frame_witness:
  "\<exists>rt c' rt2 c2 rt3 c3. se_decode \<lparr>string_eof = [13, 10], se_max_payload = 64, curr_offset = 0\<rparr> (buf_of [1, 2, 3, 4, 5, 6]) payload0
      = Inr (rt, buf_of [1, 2, 3, 4, 5, 6], payload0, c') \<and> rt \<noteq> 1
    \<and> se_decode c' (buf_of [1, 2, 3, 4, 5, 6, 7, 13]) payload0 = Inr (rt2, buf_of [1, 2, 3, 4, 5, 6, 7, 13], payload0, c2) \<and> rt2 \<noteq> 1
    \<and> se_decode c2 (buf_of [1, 2, 3, 4, 5, 6, 7, 13, 10]) payload0
      = Inr (rt3, buf_of [1, 2, 3, 4, 5, 6, 7, 13, 10], payload0, c3) \<and> rt3 \<noteq> 1"
proof -
  let ?c = "\<lparr>string_eof = [13, 10], se_max_payload = 64, curr_offset = 0\<rparr>"
  let ?b1 = "buf_of [1, 2, 3, 4, 5, 6]" and ?b2 = "buf_of [1, 2, 3, 4, 5, 6, 7, 13]" and ?b3 = "buf_of [1, 2, 3, 4, 5, 6, 7, 13, 10]"
  have c: "contents (buf_of xs) = xs" for xs by (simp add: buf_of_def contents_def bytes_at_def)
  have "se_ready ?c" "bb_inv ?b1" "bb_inv ?b2" "bb_inv ?b3"
    by (simp_all add: se_ready_def se_wf_def bb_inv_def buf_of_def vec_max_def)
  note cut = string_eof_misses_frame [OF this, THEN conjunct2, unfolded c]
  have range: "\<forall>k. occurs_at xs s k \<longrightarrow> P k" if "list_all (\<lambda>k. occurs_at xs s k \<longrightarrow> P k) [0..<Suc (length xs)]" for xs s :: "byte list" and P
    using that by (auto simp: list_all_iff occurs_at_def simp del: upt_Suc)
  have "\<forall>k. \<not> occurs_at [1, 2, 3, 4, 5, 6] [13, 10 :: byte] k" "\<forall>k. \<not> occurs_at [1, 2, 3, 4, 5, 6, 7, 13] [13, 10 :: byte] k"
    "\<forall>k. occurs_at [1, 2, 3, 4, 5, 6, 7, 13, 10] [13, 10 :: byte] k \<longrightarrow> k < 8"
    using range [of "[1, 2, 3, 4, 5, 6]" "[13, 10]" "\<lambda>_. False"] range [of "[1, 2, 3, 4, 5, 6, 7, 13]" "[13, 10]" "\<lambda>_. False"]
      range [of "[1, 2, 3, 4, 5, 6, 7, 13, 10]" "[13, 10]" "\<lambda>k. k < 8"]
    by (simp_all add: occurs_at_def upt_rec)
  with cut show ?thesis by simp
qed

end
