(* ===== verification/Channel_Poller.thy ===== *)
theory Channel_Poller
  imports Annety_Prelude
begin

text \<open>
  Channels and pollers (src/Channel.h, src/Channel.cc, src/Poller.h, src/Poller.cc,
  src/PollPoller.cc, src/EPollPoller.cc). A channel is a record in a store indexed by its address;
  a poller has the map of registered channels and a backend: the vector of \<^verbatim>\<open>pollfd\<close> of
  \<^verbatim>\<open>PollPoller\<close>, or the epoll instance of the kernel for \<^verbatim>\<open>EPollPoller\<close>. The two classes have the same
  \<^verbatim>\<open>update_channel\<close> and \<^verbatim>\<open>remove_channel\<close> and differ in \<^verbatim>\<open>update_poll_events\<close>, which is a parameter
  \<open>upe\<close> of them here. The locale \<open>poll_backend\<close> states what \<open>upe\<close> promises; the invariant of the poller
  is proved from it once, and both backends are interpretations.

  \<open>own\<close> says whether the calling thread is the one of the loop (\<^verbatim>\<open>check_in_own_loop\<close>). \<^verbatim>\<open>epoll_ctl\<close> is
  a parameter, with its documented behaviour as the hypothesis \<open>epoll_ctl_ok\<close>.
\<close>

unbundle bit_operations_syntax

section \<open>Channels\<close>

definition POLLIN :: "32 word" where "POLLIN = 0x001"
definition POLLPRI :: "32 word" where "POLLPRI = 0x002"
definition POLLOUT :: "32 word" where "POLLOUT = 0x004"
definition POLLERR :: "32 word" where "POLLERR = 0x008"
definition POLLHUP :: "32 word" where "POLLHUP = 0x010"
definition POLLNVAL :: "32 word" where "POLLNVAL = 0x020"

definition kNoneEvent :: "32 word" where "kNoneEvent = 0"
definition kReadEvent :: "32 word" where "kReadEvent = POLLIN OR POLLPRI"
definition kWriteEvent :: "32 word" where "kWriteEvent = POLLOUT"

definition kChannelPollInit :: int where "kChannelPollInit = -1"
definition kChannelPollAdded :: int where "kChannelPollAdded = 1"
definition kChannelPollDeleted :: int where "kChannelPollDeleted = 2"

datatype poll_ctl = kPollCtlAdd | kPollCtlDel | kPollCtlMod

record channel =
  ch_fd :: int
  status :: int
  events :: "32 word"
  revents :: "32 word"
  added_to_loop :: bool
  handling_event :: bool
  has_read_cb :: bool
  has_write_cb :: bool
  has_close_cb :: bool
  has_error_cb :: bool

definition new_channel :: "int \<Rightarrow> channel" where
  "new_channel fd = \<lparr>ch_fd = fd, status = kChannelPollInit, events = 0, revents = 0,
     added_to_loop = False, handling_event = False,
     has_read_cb = False, has_write_cb = False, has_close_cb = False, has_error_cb = False\<rparr>"

definition is_none_event :: "channel \<Rightarrow> bool" where
  "is_none_event ch \<longleftrightarrow> events ch = kNoneEvent"

definition is_write_event :: "channel \<Rightarrow> bool" where
  "is_write_event ch \<longleftrightarrow> events ch AND kWriteEvent \<noteq> 0"

definition is_read_event :: "channel \<Rightarrow> bool" where
  "is_read_event ch \<longleftrightarrow> events ch AND kReadEvent \<noteq> 0"

text \<open>The callbacks \<^verbatim>\<open>handle_event\<close> makes, in order.\<close>

datatype channel_cb = Close_cb | Error_cb | Read_cb | Write_cb

definition handle_event :: "bool \<Rightarrow> channel \<Rightarrow> channel_cb list res" where
  "handle_event own ch = check own
     (Inr ((if revents ch AND POLLHUP \<noteq> 0 \<and> revents ch AND POLLIN = 0 \<and> has_close_cb ch then [Close_cb] else [])
         @ (if revents ch AND (POLLERR OR POLLNVAL) \<noteq> 0 \<and> has_error_cb ch then [Error_cb] else [])
         @ (if revents ch AND (POLLIN OR POLLPRI) \<noteq> 0 \<and> has_read_cb ch then [Read_cb] else [])
         @ (if revents ch AND POLLOUT \<noteq> 0 \<and> has_write_cb ch then [Write_cb] else [])))"

section \<open>The poller\<close>

type_synonym cid = nat
type_synonym chans = "cid \<Rightarrow> channel"

record 'b poller =
  channels :: "int \<rightharpoonup> cid"
  backend :: 'b

type_synonym 'b upe = "poll_ctl \<Rightarrow> cid \<Rightarrow> channel \<Rightarrow> 'b \<Rightarrow> 'b res"

definition set_status :: "int \<Rightarrow> cid \<Rightarrow> chans \<Rightarrow> chans" where
  "set_status s c h = h(c := (h c)\<lparr>status := s\<rparr>)"

definition update_poll :: "'b upe \<Rightarrow> poll_ctl \<Rightarrow> cid \<Rightarrow> channel \<Rightarrow> 'b poller \<Rightarrow> 'b poller res" where
  "update_poll upe op c ch p = bindR (upe op c ch (backend p)) (\<lambda>b. Inr (p\<lparr>backend := b\<rparr>))"

definition update_channel ::
  "'b upe \<Rightarrow> bool \<Rightarrow> cid \<Rightarrow> 'b poller \<Rightarrow> chans \<Rightarrow> ('b poller \<times> chans) res" where
  "update_channel upe own c p h = check own
     (let ch = h c; fd = ch_fd ch in
      if status ch = kChannelPollInit \<or> status ch = kChannelPollDeleted then
        bindR (if status ch = kChannelPollInit
               then check (channels p fd = None) (Inr (p\<lparr>channels := (channels p)(fd \<mapsto> c)\<rparr>))
               else check (channels p fd \<noteq> None) (check (channels p fd = Some c) (Inr p))) (\<lambda>p1.
        let h1 = set_status kChannelPollAdded c h in
        bindR (update_poll upe kPollCtlAdd c (h1 c) p1) (\<lambda>p2.
        Inr (p2, h1)))
      else
        check (status ch = kChannelPollAdded)
        (check (channels p fd \<noteq> None)
        (check (channels p fd = Some c)
        (if is_none_event ch then
           bindR (update_poll upe kPollCtlDel c ch p) (\<lambda>p1. Inr (p1, set_status kChannelPollDeleted c h))
         else
           bindR (update_poll upe kPollCtlMod c ch p) (\<lambda>p1. Inr (p1, h))))))"

definition remove_channel ::
  "'b upe \<Rightarrow> bool \<Rightarrow> cid \<Rightarrow> 'b poller \<Rightarrow> chans \<Rightarrow> ('b poller \<times> chans) res" where
  "remove_channel upe own c p h = check own
     (let ch = h c; fd = ch_fd ch in
      check (channels p fd \<noteq> None)
      (check (channels p fd = Some c)
      (check (is_none_event ch)
      (check (status ch = kChannelPollAdded \<or> status ch = kChannelPollDeleted)
      (let p1 = p\<lparr>channels := (channels p)(fd := None)\<rparr> in
       bindR (if status ch = kChannelPollAdded then update_poll upe kPollCtlDel c ch p1 else Inr p1) (\<lambda>p2.
       Inr (p2, set_status kChannelPollInit c h)))))))"

definition has_channel :: "bool \<Rightarrow> cid \<Rightarrow> 'b poller \<Rightarrow> chans \<Rightarrow> bool res" where
  "has_channel own c p h = check own (Inr (channels p (ch_fd (h c)) = Some c))"

section \<open>Operations of a channel on its loop\<close>

definition channel_update ::
  "'b upe \<Rightarrow> bool \<Rightarrow> cid \<Rightarrow> 'b poller \<Rightarrow> chans \<Rightarrow> ('b poller \<times> chans) res" where
  "channel_update upe own c p h = check own
     (update_channel upe own c p (h(c := (h c)\<lparr>added_to_loop := True\<rparr>)))"

definition channel_remove ::
  "'b upe \<Rightarrow> bool \<Rightarrow> cid \<Rightarrow> 'b poller \<Rightarrow> chans \<Rightarrow> ('b poller \<times> chans) res" where
  "channel_remove upe own c p h = check own (check (is_none_event (h c))
     (remove_channel upe own c p (h(c := (h c)\<lparr>added_to_loop := False\<rparr>))))"

definition set_events :: "32 word \<Rightarrow> cid \<Rightarrow> chans \<Rightarrow> chans" where
  "set_events e c h = h(c := (h c)\<lparr>events := e\<rparr>)"

definition disable_all_event where
  "disable_all_event upe own c p h = channel_update upe own c p (set_events kNoneEvent c h)"

definition enable_read_event where
  "enable_read_event upe own c p h =
     channel_update upe own c p (set_events (events (h c) OR kReadEvent) c h)"

definition disable_read_event where
  "disable_read_event upe own c p h =
     channel_update upe own c p (set_events (events (h c) AND NOT kReadEvent) c h)"

definition enable_write_event where
  "enable_write_event upe own c p h =
     channel_update upe own c p (set_events (events (h c) OR kWriteEvent) c h)"

definition disable_write_event where
  "disable_write_event upe own c p h =
     channel_update upe own c p (set_events (events (h c) AND NOT kWriteEvent) c h)"

text \<open>The destructor asserts that the channel was removed.\<close>

definition channel_destroy :: "bool \<Rightarrow> cid \<Rightarrow> 'b poller \<Rightarrow> chans \<Rightarrow> unit res" where
  "channel_destroy own c p h =
     check (\<not> handling_event (h c)) (check (\<not> added_to_loop (h c))
       (if own then bindR (has_channel own c p h) (\<lambda>has. check (\<not> has) (Inr ())) else Inr ()))"

section \<open>The backend of \<^verbatim>\<open>PollPoller\<close>\<close>

record pollfd =
  pfd_fd :: int
  pfd_events :: "16 word"
  pfd_revents :: "16 word"

fun find_poll_events :: "int \<Rightarrow> pollfd list \<Rightarrow> nat" where
  "find_poll_events fd [] = 0"
| "find_poll_events fd (x # xs) = (if pfd_fd x = fd then 0 else Suc (find_poll_events fd xs))"

definition poll_update_poll_events :: "pollfd list upe" where
  "poll_update_poll_events op c ch xs =
     (let it = find_poll_events (ch_fd ch) xs in
      case op of
        kPollCtlAdd \<Rightarrow> check (it = length xs)
          (Inr (xs @ [\<lparr>pfd_fd = ch_fd ch, pfd_events = ucast (events ch), pfd_revents = 0\<rparr>]))
      | kPollCtlDel \<Rightarrow> check (it \<noteq> length xs) (Inr (take it xs @ drop (Suc it) xs))
      | kPollCtlMod \<Rightarrow> check (it \<noteq> length xs)
          (Inr (xs[it := (xs ! it)\<lparr>pfd_revents := 0, pfd_events := ucast (events ch)\<rparr>])))"

fun poll_fill_active_channels ::
  "pollfd list \<Rightarrow> int \<Rightarrow> pollfd list poller \<Rightarrow> chans \<Rightarrow> (cid list \<times> chans) res" where
  "poll_fill_active_channels [] num p h = Inr ([], h)"
| "poll_fill_active_channels (x # xs) num p h =
     (if num > 0 then
        (if sint (pfd_revents x) > 0 then
           (case channels p (pfd_fd x) of
              None \<Rightarrow> Inl Check_failed
            | Some c \<Rightarrow> check (ch_fd (h c) = pfd_fd x)
                (let h1 = h(c := (h c)\<lparr>revents := scast (pfd_revents x)\<rparr>) in
                 bindR (poll_fill_active_channels xs (num - 1) p h1) (\<lambda>(cs, h2). Inr (c # cs, h2))))
         else poll_fill_active_channels xs num p h)
      else Inr ([], h))"

text \<open>\<open>sys_poll\<close> stands for \<^verbatim>\<open>poll(2)\<close>: from the watched descriptors to the return value and the
  returned events of each of them.\<close>

definition poll_poll ::
  "(pollfd list \<Rightarrow> int \<times> 16 word list) \<Rightarrow> bool \<Rightarrow> pollfd list poller \<Rightarrow> chans
     \<Rightarrow> (cid list \<times> pollfd list poller \<times> chans) res" where
  "poll_poll sys_poll own p h = check own
     (let (num, revs) = sys_poll (backend p);
          xs = map2 (\<lambda>x r. x\<lparr>pfd_revents := r\<rparr>) (backend p) revs;
          p1 = p\<lparr>backend := xs\<rparr>
      in if num > 0 then bindR (poll_fill_active_channels xs num p1 h) (\<lambda>(cs, h1). Inr (cs, p1, h1))
         else Inr ([], p1, h))"

section \<open>The backend of \<^verbatim>\<open>EPollPoller\<close>\<close>

text \<open>\<open>ctl\<close> stands for \<^verbatim>\<open>epoll_ctl(2)\<close> on the state of the epoll instance.\<close>

type_synonym 'k epoll_ctl = "poll_ctl \<Rightarrow> int \<Rightarrow> 32 word \<times> cid \<Rightarrow> 'k \<Rightarrow> int \<times> 'k"

definition epoll_update_poll_events :: "'k epoll_ctl \<Rightarrow> 'k upe" where
  "epoll_update_poll_events ctl op c ch k =
     (case ctl op (ch_fd ch) (events ch, c) k of (r, k') \<Rightarrow>
        if r < 0 then (if op = kPollCtlDel then Inr k' else Inl Bad_syscall) else Inr k')"

text \<open>\<^verbatim>\<open>EPollPoller::update_channel\<close> and \<^verbatim>\<open>EPollPoller::remove_channel\<close> have the statements of their \<^verbatim>\<open>PollPoller\<close>
  counterparts, over the other \<^verbatim>\<open>update_poll_events\<close>.\<close>

definition epoll_update_channel ::
  "'k epoll_ctl \<Rightarrow> bool \<Rightarrow> cid \<Rightarrow> 'k poller \<Rightarrow> chans \<Rightarrow> ('k poller \<times> chans) res" where
  "epoll_update_channel ctl = update_channel (epoll_update_poll_events ctl)"

definition epoll_remove_channel ::
  "'k epoll_ctl \<Rightarrow> bool \<Rightarrow> cid \<Rightarrow> 'k poller \<Rightarrow> chans \<Rightarrow> ('k poller \<times> chans) res" where
  "epoll_remove_channel ctl = remove_channel (epoll_update_poll_events ctl)"

fun epoll_fill_active_channels ::
  "(32 word \<times> cid) list \<Rightarrow> 'k poller \<Rightarrow> chans \<Rightarrow> (cid list \<times> chans) res" where
  "epoll_fill_active_channels [] p h = Inr ([], h)"
| "epoll_fill_active_channels ((ev, c) # evs) p h =
     check (channels p (ch_fd (h c)) \<noteq> None) (check (channels p (ch_fd (h c)) = Some c)
       (let h1 = h(c := (h c)\<lparr>revents := ev\<rparr>) in
        bindR (epoll_fill_active_channels evs p h1) (\<lambda>(cs, h2). Inr (c # cs, h2))))"

text \<open>\<open>wait\<close> stands for \<^verbatim>\<open>epoll_wait(2)\<close>, whose second argument is the size of the event vector; the
  vector doubles when it was filled.\<close>

definition epoll_poll ::
  "('k \<Rightarrow> nat \<Rightarrow> (32 word \<times> cid) list) \<Rightarrow> bool \<Rightarrow> nat \<Rightarrow> 'k poller \<Rightarrow> chans
     \<Rightarrow> (cid list \<times> nat \<times> chans) res" where
  "epoll_poll wait own cap p h = check own
     (let evs = wait (backend p) cap
      in if length evs > 0 then
           check (length evs \<le> cap)
           (bindR (epoll_fill_active_channels evs p h) (\<lambda>(cs, h1).
              Inr (cs, if length evs = cap then cap * 2 else cap, h1)))
         else Inr ([], cap, h))"

definition epoll_ctl_ok :: "('k \<Rightarrow> int \<rightharpoonup> 32 word \<times> cid) \<Rightarrow> 'k epoll_ctl \<Rightarrow> bool" where
  "epoll_ctl_ok interest ctl \<longleftrightarrow> (\<forall>k fd e.
     (interest k fd = None \<longrightarrow> (\<exists>k'. ctl kPollCtlAdd fd e k = (0, k') \<and> interest k' = (interest k)(fd \<mapsto> e)))
     \<and> (interest k fd \<noteq> None \<longrightarrow>
          (\<exists>k'. ctl kPollCtlMod fd e k = (0, k') \<and> interest k' = (interest k)(fd \<mapsto> e))
          \<and> (\<exists>k'. ctl kPollCtlDel fd e k = (0, k') \<and> interest k' = (interest k)(fd := None))))"

section \<open>What a backend promises, and the invariant of the poller\<close>

text \<open>\<open>watched\<close> is the set of descriptors a backend watches with their events, \<open>conv\<close> the form in which it
  keeps the events of a channel.\<close>

definition poller_inv ::
  "('b \<Rightarrow> int \<rightharpoonup> 'e) \<Rightarrow> (cid \<Rightarrow> 32 word \<Rightarrow> 'e) \<Rightarrow> ('b \<Rightarrow> bool) \<Rightarrow> 'b poller \<Rightarrow> chans \<Rightarrow> bool" where
  "poller_inv watched conv binv p h \<longleftrightarrow>
     binv (backend p)
     \<and> (\<forall>fd c. channels p fd = Some c \<longrightarrow> ch_fd (h c) = fd \<and> status (h c) \<noteq> kChannelPollInit)
     \<and> (\<forall>c. status (h c) \<in> {kChannelPollInit, kChannelPollAdded, kChannelPollDeleted})
     \<and> (\<forall>c. status (h c) \<noteq> kChannelPollInit \<longrightarrow> channels p (ch_fd (h c)) = Some c)
     \<and> (\<forall>fd. watched (backend p) fd =
          (case channels p fd of
             None \<Rightarrow> None
           | Some c \<Rightarrow> if status (h c) = kChannelPollAdded then Some (conv c (events (h c))) else None))"

text \<open>The effect of setting the events of a channel and updating it.\<close>

definition updated :: "32 word \<Rightarrow> channel \<Rightarrow> channel" where
  "updated e ch = ch\<lparr>events := e, added_to_loop := True,
     status := (if status ch = kChannelPollAdded \<and> e = kNoneEvent then kChannelPollDeleted else kChannelPollAdded)\<rparr>"

definition removed :: "channel \<Rightarrow> channel" where
  "removed ch = ch\<lparr>added_to_loop := False, status := kChannelPollInit\<rparr>"

lemmas poll_status_defs = kChannelPollInit_def kChannelPollAdded_def kChannelPollDeleted_def

section \<open>Sequences of channel operations\<close>

datatype chan_op =
    Op_enable_read | Op_disable_read | Op_enable_write | Op_disable_write | Op_disable_all | Op_remove

fun chan_step :: "'b upe \<Rightarrow> 'b poller \<times> chans \<Rightarrow> cid \<times> chan_op \<Rightarrow> ('b poller \<times> chans) res" where
  "chan_step upe (p, h) (c, Op_enable_read) = enable_read_event upe True c p h"
| "chan_step upe (p, h) (c, Op_disable_read) = disable_read_event upe True c p h"
| "chan_step upe (p, h) (c, Op_enable_write) = enable_write_event upe True c p h"
| "chan_step upe (p, h) (c, Op_disable_write) = disable_write_event upe True c p h"
| "chan_step upe (p, h) (c, Op_disable_all) = disable_all_event upe True c p h"
| "chan_step upe (p, h) (c, Op_remove) = channel_remove upe True c p h"

text \<open>What an operation does to its channel.\<close>

fun chan_effect :: "chan_op \<Rightarrow> channel \<Rightarrow> channel" where
  "chan_effect Op_enable_read ch = updated (events ch OR kReadEvent) ch"
| "chan_effect Op_disable_read ch = updated (events ch AND NOT kReadEvent) ch"
| "chan_effect Op_enable_write ch = updated (events ch OR kWriteEvent) ch"
| "chan_effect Op_disable_write ch = updated (events ch AND NOT kWriteEvent) ch"
| "chan_effect Op_disable_all ch = updated kNoneEvent ch"
| "chan_effect Op_remove ch = removed ch"

text \<open>The protocol of the class: a channel is registered for a descriptor no other channel is registered
  for, and only a registered channel whose events are disabled is removed.\<close>

fun legal_chan_op :: "'b poller \<Rightarrow> chans \<Rightarrow> cid \<times> chan_op \<Rightarrow> bool" where
  "legal_chan_op p h (c, Op_remove) = (status (h c) \<noteq> kChannelPollInit \<and> is_none_event (h c))"
| "legal_chan_op p h (c, x) = (status (h c) = kChannelPollInit \<longrightarrow> channels p (ch_fd (h c)) = None)"

fun run_chan_ops :: "'b upe \<Rightarrow> 'b poller \<times> chans \<Rightarrow> (cid \<times> chan_op) list \<Rightarrow> ('b poller \<times> chans) res" where
  "run_chan_ops upe s [] = Inr s"
| "run_chan_ops upe s (x # xs) = bindR (chan_step upe s x) (\<lambda>s'. run_chan_ops upe s' xs)"

fun legal_chan_ops :: "'b upe \<Rightarrow> 'b poller \<times> chans \<Rightarrow> (cid \<times> chan_op) list \<Rightarrow> bool" where
  "legal_chan_ops upe s [] = True"
| "legal_chan_ops upe s (x # xs) =
     (legal_chan_op (fst s) (snd s) x
      \<and> (case chan_step upe s x of Inr s' \<Rightarrow> legal_chan_ops upe s' xs | Inl f \<Rightarrow> True))"

locale poll_backend =
  fixes upe :: "'b upe"
    and watched :: "'b \<Rightarrow> int \<rightharpoonup> 'e"
    and conv :: "cid \<Rightarrow> 32 word \<Rightarrow> 'e"
    and binv :: "'b \<Rightarrow> bool"
  assumes upe_add: "binv b \<Longrightarrow> watched b (ch_fd ch) = None \<Longrightarrow>
      \<exists>b'. upe kPollCtlAdd c ch b = Inr b' \<and> binv b' \<and> watched b' = (watched b)(ch_fd ch \<mapsto> conv c (events ch))"
    and upe_mod: "binv b \<Longrightarrow> watched b (ch_fd ch) \<noteq> None \<Longrightarrow>
      \<exists>b'. upe kPollCtlMod c ch b = Inr b' \<and> binv b' \<and> watched b' = (watched b)(ch_fd ch \<mapsto> conv c (events ch))"
    and upe_del: "binv b \<Longrightarrow> watched b (ch_fd ch) \<noteq> None \<Longrightarrow>
      \<exists>b'. upe kPollCtlDel c ch b = Inr b' \<and> binv b' \<and> watched b' = (watched b)(ch_fd ch := None)"
begin

abbreviation inv :: "'b poller \<Rightarrow> chans \<Rightarrow> bool" where
  "inv \<equiv> poller_inv watched conv binv"

lemma inv_watched:
  "inv p h \<Longrightarrow> status (h c) \<noteq> kChannelPollInit \<Longrightarrow>
     watched (backend p) (ch_fd (h c)) =
       (if status (h c) = kChannelPollAdded then Some (conv c (events (h c))) else None)"
  by (auto simp: poller_inv_def split: option.splits)

lemma inv_put:
  assumes inv: "inv p h" and free: "status (h c) = kChannelPollInit \<Longrightarrow> channels p (ch_fd (h c)) = None"
    and ch: "ch_fd ch = ch_fd (h c)" "status ch = kChannelPollAdded \<or> status ch = kChannelPollDeleted"
    and p': "channels p' = (channels p)(ch_fd (h c) \<mapsto> c)" "binv (backend p')"
      "watched (backend p') = (watched (backend p))(ch_fd (h c) :=
         (if status ch = kChannelPollAdded then Some (conv c (events ch)) else None))"
  shows "inv p' (h(c := ch))"
proof -
  have old: "\<And>fd d. channels p fd = Some d \<Longrightarrow> ch_fd (h d) = fd \<and> status (h d) \<noteq> kChannelPollInit"
    "\<And>d. status (h d) \<noteq> kChannelPollInit \<Longrightarrow> channels p (ch_fd (h d)) = Some d"
    "\<And>d. status (h d) \<in> {kChannelPollInit, kChannelPollAdded, kChannelPollDeleted}"
    "\<And>fd. watched (backend p) fd = (case channels p fd of None \<Rightarrow> None
       | Some c \<Rightarrow> if status (h c) = kChannelPollAdded then Some (conv c (events (h c))) else None)"
    using inv by (auto simp: poller_inv_def)
  have "channels p fd = Some d \<Longrightarrow> fd \<noteq> ch_fd (h c) \<Longrightarrow> d \<noteq> c" for fd d using old(1) by auto
  moreover have "d \<noteq> c \<Longrightarrow> status (h d) \<noteq> kChannelPollInit \<Longrightarrow> ch_fd (h d) \<noteq> ch_fd (h c)" for d
    using old(2) [of d] old(2) [of c] free by (cases "status (h c) = kChannelPollInit") auto
  ultimately show ?thesis
    using ch p' old by (auto simp: poller_inv_def poll_status_defs split: option.splits)
qed

lemma channel_update_ok:
  assumes inv: "inv p h" and free: "status (h c) = kChannelPollInit \<Longrightarrow> channels p (ch_fd (h c)) = None"
  shows "\<exists>p'. channel_update upe True c p (set_events e c h) = Inr (p', h(c := updated e (h c)))
           \<and> inv p' (h(c := updated e (h c))) \<and> channels p' = (channels p)(ch_fd (h c) \<mapsto> c)"
proof -
  let ?fd = "ch_fd (h c)"
  let ?ch = "(h c)\<lparr>events := e, added_to_loop := True\<rparr>"
  have b: "binv (backend p)" using inv by (simp add: poller_inv_def)
  have reg: "status (h c) \<noteq> kChannelPollInit \<Longrightarrow> channels p ?fd = Some c"
    using inv by (auto simp: poller_inv_def)
  have stat: "status (h c) \<in> {kChannelPollInit, kChannelPollAdded, kChannelPollDeleted}"
    using inv by (simp add: poller_inv_def)
  note put = inv_put [OF inv free, of "updated e (h c)"]
  note defs = channel_update_def update_channel_def update_poll_def set_events_def set_status_def
    updated_def poll_status_defs is_none_event_def
  consider (add) "status (h c) \<noteq> kChannelPollAdded"
    | (del) "status (h c) = kChannelPollAdded" "e = kNoneEvent"
    | (upd) "status (h c) = kChannelPollAdded" "e \<noteq> kNoneEvent" by blast
  then show ?thesis
  proof cases
    case add
    have "watched (backend p) ?fd = None"
      using inv_watched [OF inv, of c] add free inv
      by (cases "status (h c) = kChannelPollInit") (auto simp: poller_inv_def)
    with upe_add [OF b, of "updated e (h c)" c] obtain b' where
      b': "upe kPollCtlAdd c (updated e (h c)) (backend p) = Inr b'" "binv b'"
      "watched b' = (watched (backend p))(?fd \<mapsto> conv c e)" by (auto simp: updated_def)
    let ?p = "p\<lparr>channels := (channels p)(?fd \<mapsto> c), backend := b'\<rparr>"
    have "channel_update upe True c p (set_events e c h) = Inr (?p, h(c := updated e (h c)))"
      using add stat reg free b'(1) by (auto simp: defs map_upd_triv)
    moreover have "inv ?p (h(c := updated e (h c)))"
      using add b' by (intro put) (simp_all add: updated_def)
    ultimately show ?thesis by auto
  next
    case del
    with upe_del [OF b, of ?ch c] inv_watched [OF inv, of c] obtain b' where
      b': "upe kPollCtlDel c ?ch (backend p) = Inr b'" "binv b'"
      "watched b' = (watched (backend p))(?fd := None)" by (auto simp: poll_status_defs)
    let ?p = "p\<lparr>backend := b'\<rparr>"
    have reg': "channels p ?fd = Some c" using del reg by (simp add: poll_status_defs)
    have "channel_update upe True c p (set_events e c h) = Inr (?p, h(c := updated e (h c)))"
      using del reg' b'(1) by (simp add: defs)
    moreover have "inv ?p (h(c := updated e (h c)))"
      using del b' reg' by (intro put) (simp_all add: updated_def map_upd_triv poll_status_defs)
    ultimately show ?thesis using reg' by (auto simp: map_upd_triv)
  next
    case upd
    with upe_mod [OF b, of ?ch c] inv_watched [OF inv, of c] obtain b' where
      b': "upe kPollCtlMod c ?ch (backend p) = Inr b'" "binv b'"
      "watched b' = (watched (backend p))(?fd \<mapsto> conv c e)" by (auto simp: poll_status_defs)
    let ?p = "p\<lparr>backend := b'\<rparr>"
    have reg': "channels p ?fd = Some c" using upd reg by (simp add: poll_status_defs)
    have "channel_update upe True c p (set_events e c h) = Inr (?p, h(c := updated e (h c)))"
      using upd reg' b'(1) by (auto simp: defs)
    moreover have "inv ?p (h(c := updated e (h c)))"
      using upd b' reg' by (intro put) (simp_all add: updated_def map_upd_triv poll_status_defs)
    ultimately show ?thesis using reg' by (auto simp: map_upd_triv)
  qed
qed

lemma channel_remove_ok:
  assumes inv: "inv p h" and "status (h c) \<noteq> kChannelPollInit" and "is_none_event (h c)"
  shows "\<exists>p'. channel_remove upe True c p h = Inr (p', h(c := removed (h c)))
           \<and> inv p' (h(c := removed (h c))) \<and> channels p' = (channels p)(ch_fd (h c) := None)"
proof -
  let ?fd = "ch_fd (h c)"
  let ?ch = "(h c)\<lparr>added_to_loop := False\<rparr>"
  have b: "binv (backend p)" using inv by (simp add: poller_inv_def)
  have old: "\<And>fd d. channels p fd = Some d \<Longrightarrow> ch_fd (h d) = fd \<and> status (h d) \<noteq> kChannelPollInit"
    "\<And>d. status (h d) \<noteq> kChannelPollInit \<Longrightarrow> channels p (ch_fd (h d)) = Some d"
    "\<And>d. status (h d) \<in> {kChannelPollInit, kChannelPollAdded, kChannelPollDeleted}"
    "\<And>fd. watched (backend p) fd = (case channels p fd of None \<Rightarrow> None
       | Some c \<Rightarrow> if status (h c) = kChannelPollAdded then Some (conv c (events (h c))) else None)"
    using inv by (auto simp: poller_inv_def)
  have reg: "channels p ?fd = Some c" using assms(2) old(2) by auto
  obtain b' where b': "binv b'" "watched b' = (watched (backend p))(?fd := None)"
    "(if status (h c) = kChannelPollAdded then upe kPollCtlDel c ?ch (backend p) else Inr (backend p)) = Inr b'"
  proof (cases "status (h c) = kChannelPollAdded")
    case True
    with upe_del [OF b, of ?ch c] inv_watched [OF inv assms(2)] that show ?thesis by auto
  next
    case False
    with inv_watched [OF inv assms(2)] that [of "backend p"] b show ?thesis by (simp add: fun_upd_idem)
  qed
  let ?p = "p\<lparr>channels := (channels p)(?fd := None), backend := b'\<rparr>"
  have "channel_remove upe True c p h = Inr (?p, h(c := removed (h c)))"
    using assms(2,3) reg b'(3) old(3) [of c]
    by (auto simp: channel_remove_def remove_channel_def update_poll_def set_status_def removed_def
        is_none_event_def Let_def split: if_splits)
  moreover have "channels p fd = Some d \<Longrightarrow> fd \<noteq> ?fd \<Longrightarrow> d \<noteq> c" for fd d using old(1) by auto
  moreover have "d \<noteq> c \<Longrightarrow> status (h d) \<noteq> kChannelPollInit \<Longrightarrow> ch_fd (h d) \<noteq> ?fd" for d
    using old(2) [of d] reg by auto
  ultimately show ?thesis
    using b' old by (auto simp: poller_inv_def removed_def split: option.splits)
qed

lemma chan_step_ok:
  assumes inv: "inv p h" and legal: "legal_chan_op p h (c, x)"
  shows "\<exists>p' h'. chan_step upe (p, h) (c, x) = Inr (p', h') \<and> inv p' h'
           \<and> h' = h(c := chan_effect x (h c))"
proof (cases "x = Op_remove")
  case True
  with legal have "status (h c) \<noteq> kChannelPollInit" "is_none_event (h c)" by auto
  from channel_remove_ok [OF inv this] True show ?thesis by auto
next
  case False
  with legal have "status (h c) = kChannelPollInit \<Longrightarrow> channels p (ch_fd (h c)) = None"
    by (cases x) auto
  from channel_update_ok [OF inv this] False show ?thesis
    by (cases x) (auto simp: enable_read_event_def disable_read_event_def enable_write_event_def
        disable_write_event_def disable_all_event_def)
qed

lemma run_chan_ops_ok:
  "inv p h \<Longrightarrow> legal_chan_ops upe (p, h) xs \<Longrightarrow>
     \<exists>p' h'. run_chan_ops upe (p, h) xs = Inr (p', h') \<and> inv p' h'"
proof (induction xs arbitrary: p h)
  case (Cons x xs)
  obtain c y where x: "x = (c, y)" by (cases x)
  with Cons.prems chan_step_ok [of p h c y] obtain p1 h1 where
    "chan_step upe (p, h) x = Inr (p1, h1)" "inv p1 h1" by auto
  with Cons show ?case by auto
qed simp

end

section \<open>The two backends\<close>

definition poll_watched :: "pollfd list \<Rightarrow> int \<rightharpoonup> 16 word" where
  "poll_watched xs = map_of (map (\<lambda>x. (pfd_fd x, pfd_events x)) xs)"

definition distinct_fds :: "pollfd list \<Rightarrow> bool" where
  "distinct_fds xs \<longleftrightarrow> distinct (map pfd_fd xs)"

lemma find_poll_events_none: "poll_watched xs fd = None \<longleftrightarrow> find_poll_events fd xs = length xs"
  by (induction xs) (auto simp: poll_watched_def)

lemma find_poll_events_append:
  "find_poll_events fd xs = length xs \<Longrightarrow> poll_watched (xs @ [x]) = (poll_watched xs)(pfd_fd x \<mapsto> pfd_events x) \<or> pfd_fd x \<noteq> fd"
proof (induction xs)
  case (Cons y ys)
  then show ?case by (auto simp: poll_watched_def split: if_splits)
qed (simp add: poll_watched_def)

lemma distinct_fds_append:
  "distinct_fds xs \<Longrightarrow> find_poll_events (pfd_fd x) xs = length xs \<Longrightarrow> distinct_fds (xs @ [x])"
  by (induction xs) (auto simp: distinct_fds_def split: if_splits)

lemma poll_delete:
  assumes "distinct_fds xs"
  shows "distinct_fds (take (find_poll_events fd xs) xs @ drop (Suc (find_poll_events fd xs)) xs)
    \<and> poll_watched (take (find_poll_events fd xs) xs @ drop (Suc (find_poll_events fd xs)) xs)
        = (poll_watched xs)(fd := None)"
  using assms
proof (induction xs)
  case (Cons x xs)
  then have "pfd_fd x \<notin> pfd_fd ` set (take (find_poll_events fd xs) xs @ drop (Suc (find_poll_events fd xs)) xs)"
    by (auto simp: distinct_fds_def dest: in_set_takeD in_set_dropD)
  moreover have "map_of (map (\<lambda>x. (pfd_fd x, pfd_events x)) xs) (pfd_fd x) = None"
    using Cons.prems by (auto simp: distinct_fds_def map_of_eq_None_iff image_image)
  ultimately show ?case
    using Cons by (auto simp: distinct_fds_def poll_watched_def fun_upd_twist fun_upd_idem)
qed (simp add: distinct_fds_def poll_watched_def)

lemma poll_modify:
  assumes "find_poll_events fd xs \<noteq> length xs"
  shows "map pfd_fd (xs[find_poll_events fd xs := (xs ! find_poll_events fd xs)\<lparr>pfd_revents := 0, pfd_events := e\<rparr>])
      = map pfd_fd xs
    \<and> poll_watched (xs[find_poll_events fd xs := (xs ! find_poll_events fd xs)\<lparr>pfd_revents := 0, pfd_events := e\<rparr>])
      = (poll_watched xs)(fd \<mapsto> e)"
  using assms
proof (induction xs)
  case (Cons x xs)
  then show ?case by (auto simp: poll_watched_def fun_upd_twist)
qed simp

interpretation pp: poll_backend poll_update_poll_events poll_watched "\<lambda>c e. ucast e" distinct_fds
proof unfold_locales
  fix b :: "pollfd list" and ch :: channel and c :: cid assume a: "distinct_fds b" "poll_watched b (ch_fd ch) = None"
  let ?x = "\<lparr>pfd_fd = ch_fd ch, pfd_events = ucast (events ch), pfd_revents = 0\<rparr>"
  have f: "find_poll_events (ch_fd ch) b = length b" using a(2) by (simp add: find_poll_events_none)
  with find_poll_events_append [OF f, of ?x] distinct_fds_append [OF a(1), of ?x]
  show "\<exists>b'. poll_update_poll_events kPollCtlAdd c ch b = Inr b' \<and> distinct_fds b'
      \<and> poll_watched b' = (poll_watched b)(ch_fd ch \<mapsto> ucast (events ch))"
    by (simp add: poll_update_poll_events_def)
next
  fix b :: "pollfd list" and ch :: channel and c :: cid assume a: "distinct_fds b" "poll_watched b (ch_fd ch) \<noteq> None"
  then have f: "find_poll_events (ch_fd ch) b \<noteq> length b" by (simp add: find_poll_events_none)
  from poll_modify [OF f, of "ucast (events ch)"] a f
  show "\<exists>b'. poll_update_poll_events kPollCtlMod c ch b = Inr b' \<and> distinct_fds b'
      \<and> poll_watched b' = (poll_watched b)(ch_fd ch \<mapsto> ucast (events ch))"
    by (auto simp: poll_update_poll_events_def distinct_fds_def Let_def)
  from poll_delete [OF a(1), of "ch_fd ch"] a f
  show "\<exists>b'. poll_update_poll_events kPollCtlDel c ch b = Inr b' \<and> distinct_fds b'
      \<and> poll_watched b' = (poll_watched b)(ch_fd ch := None)"
    by (simp add: poll_update_poll_events_def Let_def)
qed

lemma epoll_ctl_okD:
  assumes "epoll_ctl_ok interest ctl"
  shows "interest k fd = None \<Longrightarrow> \<exists>k'. ctl kPollCtlAdd fd e k = (0, k') \<and> interest k' = (interest k)(fd \<mapsto> e)"
    and "interest k fd \<noteq> None \<Longrightarrow> \<exists>k'. ctl kPollCtlMod fd e k = (0, k') \<and> interest k' = (interest k)(fd \<mapsto> e)"
    and "interest k fd \<noteq> None \<Longrightarrow> \<exists>k'. ctl kPollCtlDel fd e k = (0, k') \<and> interest k' = (interest k)(fd := None)"
  using assms unfolding epoll_ctl_ok_def by blast+

interpretation ep: poll_backend "epoll_update_poll_events ctl" interest "\<lambda>c e. (e, c)"
    "\<lambda>k. epoll_ctl_ok interest ctl" for ctl interest
proof unfold_locales
  fix b and ch :: channel and c
  assume "epoll_ctl_ok interest ctl"
  note ok = epoll_ctl_okD [OF this, of b "ch_fd ch" "(events ch, c)"]
  show "interest b (ch_fd ch) = None \<Longrightarrow> \<exists>b'. epoll_update_poll_events ctl kPollCtlAdd c ch b = Inr b'
      \<and> epoll_ctl_ok interest ctl \<and> interest b' = (interest b)(ch_fd ch \<mapsto> (events ch, c))"
    and "interest b (ch_fd ch) \<noteq> None \<Longrightarrow> \<exists>b'. epoll_update_poll_events ctl kPollCtlMod c ch b = Inr b'
      \<and> epoll_ctl_ok interest ctl \<and> interest b' = (interest b)(ch_fd ch \<mapsto> (events ch, c))"
    and "interest b (ch_fd ch) \<noteq> None \<Longrightarrow> \<exists>b'. epoll_update_poll_events ctl kPollCtlDel c ch b = Inr b'
      \<and> epoll_ctl_ok interest ctl \<and> interest b' = (interest b)(ch_fd ch := None)"
    using ok \<open>epoll_ctl_ok interest ctl\<close> by (auto simp: epoll_update_poll_events_def)
qed

section \<open>Polling\<close>

definition ready_fds :: "pollfd list \<Rightarrow> pollfd list" where
  "ready_fds xs = filter (\<lambda>x. 0 < sint (pfd_revents x)) xs"

definition set_revents :: "'b poller \<Rightarrow> pollfd list \<Rightarrow> chans \<Rightarrow> chans" where
  "set_revents p xs h = fold (\<lambda>x h. let c = the (channels p (pfd_fd x)) in
     h(c := (h c)\<lparr>revents := scast (pfd_revents x)\<rparr>)) xs h"

lemma set_revents_other:
  "(\<And>x. x \<in> set xs \<Longrightarrow> the (channels p (pfd_fd x)) \<noteq> c) \<Longrightarrow> set_revents p xs h c = h c"
  by (induction xs arbitrary: h) (auto simp: set_revents_def Let_def)

lemma set_revents_fields:
  "\<exists>r. set_revents p xs h c = (h c)\<lparr>revents := r\<rparr>"
proof (induction xs arbitrary: h)
  case (Cons x xs)
  let ?c = "the (channels p (pfd_fd x))"
  obtain r where "set_revents p xs (h(?c := (h ?c)\<lparr>revents := scast (pfd_revents x)\<rparr>)) c
      = ((h(?c := (h ?c)\<lparr>revents := scast (pfd_revents x)\<rparr>)) c)\<lparr>revents := r\<rparr>" using Cons by blast
  then show ?case by (auto simp: set_revents_def Let_def split: if_splits)
next
  case Nil
  show ?case by (rule exI [of _ "revents (h c)"]) (simp add: set_revents_def)
qed

lemma poll_fill_active_channels_ok:
  "(\<And>x. x \<in> set xs \<Longrightarrow> \<exists>c. channels p (pfd_fd x) = Some c \<and> ch_fd (h c) = pfd_fd x) \<Longrightarrow>
   num \<ge> int (length (ready_fds xs)) \<Longrightarrow>
     poll_fill_active_channels xs num p h
       = Inr (map (\<lambda>x. the (channels p (pfd_fd x))) (ready_fds xs), set_revents p (ready_fds xs) h)"
proof (induction xs arbitrary: num h)
  case (Cons x xs)
  obtain c where c: "channels p (pfd_fd x) = Some c" "ch_fd (h c) = pfd_fd x" using Cons.prems(1) [of x] by auto
  let ?h = "h(c := (h c)\<lparr>revents := scast (pfd_revents x)\<rparr>)"
  have regs: "\<exists>d. channels p (pfd_fd y) = Some d \<and> ch_fd (?h d) = pfd_fd y" if "y \<in> set xs" for y
    using Cons.prems(1) [of y] that by auto
  show ?case
  proof (cases "0 < sint (pfd_revents x)")
    case True
    then have num: "num - 1 \<ge> int (length (ready_fds xs))" "num > 0" using Cons.prems(2) by (auto simp: ready_fds_def)
    have "poll_fill_active_channels xs (num - 1) p ?h
        = Inr (map (\<lambda>x. the (channels p (pfd_fd x))) (ready_fds xs), set_revents p (ready_fds xs) ?h)"
      using regs num(1) by (rule Cons.IH)
    with True c num(2) show ?thesis by (simp add: ready_fds_def set_revents_def Let_def)
  next
    case False
    then have n: "num \<ge> int (length (ready_fds xs))" using Cons.prems(2) by (simp add: ready_fds_def)
    show ?thesis
    proof (cases "num > 0")
      case True
      with False Cons.IH [OF _ n, of h] Cons.prems(1) show ?thesis by (simp add: ready_fds_def)
    next
      case num: False
      then have "ready_fds xs = []" using n by (cases "ready_fds xs") simp_all
      with False num show ?thesis by (simp add: ready_fds_def set_revents_def)
    qed
  qed
qed (simp add: ready_fds_def set_revents_def)

lemma map2_revents:
  "length rs = length xs \<Longrightarrow> map pfd_fd (map2 (\<lambda>x r. x\<lparr>pfd_revents := r\<rparr>) xs rs) = map pfd_fd xs
     \<and> poll_watched (map2 (\<lambda>x r. x\<lparr>pfd_revents := r\<rparr>) xs rs) = poll_watched xs
     \<and> map pfd_revents (map2 (\<lambda>x r. x\<lparr>pfd_revents := r\<rparr>) xs rs) = rs"
proof (induction xs arbitrary: rs)
  case (Cons x xs)
  then show ?case by (cases rs) (auto simp: poll_watched_def)
qed simp

lemma ready_fds_count:
  assumes "\<And>x. x \<in> set xs \<Longrightarrow> 0 \<le> sint (pfd_revents x)"
  shows "length (ready_fds xs) = length (filter (\<lambda>r. r \<noteq> 0) (map pfd_revents xs))"
proof -
  have "0 < sint (pfd_revents x) \<longleftrightarrow> pfd_revents x \<noteq> 0" if "x \<in> set xs" for x
    using assms [OF that] by (auto simp: order_less_le signed_eq_0_iff)
  then show ?thesis unfolding ready_fds_def filter_map by (simp add: comp_def cong: filter_cong)
qed

lemma watched_registered:
  assumes "poller_inv poll_watched conv distinct_fds p h" and "x \<in> set (backend p)"
  shows "\<exists>c. channels p (pfd_fd x) = Some c \<and> ch_fd (h c) = pfd_fd x"
proof -
  have "poll_watched (backend p) (pfd_fd x) \<noteq> None"
    using assms(2) by (auto simp: poll_watched_def map_of_eq_None_iff image_image)
  with assms(1) show ?thesis by (auto simp: poller_inv_def split: option.splits)
qed

lemma ready_fds_map2:
  assumes "length rs = length xs" and "list_all (\<lambda>r. 0 \<le> sint r) rs"
  shows "map pfd_fd (ready_fds (map2 (\<lambda>x r. x\<lparr>pfd_revents := r\<rparr>) xs rs))
      = map pfd_fd (map fst (filter (\<lambda>(x, r). r \<noteq> 0) (zip xs rs)))"
  using assms
proof (induction xs arbitrary: rs)
  case (Cons x xs)
  then obtain r rs' where "rs = r # rs'" by (cases rs) auto
  moreover have "0 < sint r \<longleftrightarrow> r \<noteq> 0" if "0 \<le> sint r" using that by (auto simp: order_less_le signed_eq_0_iff)
  ultimately show ?case using Cons by (auto simp: ready_fds_def)
qed (simp add: ready_fds_def)

lemma poller_inv_revents:
  assumes "poller_inv watched conv binv p h" and "\<And>c. \<exists>r. h' c = (h c)\<lparr>revents := r\<rparr>"
  shows "poller_inv watched conv binv p h'"
proof -
  have "ch_fd (h' c) = ch_fd (h c)" "status (h' c) = status (h c)" "events (h' c) = events (h c)" for c
    using assms(2) [of c] by auto
  with assms(1) show ?thesis by (auto simp: poller_inv_def split: option.splits)
qed

lemma registered_distinct:
  assumes "distinct (map pfd_fd ys)"
    and "\<And>y. y \<in> set ys \<Longrightarrow> \<exists>c. channels p (pfd_fd y) = Some c \<and> ch_fd (h c) = pfd_fd y"
  shows "distinct (map (\<lambda>y. the (channels p (pfd_fd y))) ys)"
  using assms
proof (induction ys)
  case (Cons y ys)
  have "the (channels p (pfd_fd y)) \<noteq> the (channels p (pfd_fd z))" if "z \<in> set ys" for z
  proof -
    have "pfd_fd z \<noteq> pfd_fd y" using Cons.prems(1) that
      by (metis distinct.simps(2) image_eqI list.set_map list.simps(9))
    with Cons.prems(2) [of y] Cons.prems(2) [of z] that show ?thesis by auto
  qed
  with Cons show ?case by auto
qed simp

lemma set_revents_at:
  "distinct (map (\<lambda>y. the (channels p (pfd_fd y))) ys) \<Longrightarrow> y \<in> set ys \<Longrightarrow>
     revents (set_revents p ys h (the (channels p (pfd_fd y)))) = scast (pfd_revents y)"
proof (induction ys arbitrary: h)
  case (Cons x ys)
  let ?c = "the (channels p (pfd_fd x))"
  let ?h = "h(?c := (h ?c)\<lparr>revents := scast (pfd_revents x)\<rparr>)"
  have step: "set_revents p (x # ys) h = set_revents p ys ?h" by (simp add: set_revents_def Let_def)
  show ?case
  proof (cases "y \<in> set ys")
    case True
    have "revents (set_revents p ys ?h (the (channels p (pfd_fd y)))) = scast (pfd_revents y)"
      using Cons.prems(1) True by (intro Cons.IH) simp_all
    then show ?thesis by (simp only: step)
  next
    case False
    then have "y = x" using Cons.prems(2) by simp
    moreover have "set_revents p ys ?h ?c = ?h ?c"
      using Cons.prems(1) by (intro set_revents_other) (auto simp: image_iff)
    ultimately show ?thesis by (simp add: step)
  qed
qed simp

section \<open>Properties\<close>

text \<open>C11: The poller watches what the channels ask for. Through any sequence of enabling, disabling and
  removing the events of channels that follows the protocol of the class, no assertion of
  \<^verbatim>\<open>PollPoller\<close> fails, and in every reached state a descriptor is watched, with exactly the events of
  its channel, if and only if a registered channel of status added has it; the registered
  channels are those whose status is not initial.\<close>

theorem poll_channels_consistent:
  assumes "poller_inv poll_watched (\<lambda>c e. ucast e) distinct_fds p h"
    and "legal_chan_ops poll_update_poll_events (p, h) xs"
  shows "\<exists>p' h'. run_chan_ops poll_update_poll_events (p, h) xs = Inr (p', h')
           \<and> poller_inv poll_watched (\<lambda>c e. ucast e) distinct_fds p' h'"
  using pp.run_chan_ops_ok [OF assms] .

theorem poll_channels_consistent_witness:
  "\<exists>p' h'. run_chan_ops poll_update_poll_events (\<lparr>channels = Map.empty, backend = []\<rparr>, \<lambda>c. new_channel (int c))
       [(3, Op_enable_read), (4, Op_enable_write), (3, Op_disable_all), (3, Op_remove)] = Inr (p', h')
     \<and> poller_inv poll_watched (\<lambda>c e. ucast e) distinct_fds p' h'"
proof -
  let ?p = "\<lparr>channels = Map.empty, backend = []\<rparr> :: pollfd list poller"
  let ?h = "\<lambda>c. new_channel (int c)"
  have "poller_inv poll_watched (\<lambda>c e. ucast e :: 16 word) distinct_fds ?p ?h"
    by (simp add: poller_inv_def distinct_fds_def poll_watched_def new_channel_def)
  moreover have "legal_chan_ops poll_update_poll_events (?p, ?h)
      [(3, Op_enable_read), (4, Op_enable_write), (3, Op_disable_all), (3, Op_remove)]"
    by (simp add: enable_read_event_def enable_write_event_def disable_all_event_def channel_update_def
        channel_remove_def remove_channel_def update_channel_def update_poll_def set_events_def set_status_def poll_update_poll_events_def
        new_channel_def poll_status_defs is_none_event_def kNoneEvent_def kReadEvent_def kWriteEvent_def
        POLLIN_def POLLPRI_def POLLOUT_def Let_def check_def)
  ultimately show ?thesis by (rule poll_channels_consistent)
qed

text \<open>The same for \<^verbatim>\<open>EPollPoller\<close>, on any kernel whose \<^verbatim>\<open>epoll_ctl\<close> adds absent descriptors and
  modifies and deletes present ones: no assertion fails, no call of \<^verbatim>\<open>epoll_ctl\<close> fails, and the
  interest list of the kernel is the one the channels ask for.\<close>

theorem epoll_channels_consistent:
  assumes "epoll_ctl_ok interest ctl" and "poller_inv interest (\<lambda>c e. (e, c)) (\<lambda>k. True) p h"
    and "legal_chan_ops (epoll_update_poll_events ctl) (p, h) xs"
  shows "\<exists>p' h'. run_chan_ops (epoll_update_poll_events ctl) (p, h) xs = Inr (p', h')
           \<and> poller_inv interest (\<lambda>c e. (e, c)) (\<lambda>k. True) p' h'"
proof -
  have "poller_inv interest (\<lambda>c e. (e, c)) (\<lambda>k. epoll_ctl_ok interest ctl) q g
      = poller_inv interest (\<lambda>c e. (e, c)) (\<lambda>k. True) q g" for q g
    using assms(1) by (simp add: poller_inv_def)
  with ep.run_chan_ops_ok [of interest ctl p h xs] assms(2,3) show ?thesis by simp
qed

text \<open>The epoll instance as its manual page describes it: a map from descriptors to events.\<close>

fun map_epoll_ctl :: "(int \<rightharpoonup> 32 word \<times> cid) epoll_ctl" where
  "map_epoll_ctl kPollCtlAdd fd e k = (if k fd = None then (0, k(fd \<mapsto> e)) else (-1, k))"
| "map_epoll_ctl kPollCtlMod fd e k = (if k fd \<noteq> None then (0, k(fd \<mapsto> e)) else (-1, k))"
| "map_epoll_ctl kPollCtlDel fd e k = (if k fd \<noteq> None then (0, k(fd := None)) else (-1, k))"

theorem epoll_channels_consistent_witness:
  "\<exists>p' h'. run_chan_ops (epoll_update_poll_events map_epoll_ctl)
       (\<lparr>channels = Map.empty, backend = Map.empty\<rparr>, \<lambda>c. new_channel (int c))
       [(3, Op_enable_read), (3, Op_enable_write), (3, Op_disable_all)] = Inr (p', h')
     \<and> poller_inv (\<lambda>k. k) (\<lambda>c e. (e, c)) (\<lambda>k. True) p' h'"
proof -
  let ?p = "\<lparr>channels = Map.empty, backend = Map.empty\<rparr> :: (int \<rightharpoonup> 32 word \<times> cid) poller"
  let ?h = "\<lambda>c. new_channel (int c)"
  have "epoll_ctl_ok (\<lambda>k. k) map_epoll_ctl" by (simp add: epoll_ctl_ok_def)
  moreover have "poller_inv (\<lambda>k. k) (\<lambda>c e. (e, c)) (\<lambda>k. True) ?p ?h"
    by (simp add: poller_inv_def new_channel_def)
  moreover have "legal_chan_ops (epoll_update_poll_events map_epoll_ctl) (?p, ?h)
      [(3, Op_enable_read), (3, Op_enable_write), (3, Op_disable_all)]"
    by (simp add: enable_read_event_def enable_write_event_def disable_all_event_def channel_update_def
        update_channel_def update_poll_def set_events_def set_status_def epoll_update_poll_events_def
        new_channel_def poll_status_defs is_none_event_def kNoneEvent_def kReadEvent_def kWriteEvent_def
        POLLIN_def POLLPRI_def POLLOUT_def Let_def check_def)
  ultimately show ?thesis by (rule epoll_channels_consistent)
qed

text \<open>\<^verbatim>\<open>PollPoller::poll\<close> loses no event and makes up none. When \<^verbatim>\<open>poll(2)\<close> reports the number of
  descriptors with events, the active channels are exactly those of these descriptors, in the
  order of the descriptors, each with the reported events, and the poller stays consistent.\<close>

theorem poll_delivers_events:
  assumes "poller_inv poll_watched (\<lambda>c e. ucast e) distinct_fds p h"
    and "sys_poll (backend p) = (num, revs)" and "length revs = length (backend p)"
    and "list_all (\<lambda>r. 0 \<le> sint r) revs" and "num = int (length (filter (\<lambda>r. r \<noteq> 0) revs))"
  shows "\<exists>h'. let ready = map fst (filter (\<lambda>(x, r). r \<noteq> 0) (zip (backend p) revs));
                  p' = p\<lparr>backend := map2 (\<lambda>x r. x\<lparr>pfd_revents := r\<rparr>) (backend p) revs\<rparr>
              in poll_poll sys_poll True p h = Inr (map (\<lambda>x. the (channels p (pfd_fd x))) ready, p', h')
                 \<and> poller_inv poll_watched (\<lambda>c e. ucast e) distinct_fds p' h'
                 \<and> list_all (\<lambda>(x, r). r \<noteq> 0 \<longrightarrow> revents (h' (the (channels p (pfd_fd x)))) = scast r)
                     (zip (backend p) revs)"
proof -
  let ?conv = "\<lambda>c e. ucast e :: 16 word"
  let ?ys = "map2 (\<lambda>x r. x\<lparr>pfd_revents := r\<rparr>) (backend p) revs"
  let ?p = "p\<lparr>backend := ?ys\<rparr>"
  let ?h = "set_revents ?p (ready_fds ?ys) h"
  note m2 = map2_revents [OF assms(3)]
  have d: "distinct (map pfd_fd ?ys)" using assms(1) m2 by (simp add: poller_inv_def distinct_fds_def)
  have inv0: "poller_inv poll_watched ?conv distinct_fds ?p h"
    using assms(1) m2 d by (simp add: poller_inv_def distinct_fds_def)
  have reg: "\<exists>c. channels ?p (pfd_fd y) = Some c \<and> ch_fd (h c) = pfd_fd y" if "y \<in> set ?ys" for y
    using watched_registered [OF inv0] that by simp
  have nonneg: "0 \<le> sint (pfd_revents y)" if "y \<in> set ?ys" for y
    using assms(4) m2 that by (metis (no_types, lifting) imageI list.set_map list_all_iff)
  have rc: "length (ready_fds ?ys) = length (filter (\<lambda>r. r \<noteq> 0) (map pfd_revents ?ys))"
    using nonneg by (rule ready_fds_count)
  have rs: "map pfd_revents ?ys = revs" using m2 by blast
  have num: "num = int (length (ready_fds ?ys))" unfolding assms(5) rc rs ..
  have "poll_poll sys_poll True p h
      = Inr (map (\<lambda>x. the (channels p (pfd_fd x))) (ready_fds ?ys), ?p, ?h)"
  proof (cases "num > 0")
    case True
    with poll_fill_active_channels_ok [of ?ys ?p h num] reg num show ?thesis
      by (simp add: poll_poll_def assms(2) Let_def)
  next
    case False
    then have "ready_fds ?ys = []" using num by simp
    with False show ?thesis by (simp add: poll_poll_def assms(2) set_revents_def)
  qed
  moreover have "poller_inv poll_watched ?conv distinct_fds ?p ?h"
    using inv0 by (rule poller_inv_revents) (rule set_revents_fields)
  moreover have "map pfd_fd (ready_fds ?ys) = map pfd_fd (map fst (filter (\<lambda>(x, r). r \<noteq> 0) (zip (backend p) revs)))"
    using ready_fds_map2 [OF assms(3,4)] .
  then have "map (\<lambda>x. the (channels p (pfd_fd x))) (ready_fds ?ys)
      = map (\<lambda>x. the (channels p (pfd_fd x))) (map fst (filter (\<lambda>(x, r). r \<noteq> 0) (zip (backend p) revs)))"
    by (drule_tac arg_cong [where f = "map (\<lambda>fd. the (channels p fd))"]) (simp add: comp_def)
  moreover have "revents (?h (the (channels p (pfd_fd x)))) = scast r"
    if "(x, r) \<in> set (zip (backend p) revs)" "r \<noteq> 0" for x r
  proof -
    let ?y = "x\<lparr>pfd_revents := r\<rparr>"
    have y: "?y \<in> set ?ys" using that(1) by force
    then have "?y \<in> set (ready_fds ?ys)"
      using nonneg [OF y] that(2) by (auto simp: ready_fds_def order_less_le signed_eq_0_iff)
    moreover have "distinct (map (\<lambda>y. the (channels ?p (pfd_fd y))) (ready_fds ?ys))"
      using registered_distinct [OF d reg] by (simp add: ready_fds_def distinct_map_filter)
    ultimately show ?thesis using set_revents_at [of ?p "ready_fds ?ys" ?y h] by simp
  qed
  ultimately show ?thesis
    by (intro exI [of _ ?h]) (auto simp: Let_def list_all_iff)
qed

theorem poll_delivers_events_witness:
  "\<exists>h'. poll_poll (\<lambda>xs. (1, [1])) True \<lparr>channels = [3 \<mapsto> 0], backend = [\<lparr>pfd_fd = 3, pfd_events = 3, pfd_revents = 0\<rparr>]\<rparr>
       ((\<lambda>c. new_channel 0)(0 := (new_channel 3)\<lparr>status := kChannelPollAdded, events := 3\<rparr>))
     = Inr ([0], \<lparr>channels = [3 \<mapsto> 0], backend = [\<lparr>pfd_fd = 3, pfd_events = 3, pfd_revents = 1\<rparr>]\<rparr>, h')
     \<and> revents (h' 0) = 1"
proof -
  let ?p = "\<lparr>channels = [3 \<mapsto> 0], backend = [\<lparr>pfd_fd = 3, pfd_events = 3, pfd_revents = 0\<rparr>]\<rparr>"
  let ?h = "(\<lambda>c. new_channel 0)(0 := (new_channel 3)\<lparr>status := kChannelPollAdded, events := 3\<rparr>)"
  have "poller_inv poll_watched (\<lambda>c e. ucast e) distinct_fds ?p ?h"
    by (simp add: poller_inv_def distinct_fds_def poll_watched_def new_channel_def poll_status_defs)
  from poll_delivers_events [OF this, of "\<lambda>xs. (1, [1])" 1 "[1]"] show ?thesis
    by (auto simp: Let_def)
qed

end
