(* ===== verification/Event_Loop.thy ===== *)
theory Event_Loop
  imports Annety_Prelude "HOL-Library.Sublist"
begin

text \<open>
  The event loop and its task queue (include/EventLoop.h, src/EventLoop.cc). One thread, the own
  thread, runs \<^verbatim>\<open>loop()\<close>; any thread may call \<^verbatim>\<open>queue_in_own_loop\<close>, \<^verbatim>\<open>run_in_own_loop\<close> and \<^verbatim>\<open>quit\<close>. The
  record has the shared fields of the class, the position of the own thread, the number of other
  threads between a store to the shared state and the \<^verbatim>\<open>wakeup()\<close> that follows it, and two ghost
  fields, the tasks ever queued and the tasks run. Each statement that takes the lock or accesses
  an atomic is one step of \<open>loop_step\<close>, so all interleavings of the threads are covered; what callbacks
  and tasks do is arbitrary, except that they act on the loop only through these operations.

  The wakeup descriptor (an \<^verbatim>\<open>eventfd\<close> or a pipe of the kernel) is a parameter with write, read and
  readiness; all that is assumed of it, \<open>event_fd_ok\<close>, is that it is readable after a write.
\<close>

section \<open>State\<close>

record 'k event_fd =
  efd_write :: "'k \<Rightarrow> 'k"
  efd_read :: "'k \<Rightarrow> 'k"
  efd_readable :: "'k \<Rightarrow> bool"

definition event_fd_ok :: "'k event_fd \<Rightarrow> bool" where
  "event_fd_ok e \<longleftrightarrow> (\<forall>k. efd_readable e (efd_write e k))"

text \<open>Where the own thread is: at the condition of the loop, in \<^verbatim>\<open>poll\<close>, handling the active channels
  (with the wakeup channel among them or not), before and after the swap of the task queue with
  the tasks still to run, or out of the loop.\<close>

datatype 'f own_pc =
    At_while
  | In_poll
  | Handling bool
  | Calling
  | Running "'f list"
  | Stopped

record ('f, 'k) event_loop =
  quit :: bool
  calling_wakeup_functors :: bool
  looping :: bool
  wakeup_functors :: "'f list"
  wakeup_socket :: 'k
  pc :: "'f own_pc"
  late_wakeups :: nat
  queued :: "'f list"
  executed :: "'f list"

section \<open>Operations\<close>

definition wakeup :: "'k event_fd \<Rightarrow> ('f, 'k) event_loop \<Rightarrow> ('f, 'k) event_loop" where
  "wakeup e s = s\<lparr>wakeup_socket := efd_write e (wakeup_socket s)\<rparr>"

definition handle_read :: "'k event_fd \<Rightarrow> ('f, 'k) event_loop \<Rightarrow> ('f, 'k) event_loop" where
  "handle_read e s = s\<lparr>wakeup_socket := efd_read e (wakeup_socket s)\<rparr>"

text \<open>The part of \<^verbatim>\<open>queue_in_own_loop\<close> under the lock, and the call as a whole by the own thread. By
  another thread it is the push followed, as a step of its own, by the wakeup.\<close>

definition push_functor :: "'f \<Rightarrow> ('f, 'k) event_loop \<Rightarrow> ('f, 'k) event_loop" where
  "push_functor cb s = s\<lparr>wakeup_functors := wakeup_functors s @ [cb], queued := queued s @ [cb]\<rparr>"

definition queue_in_own_loop ::
  "'k event_fd \<Rightarrow> bool \<Rightarrow> 'f \<Rightarrow> ('f, 'k) event_loop \<Rightarrow> ('f, 'k) event_loop" where
  "queue_in_own_loop e own cb s =
     (let s1 = push_functor cb s
      in if \<not> own \<or> calling_wakeup_functors s1 then wakeup e s1 else s1)"

definition run_in_own_loop ::
  "'k event_fd \<Rightarrow> bool \<Rightarrow> ('f \<Rightarrow> ('f, 'k) event_loop \<Rightarrow> ('f, 'k) event_loop) \<Rightarrow> 'f
     \<Rightarrow> ('f, 'k) event_loop \<Rightarrow> ('f, 'k) event_loop" where
  "run_in_own_loop e own call cb s = (if own then call cb s else queue_in_own_loop e own cb s)"

definition quit_loop :: "'k event_fd \<Rightarrow> bool \<Rightarrow> ('f, 'k) event_loop \<Rightarrow> ('f, 'k) event_loop" where
  "quit_loop e own s = (let s1 = s\<lparr>quit := True\<rparr> in if \<not> own then wakeup e s1 else s1)"

text \<open>The steps of \<^verbatim>\<open>do_calling_wakeup_functors\<close>: the flag is set, the queue is swapped under the lock, the
  tasks run one by one, the flag is cleared.\<close>

definition begin_calling :: "('f, 'k) event_loop \<Rightarrow> ('f, 'k) event_loop" where
  "begin_calling s = s\<lparr>pc := Calling, calling_wakeup_functors := True\<rparr>"

definition swap_functors :: "('f, 'k) event_loop \<Rightarrow> ('f, 'k) event_loop" where
  "swap_functors s = s\<lparr>pc := Running (wakeup_functors s), wakeup_functors := []\<rparr>"

definition call_functor :: "'f \<Rightarrow> 'f list \<Rightarrow> ('f, 'k) event_loop \<Rightarrow> ('f, 'k) event_loop" where
  "call_functor f fs s = s\<lparr>pc := Running fs, executed := executed s @ [f]\<rparr>"

definition finish_calling :: "('f, 'k) event_loop \<Rightarrow> ('f, 'k) event_loop" where
  "finish_calling s = s\<lparr>pc := At_while, calling_wakeup_functors := False\<rparr>"

section \<open>Steps\<close>

inductive loop_step :: "'k event_fd \<Rightarrow> ('f, 'k) event_loop \<Rightarrow> ('f, 'k) event_loop \<Rightarrow> bool" for e where
  \<comment> \<open>the own thread\<close>
  while_quit: "pc s = At_while \<Longrightarrow> quit s \<Longrightarrow> loop_step e s (s\<lparr>pc := Stopped, looping := False\<rparr>)"
| while_poll: "pc s = At_while \<Longrightarrow> \<not> quit s \<Longrightarrow> loop_step e s (s\<lparr>pc := In_poll\<rparr>)"
| poll_ready: "pc s = In_poll \<Longrightarrow> efd_readable e (wakeup_socket s) \<Longrightarrow>
    loop_step e s (s\<lparr>pc := Handling True\<rparr>)"
| poll_other: "pc s = In_poll \<Longrightarrow> \<not> efd_readable e (wakeup_socket s) \<Longrightarrow>
    loop_step e s (s\<lparr>pc := Handling False\<rparr>)"
| wakeup_read: "pc s = Handling True \<Longrightarrow> loop_step e s ((handle_read e s)\<lparr>pc := Handling False\<rparr>)"
| start_calling: "pc s = Handling False \<Longrightarrow>
    loop_step e s (begin_calling s)"
| swap: "pc s = Calling \<Longrightarrow> loop_step e s (swap_functors s)"
| run_functor: "pc s = Running (f # fs) \<Longrightarrow> loop_step e s (call_functor f fs s)"
| end_calling: "pc s = Running [] \<Longrightarrow>
    loop_step e s (finish_calling s)"
  \<comment> \<open>callbacks and tasks, in the own thread\<close>
| own_queue: "pc s = Handling b \<or> pc s = Running fs \<Longrightarrow> loop_step e s (queue_in_own_loop e True f s)"
| own_quit: "pc s = Handling b \<or> pc s = Running fs \<Longrightarrow> loop_step e s (quit_loop e True s)"
  \<comment> \<open>other threads\<close>
| other_push: "loop_step e s ((push_functor f s)\<lparr>late_wakeups := late_wakeups s + 1\<rparr>)"
| other_quit: "loop_step e s (s\<lparr>quit := True, late_wakeups := late_wakeups s + 1\<rparr>)"
| other_wakeup: "late_wakeups s > 0 \<Longrightarrow>
    loop_step e s ((wakeup e s)\<lparr>late_wakeups := late_wakeups s - 1\<rparr>)"

inductive_cases loop_stepE [elim]: "loop_step e s s'"

text \<open>The state in which \<^verbatim>\<open>loop()\<close> is entered: nothing was queued before.\<close>

definition initial_loop :: "'k \<Rightarrow> ('f, 'k) event_loop" where
  "initial_loop k = \<lparr>quit = False, calling_wakeup_functors = False, looping = True, wakeup_functors = [],
     wakeup_socket = k, pc = At_while, late_wakeups = 0, queued = [], executed = []\<rparr>"

section \<open>Invariant\<close>

fun running :: "'f own_pc \<Rightarrow> 'f list" where
  "running (Running fs) = fs"
| "running _ = []"

text \<open>The own thread will look at the queue again before it can block in \<^verbatim>\<open>poll\<close>.\<close>

fun before_swap :: "'f own_pc \<Rightarrow> bool" where
  "before_swap (Handling b) = True"
| "before_swap Calling = True"
| "before_swap Stopped = True"
| "before_swap _ = False"

definition woken :: "'k event_fd \<Rightarrow> ('f, 'k) event_loop \<Rightarrow> bool" where
  "woken e s \<longleftrightarrow> efd_readable e (wakeup_socket s) \<or> late_wakeups s > 0"

definition loop_inv :: "'k event_fd \<Rightarrow> ('f, 'k) event_loop \<Rightarrow> bool" where
  "loop_inv e s \<longleftrightarrow>
     queued s = executed s @ running (pc s) @ wakeup_functors s
     \<and> (calling_wakeup_functors s \<longleftrightarrow> pc s = Calling \<or> (\<exists>fs. pc s = Running fs))
     \<and> (wakeup_functors s \<noteq> [] \<longrightarrow> \<not> before_swap (pc s) \<longrightarrow> woken e s)
     \<and> (quit s \<longrightarrow> pc s = In_poll \<longrightarrow> woken e s)
     \<and> (looping s \<longleftrightarrow> pc s \<noteq> Stopped)"

lemmas calling_defs = begin_calling_def swap_functors_def call_functor_def finish_calling_def

lemmas loop_op_defs = wakeup_def handle_read_def push_functor_def queue_in_own_loop_def quit_loop_def Let_def
  calling_defs

lemma loop_inv_initial: "loop_inv e (initial_loop k)"
  by (simp add: loop_inv_def initial_loop_def)

lemma loop_inv_step: "event_fd_ok e \<Longrightarrow> loop_inv e s \<Longrightarrow> loop_step e s s' \<Longrightarrow> loop_inv e s'"
  by (erule loop_stepE) (auto simp: loop_inv_def woken_def loop_op_defs event_fd_ok_def)

lemma loop_inv_reachable:
  assumes "event_fd_ok e" and "(loop_step e)\<^sup>*\<^sup>* (initial_loop k) s"
  shows "loop_inv e s"
  using assms(2,1) by (induction rule: rtranclp_induct) (auto simp: loop_inv_initial intro: loop_inv_step)

section \<open>The own thread alone\<close>

text \<open>The next step of the own thread when nothing is queued or quit meanwhile.\<close>

definition own_next :: "'k event_fd \<Rightarrow> ('f, 'k) event_loop \<Rightarrow> ('f, 'k) event_loop" where
  "own_next e s =
     (case pc s of
        At_while \<Rightarrow> if quit s then s\<lparr>pc := Stopped, looping := False\<rparr> else s\<lparr>pc := In_poll\<rparr>
      | In_poll \<Rightarrow> s\<lparr>pc := Handling (efd_readable e (wakeup_socket s))\<rparr>
      | Handling True \<Rightarrow> (handle_read e s)\<lparr>pc := Handling False\<rparr>
      | Handling False \<Rightarrow> begin_calling s
      | Calling \<Rightarrow> swap_functors s
      | Running [] \<Rightarrow> finish_calling s
      | Running (f # fs) \<Rightarrow> call_functor f fs s
      | Stopped \<Rightarrow> s)"

lemma own_next_step: "pc s \<noteq> Stopped \<Longrightarrow> loop_step e s (own_next e s)"
  by (cases "efd_readable e (wakeup_socket s)")
     (auto simp: own_next_def intro: loop_step.intros split: own_pc.split bool.split list.split)

lemma own_next_reaches: "(loop_step e)\<^sup>*\<^sup>* s ((own_next e ^^ n) s)"
proof (induction n)
  case (Suc n)
  show ?case
  proof (cases "pc ((own_next e ^^ n) s) = Stopped")
    case True
    then have "own_next e ((own_next e ^^ n) s) = (own_next e ^^ n) s" by (simp add: own_next_def)
    with Suc show ?thesis by simp
  next
    case False
    with Suc own_next_step show ?thesis by (auto intro: rtranclp.rtrancl_into_rtrancl)
  qed
qed simp

lemma run_functors:
  "pc s = Running fs \<Longrightarrow>
     (own_next e ^^ length fs) s = s\<lparr>pc := Running [], executed := executed s @ fs\<rparr>"
proof (induction fs arbitrary: s)
  case (Cons f fs)
  then have "(own_next e ^^ length (f # fs)) s = (own_next e ^^ length fs) (s\<lparr>pc := Running fs, executed := executed s @ [f]\<rparr>)"
    by (simp add: funpow_Suc_right own_next_def calling_defs del: funpow.simps)
  with Cons.IH show ?case by simp
qed simp

lemma own_next_round:
  assumes "pc s = In_poll" and "efd_readable e (wakeup_socket s)"
  shows "(own_next e ^^ (length (wakeup_functors s) + 5)) s =
    s\<lparr>wakeup_socket := efd_read e (wakeup_socket s), wakeup_functors := [], calling_wakeup_functors := False,
      pc := At_while, executed := executed s @ wakeup_functors s\<rparr>"
proof -
  let ?n = "length (wakeup_functors s)"
  let ?s4 = "s\<lparr>wakeup_socket := efd_read e (wakeup_socket s), calling_wakeup_functors := True,
    pc := Running (wakeup_functors s), wakeup_functors := []\<rparr>"
  have "(own_next e ^^ 4) s = ?s4"
    using assms by (simp add: numeral_eq_Suc own_next_def handle_read_def calling_defs)
  moreover have "(own_next e ^^ (1 + (?n + 4))) s = own_next e ((own_next e ^^ ?n) ((own_next e ^^ 4) s))"
    by (simp only: funpow_add comp_apply) simp
  moreover have "1 + (?n + 4) = ?n + 5" by simp
  ultimately have "(own_next e ^^ (?n + 5)) s = own_next e ((own_next e ^^ ?n) ?s4)" by metis
  then show ?thesis by (simp add: run_functors own_next_def calling_defs)
qed

section \<open>Properties\<close>

text \<open>C2: No wakeup is lost and no task is lost, repeated or reordered. In every state the loop can reach
  under any interleaving with other threads, the tasks ever queued are, in order, those already
  run, those taken for running and those still in the queue; and when the own thread is in
  \<^verbatim>\<open>poll\<close> while a task is queued or the loop was told to quit, the wakeup descriptor is readable or
  another thread is about to write to it.\<close>

theorem no_lost_wakeup:
  assumes "event_fd_ok e" and "(loop_step e)\<^sup>*\<^sup>* (initial_loop k) s"
  shows "queued s = executed s @ running (pc s) @ wakeup_functors s
    \<and> (pc s = In_poll \<longrightarrow> wakeup_functors s \<noteq> [] \<or> quit s \<longrightarrow>
         efd_readable e (wakeup_socket s) \<or> late_wakeups s > 0)"
  using loop_inv_reachable [OF assms] by (auto simp: loop_inv_def woken_def)

text \<open>An \<^verbatim>\<open>eventfd\<close> as its manual page describes it: a counter, readable when positive.\<close>

definition counter_fd :: "nat event_fd" where
  "counter_fd = \<lparr>efd_write = (\<lambda>n. n + 1), efd_read = (\<lambda>n. 0), efd_readable = (\<lambda>n. n > 0)\<rparr>"

theorem no_lost_wakeup_witness:
  "\<exists>s :: (nat, nat) event_loop. (loop_step counter_fd)\<^sup>*\<^sup>* (initial_loop 0) s \<and> pc s = In_poll \<and> wakeup_functors s = [7]
     \<and> queued s = executed s @ running (pc s) @ wakeup_functors s
     \<and> (efd_readable counter_fd (wakeup_socket s) \<or> late_wakeups s > 0)"
proof -
  let ?s0 = "initial_loop 0 :: (nat, nat) event_loop"
  let ?s1 = "?s0\<lparr>pc := In_poll\<rparr>"
  let ?s2 = "(push_functor 7 ?s1)\<lparr>late_wakeups := late_wakeups ?s1 + 1\<rparr>"
  have "loop_step counter_fd ?s0 ?s1" by (rule while_poll) (simp_all add: initial_loop_def)
  moreover have "loop_step counter_fd ?s1 ?s2" by (rule other_push)
  ultimately have reach: "(loop_step counter_fd)\<^sup>*\<^sup>* ?s0 ?s2" by (meson converse_rtranclp_into_rtranclp rtranclp.rtrancl_refl)
  have "event_fd_ok counter_fd" by (simp add: event_fd_ok_def counter_fd_def)
  from no_lost_wakeup [OF this reach] reach show ?thesis
    by (intro exI [of _ ?s2]) (simp add: push_functor_def initial_loop_def)
qed

text \<open>C24: Queued tasks are run. When the own thread is in \<^verbatim>\<open>poll\<close>, tasks are queued, and no other thread
  is in the middle of a call, then \<^verbatim>\<open>poll\<close> returns at once because of the wakeup descriptor, and one
  round of the loop by the own thread runs exactly these tasks, in order, and empties the queue.\<close>

theorem queued_tasks_run:
  fixes s :: "('f, 'k) event_loop"
  assumes "event_fd_ok e" and "(loop_step e)\<^sup>*\<^sup>* (initial_loop k) s"
    and "pc s = In_poll" and "wakeup_functors s \<noteq> []" and "late_wakeups s = 0"
  shows "efd_readable e (wakeup_socket s)
    \<and> (\<exists>n s'. s' = (own_next e ^^ n) s \<and> (loop_step e)\<^sup>*\<^sup>* s s' \<and> pc s' = At_while
         \<and> executed s' = executed s @ wakeup_functors s \<and> wakeup_functors s' = [])"
proof -
  have rd: "efd_readable e (wakeup_socket s)"
    using loop_inv_reachable [OF assms(1,2)] assms(3-5) by (auto simp: loop_inv_def woken_def)
  let ?n = "length (wakeup_functors s) + 5"
  from own_next_round [OF assms(3) rd] own_next_reaches [of e s ?n] rd show ?thesis
    by (intro conjI exI [of _ ?n]) simp_all
qed

theorem queued_tasks_run_witness:
  "\<exists>s :: (nat, nat) event_loop. pc s = In_poll \<and> wakeup_functors s = [7] \<and> efd_readable counter_fd (wakeup_socket s)
     \<and> (\<exists>n s'. s' = (own_next counter_fd ^^ n) s \<and> (loop_step counter_fd)\<^sup>*\<^sup>* s s' \<and> pc s' = At_while
          \<and> executed s' = executed s @ wakeup_functors s \<and> wakeup_functors s' = [])"
proof -
  let ?s0 = "initial_loop 0 :: (nat, nat) event_loop"
  let ?s1 = "?s0\<lparr>pc := In_poll\<rparr>"
  let ?s2 = "(push_functor 7 ?s1)\<lparr>late_wakeups := late_wakeups ?s1 + 1\<rparr>"
  let ?s3 = "(wakeup counter_fd ?s2)\<lparr>late_wakeups := late_wakeups ?s2 - 1\<rparr>"
  have "loop_step counter_fd ?s0 ?s1" by (rule while_poll) (simp_all add: initial_loop_def)
  moreover have "loop_step counter_fd ?s1 ?s2" by (rule other_push)
  moreover have "loop_step counter_fd ?s2 ?s3" by (rule other_wakeup) simp
  ultimately have reach: "(loop_step counter_fd)\<^sup>*\<^sup>* ?s0 ?s3"
    by (meson converse_rtranclp_into_rtranclp rtranclp.rtrancl_refl)
  have ok: "event_fd_ok counter_fd" by (simp add: event_fd_ok_def counter_fd_def)
  have s3: "pc ?s3 = In_poll" "wakeup_functors ?s3 = [7]" "late_wakeups ?s3 = 0"
    by (simp_all add: push_functor_def wakeup_def initial_loop_def)
  from s3(2) have "wakeup_functors ?s3 \<noteq> []" by (simp only: list.distinct) simp
  from queued_tasks_run [OF ok reach s3(1) this s3(3)] s3 show ?thesis by (intro exI [of _ ?s3]) blast
qed

end
