(* ===== verification/Time_Stamp.thy ===== *)
theory Time_Stamp
  imports Annety_Prelude "HOL-Library.Signed_Division"
begin

text \<open>
  Time (include/TimeStamp.h, src/TimeStamp.cc). A \<^verbatim>\<open>TimeDelta\<close> and a \<^verbatim>\<open>TimeStamp\<close> are a number of
  microseconds in an \<^verbatim>\<open>int64_t\<close>; here they are an \<^typ>\<open>int\<close>, and arithmetic that leaves the range of
  \<^verbatim>\<open>int64_t\<close> is the fault \<open>Signed_overflow\<close>. Division is that of C++, which truncates (\<open>sdiv\<close>, \<open>smod\<close>).
  The calendar functions of the C library (\<^verbatim>\<open>gmtime_r\<close>, \<^verbatim>\<open>localtime_r\<close>, \<^verbatim>\<open>timegm\<close>, \<^verbatim>\<open>mktime\<close>) are a parameter.
  The conversions from and to \<^verbatim>\<open>double\<close> are not modelled.
\<close>

section \<open>64-bit arithmetic\<close>

definition kInt64Max :: int where "kInt64Max = 2 ^ 63 - 1"
definition kInt64Min :: int where "kInt64Min = - (2 ^ 63)"

definition in_int64 :: "int \<Rightarrow> bool" where
  "in_int64 i \<longleftrightarrow> kInt64Min \<le> i \<and> i \<le> kInt64Max"

definition i64 :: "int \<Rightarrow> int res" where
  "i64 i = (if in_int64 i then Inr i else Inl Signed_overflow)"

definition kMillisecondsPerSecond :: int where "kMillisecondsPerSecond = 1000"
definition kMicrosecondsPerMillisecond :: int where "kMicrosecondsPerMillisecond = 1000"
definition kMicrosecondsPerSecond :: int where "kMicrosecondsPerSecond = 1000000"
definition kMicrosecondsPerMinute :: int where "kMicrosecondsPerMinute = kMicrosecondsPerSecond * 60"
definition kMicrosecondsPerHour :: int where "kMicrosecondsPerHour = kMicrosecondsPerMinute * 60"
definition kMicrosecondsPerDay :: int where "kMicrosecondsPerDay = kMicrosecondsPerHour * 24"
definition kNanosecondsPerMicrosecond :: int where "kNanosecondsPerMicrosecond = 1000"
definition kNanosecondsPerSecond :: int where
  "kNanosecondsPerSecond = kNanosecondsPerMicrosecond * kMicrosecondsPerSecond"

lemmas time_consts = kMillisecondsPerSecond_def kMicrosecondsPerMillisecond_def kMicrosecondsPerSecond_def
  kMicrosecondsPerMinute_def kMicrosecondsPerHour_def kMicrosecondsPerDay_def kNanosecondsPerMicrosecond_def
  kNanosecondsPerSecond_def

lemmas int64_defs = in_int64_def i64_def kInt64Max_def kInt64Min_def

section \<open>\<^verbatim>\<open>TimeDelta\<close>\<close>

definition from_product :: "int \<Rightarrow> int \<Rightarrow> int res" where
  "from_product v pos =
     (if v > kInt64Max sdiv pos then Inr kInt64Max
      else if v < kInt64Min sdiv pos then Inr kInt64Min
      else i64 (v * pos))"

definition kIntMax :: int where "kIntMax = 2 ^ 31 - 1"

definition from_days :: "int \<Rightarrow> int res" where
  "from_days days = (if days = kIntMax then Inr kInt64Max else i64 (days * kMicrosecondsPerDay))"

definition from_hours :: "int \<Rightarrow> int res" where
  "from_hours hours = (if hours = kIntMax then Inr kInt64Max else i64 (hours * kMicrosecondsPerHour))"

definition from_minutes :: "int \<Rightarrow> int res" where
  "from_minutes minutes = (if minutes = kIntMax then Inr kInt64Max else i64 (minutes * kMicrosecondsPerMinute))"

definition from_seconds :: "int \<Rightarrow> int res" where
  "from_seconds secs = from_product secs kMicrosecondsPerSecond"

definition from_milliseconds :: "int \<Rightarrow> int res" where
  "from_milliseconds ms = from_product ms kMicrosecondsPerMillisecond"

definition from_microseconds :: "int \<Rightarrow> int" where
  "from_microseconds us = us"

definition divide_or_max :: "int \<Rightarrow> int \<Rightarrow> int \<Rightarrow> int" where
  "divide_or_max tmax delta divisor = (if delta = kInt64Max then tmax else delta sdiv divisor)"

definition in_seconds :: "int \<Rightarrow> int" where
  "in_seconds delta = divide_or_max kInt64Max delta kMicrosecondsPerSecond"

definition in_milliseconds :: "int \<Rightarrow> int" where
  "in_milliseconds delta = divide_or_max kInt64Max delta kMicrosecondsPerMillisecond"

definition in_microseconds :: "int \<Rightarrow> int" where
  "in_microseconds delta = divide_or_max kInt64Max delta 1"

text \<open>The units whose type is \<^verbatim>\<open>int\<close>: the quotient is converted to 32 bits.\<close>

definition to_int32 :: "int \<Rightarrow> int" where
  "to_int32 i = sint (word_of_int i :: 32 word)"

definition in_days :: "int \<Rightarrow> int" where
  "in_days delta = (if delta = kInt64Max then kIntMax else to_int32 (delta sdiv kMicrosecondsPerDay))"

definition in_hours :: "int \<Rightarrow> int" where
  "in_hours delta = (if delta = kInt64Max then kIntMax else to_int32 (delta sdiv kMicrosecondsPerHour))"

definition in_minutes :: "int \<Rightarrow> int" where
  "in_minutes delta = (if delta = kInt64Max then kIntMax else to_int32 (delta sdiv kMicrosecondsPerMinute))"

definition delta_add :: "int \<Rightarrow> int \<Rightarrow> int res" where
  "delta_add a b = i64 (a + b)"

definition delta_sub :: "int \<Rightarrow> int \<Rightarrow> int res" where
  "delta_sub a b = i64 (a - b)"

definition delta_neg :: "int \<Rightarrow> int res" where
  "delta_neg a = i64 (- a)"

record timespec =
  tv_sec :: int
  tv_nsec :: int

record timeval =
  tval_sec :: int
  tval_usec :: int

definition delta_from_timespec :: "timespec \<Rightarrow> int res" where
  "delta_from_timespec ts =
     bindR (i64 (tv_sec ts * kMicrosecondsPerSecond)) (\<lambda>us.
       i64 (us + tv_nsec ts sdiv kNanosecondsPerMicrosecond))"

definition split_seconds :: "int \<Rightarrow> (int \<times> int) res" where
  "split_seconds delta =
     (let us = in_microseconds delta
      in if us \<ge> kMicrosecondsPerSecond
         then bindR (i64 (in_seconds delta * kMicrosecondsPerSecond)) (\<lambda>m.
              bindR (i64 (us - m)) (\<lambda>us'. Inr (in_seconds delta, us')))
         else Inr (0, us))"

definition delta_to_timespec :: "int \<Rightarrow> timespec res" where
  "delta_to_timespec delta =
     bindR (split_seconds delta) (\<lambda>(seconds, us).
     bindR (i64 (us * kNanosecondsPerMicrosecond)) (\<lambda>ns.
     Inr \<lparr>tv_sec = seconds, tv_nsec = ns\<rparr>))"

definition delta_from_timeval :: "timeval \<Rightarrow> int res" where
  "delta_from_timeval tv =
     bindR (i64 (tval_sec tv * kMicrosecondsPerSecond)) (\<lambda>us. i64 (us + tval_usec tv))"

definition delta_to_timeval :: "int \<Rightarrow> timeval res" where
  "delta_to_timeval delta =
     bindR (split_seconds delta) (\<lambda>(seconds, us). Inr \<lparr>tval_sec = seconds, tval_usec = us\<rparr>)"

section \<open>\<^verbatim>\<open>TimeStamp\<close>\<close>

definition time_diff :: "int \<Rightarrow> int \<Rightarrow> int res" where
  "time_diff us other = i64 (us - other)"

definition time_add :: "int \<Rightarrow> int \<Rightarrow> int res" where
  "time_add us delta = i64 (us + delta)"

definition time_sub :: "int \<Rightarrow> int \<Rightarrow> int res" where
  "time_sub us delta = i64 (us - delta)"

definition from_time_t :: "int \<Rightarrow> int res" where
  "from_time_t tt =
     (if tt = 0 then Inr 0 else if tt = kInt64Max then Inr kInt64Max
      else bindR (from_seconds tt) (\<lambda>d. time_add 0 d))"

definition to_time_t :: "int \<Rightarrow> int" where
  "to_time_t us =
     (if us = 0 then 0 else if us = kInt64Max then kInt64Max
      else if kInt64Max \<le> us then kInt64Max
      else us sdiv kMicrosecondsPerSecond)"

definition from_timeval :: "timeval \<Rightarrow> int res" where
  "from_timeval tv = check (tval_usec tv < kMicrosecondsPerSecond) (check (tval_usec tv \<ge> 0)
     (if tval_usec tv = 0 \<and> tval_sec tv = 0 then Inr 0
      else if tval_usec tv = kMicrosecondsPerSecond - 1 \<and> tval_sec tv = kInt64Max then Inr kInt64Max
      else bindR (i64 (tval_sec tv * kMicrosecondsPerSecond)) (\<lambda>us. i64 (us + tval_usec tv))))"

definition to_timeval :: "int \<Rightarrow> timeval" where
  "to_timeval us =
     (if us = 0 then \<lparr>tval_sec = 0, tval_usec = 0\<rparr>
      else if us = kInt64Max then \<lparr>tval_sec = kInt64Max, tval_usec = kMicrosecondsPerSecond - 1\<rparr>
      else \<lparr>tval_sec = us sdiv kMicrosecondsPerSecond, tval_usec = us smod kMicrosecondsPerSecond\<rparr>)"

definition to_timespec :: "int \<Rightarrow> timespec" where
  "to_timespec us =
     (if us = 0 then \<lparr>tv_sec = 0, tv_nsec = 0\<rparr>
      else if us = kInt64Max then \<lparr>tv_sec = kInt64Max, tv_nsec = kNanosecondsPerSecond - 1\<rparr>
      else \<lparr>tv_sec = us sdiv kMicrosecondsPerSecond,
            tv_nsec = (us smod kMicrosecondsPerSecond) * kNanosecondsPerMicrosecond\<rparr>)"

section \<open>Exploded times\<close>

record tm =
  tm_sec :: int
  tm_min :: int
  tm_hour :: int
  tm_mday :: int
  tm_mon :: int
  tm_year :: int
  tm_wday :: int
  tm_isdst :: int

record exploded =
  year :: int
  month :: int
  day_of_week :: int
  day_of_month :: int
  hour :: int
  minute :: int
  second :: int
  millisecond :: int

text \<open>The calendar of the C library: \<open>to_tm\<close> is \<^verbatim>\<open>localtime_r\<close> or \<^verbatim>\<open>gmtime_r\<close>, \<open>from_tm\<close> is \<^verbatim>\<open>mktime\<close> or
  \<^verbatim>\<open>timegm\<close>.\<close>

record calendar =
  to_tm :: "bool \<Rightarrow> int \<Rightarrow> tm"
  from_tm :: "bool \<Rightarrow> tm \<Rightarrow> int"

definition floor_parts :: "int \<Rightarrow> (int \<times> int) res" where
  "floor_parts us =
     (if us \<ge> 0 then
        let milliseconds = us sdiv kMicrosecondsPerMillisecond
        in Inr (milliseconds sdiv kMillisecondsPerSecond, milliseconds smod kMillisecondsPerSecond)
      else
        bindR (i64 (us - kMicrosecondsPerMillisecond)) (\<lambda>d.
          let milliseconds = (d + 1) sdiv kMicrosecondsPerMillisecond;
              seconds = (milliseconds - kMillisecondsPerSecond + 1) sdiv kMillisecondsPerSecond;
              ms = milliseconds smod kMillisecondsPerSecond
          in Inr (seconds, if ms < 0 then ms + kMillisecondsPerSecond else ms)))"

definition to_explode :: "calendar \<Rightarrow> bool \<Rightarrow> int \<Rightarrow> exploded res" where
  "to_explode cal is_local us =
     bindR (floor_parts us) (\<lambda>(seconds, ms).
       let ts = to_tm cal is_local seconds
       in Inr \<lparr>year = tm_year ts + 1900, month = tm_mon ts + 1, day_of_week = tm_wday ts,
            day_of_month = tm_mday ts, hour = tm_hour ts, minute = tm_min ts, second = tm_sec ts,
            millisecond = ms\<rparr>)"

definition exploded_mostly_equals :: "exploded \<Rightarrow> exploded \<Rightarrow> bool" where
  "exploded_mostly_equals lhs rhs \<longleftrightarrow>
     year lhs = year rhs \<and> month lhs = month rhs \<and> day_of_month lhs = day_of_month rhs
     \<and> hour lhs = hour rhs \<and> minute lhs = minute rhs \<and> second lhs = second rhs
     \<and> millisecond lhs = millisecond rhs"

definition exploded_seconds :: "calendar \<Rightarrow> bool \<Rightarrow> exploded \<Rightarrow> int" where
  "exploded_seconds cal is_local ex =
     (let ts = \<lparr>tm_sec = second ex, tm_min = minute ex, tm_hour = hour ex, tm_mday = day_of_month ex,
                tm_mon = month ex - 1, tm_year = year ex - 1900, tm_wday = day_of_week ex, tm_isdst = -1\<rparr>;
          seconds = from_tm cal is_local ts
      in if seconds = -1 then
           let s0 = from_tm cal is_local (ts\<lparr>tm_isdst := 0\<rparr>);
               s1 = from_tm cal is_local (ts\<lparr>tm_isdst := 1\<rparr>)
           in if s0 < 0 then s1 else if s1 < 0 then s0 else min s0 s1
         else seconds)"

text \<open>\<^verbatim>\<open>time_t\<close> has 64 bits, so the clamped seconds are the limits of \<^verbatim>\<open>int32_t\<close>. The result is whether the
  conversion succeeded, and the time.\<close>

definition from_exploded :: "calendar \<Rightarrow> bool \<Rightarrow> exploded \<Rightarrow> (bool \<times> int) res" where
  "from_exploded cal is_local ex =
     (let seconds = exploded_seconds cal is_local ex in
      bindR (if seconds = -1 \<and> (year ex < 1969 \<or> year ex > 1970) then
               Inr (if year ex < 1969 then - (2 ^ 31) * kMillisecondsPerSecond
                    else (2 ^ 31 - 1) * kMillisecondsPerSecond + (kMillisecondsPerSecond - 1))
             else bindR (i64 (seconds * kMillisecondsPerSecond)) (\<lambda>m. i64 (m + millisecond ex))) (\<lambda>milliseconds.
      bindR (i64 (milliseconds * kMicrosecondsPerMillisecond)) (\<lambda>us.
      bindR (to_explode cal is_local us) (\<lambda>back.
      Inr (if exploded_mostly_equals back ex then (True, us) else (False, 0))))))"

definition midnight :: "calendar \<Rightarrow> bool \<Rightarrow> int \<Rightarrow> int res" where
  "midnight cal is_local us =
     bindR (to_explode cal is_local us) (\<lambda>ex.
     bindR (from_exploded cal is_local (ex\<lparr>hour := 0, minute := 0, second := 0, millisecond := 0\<rparr>)) (\<lambda>(ok, t).
     check ok (Inr t)))"

definition exploded_is_valid :: "exploded \<Rightarrow> bool" where
  "exploded_is_valid ex \<longleftrightarrow>
     month ex \<in> {1..12} \<and> day_of_week ex \<in> {0..6} \<and> day_of_month ex \<in> {1..31} \<and> hour ex \<in> {0..23}
     \<and> minute ex \<in> {0..59} \<and> second ex \<in> {0..60} \<and> millisecond ex \<in> {0..999}"

section \<open>Truncation and rounding\<close>

lemma sdiv_nonneg: "0 \<le> a \<Longrightarrow> 0 < b \<Longrightarrow> a sdiv b = a div b" for a b :: int
  by (cases "a = 0") (simp_all add: signed_divide_int_def)

lemma smod_nonneg: "0 \<le> a \<Longrightarrow> 0 < b \<Longrightarrow> a smod b = a mod b" for a b :: int
  by (cases "a = 0") (simp_all add: signed_modulo_int_def)

lemma sdiv_neg: "a < 0 \<Longrightarrow> 0 < b \<Longrightarrow> a sdiv b = - ((- a) div b)" for a b :: int
  by (simp add: signed_divide_int_def)

lemma div_less_mult: "0 < b \<Longrightarrow> a div b < c \<Longrightarrow> a < c * b" for a b c :: int
proof -
  assume "0 < b" "a div b < c"
  then have "(a div b + 1) * b \<le> c * b" by (intro mult_right_mono) simp_all
  moreover have "a < (a div b + 1) * b"
  proof -
    have "b * (a div b) + a mod b = a" by (rule mult_div_mod_eq)
    moreover have "(a div b + 1) * b = b * (a div b) + b" by (simp add: algebra_simps)
    ultimately show ?thesis using pos_mod_bound [OF \<open>0 < b\<close>, of a] by linarith
  qed
  ultimately show "a < c * b" by linarith
qed

lemma le_div_mult: "0 < b \<Longrightarrow> c \<le> a div b \<Longrightarrow> c * b \<le> a" for a b c :: int
proof -
  assume "0 < b" "c \<le> a div b"
  then have "c * b \<le> (a div b) * b" by (intro mult_right_mono) simp_all
  also have "\<dots> \<le> a" using pos_mod_sign [OF \<open>0 < b\<close>, of a] by (metis add_le_same_cancel1 div_mult_mod_eq add.commute le_add_same_cancel1)
  finally show "c * b \<le> a" .
qed

lemma from_product_saturates:
  assumes "0 < pos" and "in_int64 v"
  shows "from_product v pos = Inr (max kInt64Min (min kInt64Max (v * pos)))"
proof -
  have mx: "kInt64Max sdiv pos = kInt64Max div pos" and mn: "kInt64Min sdiv pos = - ((- kInt64Min) div pos)"
    using assms(1) by (simp_all add: sdiv_nonneg sdiv_neg kInt64Max_def kInt64Min_def)
  have lim: "kInt64Min < 0" "0 < kInt64Max" by (simp_all add: kInt64Max_def kInt64Min_def)
  have q: "0 \<le> kInt64Max div pos" "0 \<le> (- kInt64Min) div pos"
    using assms(1) lim by (simp_all add: pos_imp_zdiv_nonneg_iff)
  consider (high) "kInt64Max div pos < v" | (low) "v < - ((- kInt64Min) div pos)"
    | (fits) "v \<le> kInt64Max div pos" "- ((- kInt64Min) div pos) \<le> v" by linarith
  then show ?thesis
  proof cases
    case high
    then have "kInt64Max < v * pos" using assms(1) by (simp add: div_less_mult)
    with high lim show ?thesis by (simp add: from_product_def mx)
  next
    case low
    then have "(- kInt64Min) div pos < - v" by linarith
    from div_less_mult [OF assms(1) this] have "v * pos < kInt64Min" by simp
    with low q lim show ?thesis by (simp add: from_product_def mx mn)
  next
    case fits
    have "v * pos \<le> kInt64Max" using le_div_mult [OF assms(1) fits(1)] .
    moreover have "- v \<le> (- kInt64Min) div pos" using fits(2) by linarith
    from le_div_mult [OF assms(1) this] have "kInt64Min \<le> v * pos" by simp
    ultimately show ?thesis using fits by (simp add: from_product_def mx mn i64_def in_int64_def)
  qed
qed

lemma ceiling_div: "0 < b \<Longrightarrow> - ((- a + (b - 1)) div b) = a div b" for a b :: int
proof -
  assume "0 < b"
  have eq: "- a + (b - 1) = (b - 1 - a mod b) + (- (a div b)) * b"
    using mult_div_mod_eq [of b a] by (simp add: algebra_simps)
  have "(- a + (b - 1)) div b = - (a div b) + (b - 1 - a mod b) div b"
    unfolding eq using \<open>0 < b\<close> by (intro div_mult_self1) simp
  moreover have "(b - 1 - a mod b) div b = 0"
    using pos_mod_bound [OF \<open>0 < b\<close>, of a] pos_mod_sign [OF \<open>0 < b\<close>, of a]
    by (intro div_pos_pos_trivial) linarith+
  ultimately show ?thesis by simp
qed

lemma smod_neg: "a < 0 \<Longrightarrow> 0 < b \<Longrightarrow>
   (if a smod b < 0 then a smod b + b else a smod b) = a mod b" for a b :: int
proof -
  assume "a < 0" "0 < b"
  then have "a smod b = - ((- a) mod b)" by (simp add: signed_modulo_int_def)
  moreover have "a mod b = (if (- a) mod b = 0 then 0 else b - (- a) mod b)"
    using zmod_zminus1_eq_if [of "- a" b] by simp
  moreover have "0 \<le> (- a) mod b" using \<open>0 < b\<close> by simp
  ultimately show ?thesis by auto
qed

lemma floor_parts_eq:
  assumes "in_int64 (us - 1000)" and "in_int64 us"
  shows "floor_parts us = Inr (us div 1000000, us div 1000 mod 1000)"
proof (cases "us \<ge> 0")
  case True
  then have "us div 1000 div 1000 = us div 1000000" by (simp add: zdiv_zmult2_eq [symmetric])
  with True show ?thesis by (simp add: floor_parts_def time_consts sdiv_nonneg smod_nonneg pos_imp_zdiv_nonneg_iff)
next
  case False
  define q where "q = us div 1000"
  have "(us - 1000 + 1) sdiv 1000 = - ((- us + (1000 - 1)) div 1000)" using False by (simp add: sdiv_neg)
  then have q: "(us - 1000 + 1) sdiv 1000 = q" by (simp only: ceiling_div q_def)
  have neg: "q < 0" using False by (simp add: q_def)
  have "(q - 1000 + 1) sdiv 1000 = - ((- q + (1000 - 1)) div 1000)" using neg by (simp add: sdiv_neg)
  also have "\<dots> = q div 1000" by (simp only: ceiling_div)
  also have "\<dots> = us div 1000000" unfolding q_def by (simp add: zdiv_zmult2_eq [symmetric])
  finally have sec: "(q - 1000 + 1) sdiv 1000 = us div 1000000" .
  from False q sec assms smod_neg [OF neg, of 1000] show ?thesis
    by (simp add: floor_parts_def time_consts i64_def Let_def q_def [symmetric] split: if_splits)
qed

definition calendar_ok :: "calendar \<Rightarrow> bool" where
  "calendar_ok cal \<longleftrightarrow>
     (\<forall>t d. from_tm cal False ((to_tm cal False t)\<lparr>tm_isdst := d\<rparr>) = t)
     \<and> tm_year (to_tm cal False (-1)) = 69"

definition explode_of :: "calendar \<Rightarrow> int \<Rightarrow> int \<Rightarrow> exploded" where
  "explode_of cal seconds ms =
     (let ts = to_tm cal False seconds
      in \<lparr>year = tm_year ts + 1900, month = tm_mon ts + 1, day_of_week = tm_wday ts,
          day_of_month = tm_mday ts, hour = tm_hour ts, minute = tm_min ts, second = tm_sec ts,
          millisecond = ms\<rparr>)"

lemma millisecond_explode_of [simp]: "millisecond (explode_of cal seconds ms) = ms"
  by (simp add: explode_of_def Let_def)

lemma to_explode_utc:
  "in_int64 (us - 1000) \<Longrightarrow> in_int64 us \<Longrightarrow>
     to_explode cal False us = Inr (explode_of cal (us div 1000000) (us div 1000 mod 1000))"
  by (simp add: to_explode_def floor_parts_eq explode_of_def Let_def)

lemma exploded_seconds_utc:
  assumes "calendar_ok cal"
  shows "exploded_seconds cal False (explode_of cal seconds ms) = seconds"
proof -
  have "from_tm cal False \<lparr>tm_sec = tm_sec (to_tm cal False t), tm_min = tm_min (to_tm cal False t),
      tm_hour = tm_hour (to_tm cal False t), tm_mday = tm_mday (to_tm cal False t),
      tm_mon = tm_mon (to_tm cal False t), tm_year = tm_year (to_tm cal False t),
      tm_wday = tm_wday (to_tm cal False t), tm_isdst = d\<rparr> = t" for d t
  proof -
    have "from_tm cal False ((to_tm cal False t)\<lparr>tm_isdst := d\<rparr>) = t" using assms by (simp add: calendar_ok_def)
    then show ?thesis by (cases "to_tm cal False t") simp
  qed
  then show ?thesis by (simp add: exploded_seconds_def explode_of_def Let_def)
qed

lemma from_exploded_exact:
  assumes "exploded_seconds cal is_local ex = s" and "\<not> (s = -1 \<and> (year ex < 1969 \<or> year ex > 1970))"
    and "i64 (s * 1000) = Inr (s * 1000)" and "i64 (s * 1000 + millisecond ex) = Inr m"
    and "i64 (m * 1000) = Inr us" and "to_explode cal is_local us = Inr ex"
  shows "from_exploded cal is_local ex = Inr (True, us)"
  unfolding from_exploded_def Let_def assms(1) if_not_P [OF assms(2)]
  using assms(3-6) by (simp add: time_consts exploded_mostly_equals_def)

section \<open>Properties\<close>

text \<open>C34: Conversions to a \<^verbatim>\<open>TimeDelta\<close> never overflow: \<^verbatim>\<open>from_seconds\<close> and \<^verbatim>\<open>from_milliseconds\<close> return the exact
  number of microseconds, or the nearest limit of \<^verbatim>\<open>int64_t\<close> where it does not fit.\<close>

theorem from_seconds_saturates:
  assumes "in_int64 v"
  shows "from_seconds v = Inr (max kInt64Min (min kInt64Max (v * 1000000)))
       \<and> from_milliseconds v = Inr (max kInt64Min (min kInt64Max (v * 1000)))"
  using assms by (simp add: from_seconds_def from_milliseconds_def from_product_saturates time_consts)

theorem from_seconds_saturates_witness:
  "from_seconds (2 ^ 62) = Inr kInt64Max \<and> from_milliseconds (-7) = Inr (-7000)"
  using from_seconds_saturates [of "2 ^ 62"] from_seconds_saturates [of "-7"] by (simp add: int64_defs)

text \<open>C33: Exploding a time in UTC and putting it together again gives the time, rounded down to the
  millisecond, for every time that is not within two milliseconds of the smallest one, before
  and after the epoch, on any calendar for which \<^verbatim>\<open>timegm\<close> inverts \<^verbatim>\<open>gmtime_r\<close> and the second before
  the epoch is in 1969.\<close>

theorem explode_round_trip:
  assumes "calendar_ok cal" and "in_int64 us" and "in_int64 (us - 2000)"
  shows "\<exists>ex. to_explode cal False us = Inr ex \<and> from_exploded cal False ex = Inr (True, us - us mod 1000)"
proof -
  let ?s = "us div 1000000"
  let ?ms = "us div 1000 mod 1000"
  let ?ex = "explode_of cal ?s ?ms"
  have in1: "in_int64 (us - 1000)" using assms(2,3) by (simp add: in_int64_def)
  have s: "?s = us div 1000 div 1000" using zdiv_zmult2_eq [of 1000 us 1000] by simp
  then have ms: "?s * 1000 + ?ms = us div 1000" "us div 1000 * 1000 = us - us mod 1000"
    by (simp_all add: minus_mod_eq_div_mult)
  have m: "0 \<le> us mod 1000" "us mod 1000 < 1000" "0 \<le> us mod 1000000" "us mod 1000000 < 1000000" by simp_all
  have "?s * 1000000 = us - us mod 1000000" by (simp add: minus_mod_eq_div_mult)
  with m ms have b: "us - 1000000 < ?s * 1000000" "?s * 1000000 \<le> us" "us - 1000 < us div 1000 * 1000" "us div 1000 * 1000 \<le> us"
    by linarith+
  have "i64 (?s * 1000) = Inr (?s * 1000)" "i64 (us div 1000) = Inr (us div 1000)"
    "i64 (us - us mod 1000) = Inr (us - us mod 1000)"
    using assms(2,3) m b unfolding int64_defs by auto
  moreover have "\<not> (?s = -1 \<and> (year ?ex < 1969 \<or> year ?ex > 1970))"
    using assms(1) by (auto simp: explode_of_def calendar_ok_def Let_def)
  moreover have "to_explode cal False (us - us mod 1000) = Inr ?ex"
  proof -
    have "in_int64 (us - us mod 1000 - 1000)" "in_int64 (us - us mod 1000)"
      using assms(2,3) m by (auto simp: in_int64_def)
    moreover have dv: "(us - us mod 1000) div 1000 = us div 1000" by (simp add: minus_mod_eq_div_mult)
    moreover have "(us - us mod 1000) div 1000000 = ?s"
      using zdiv_zmult2_eq [of 1000 "us - us mod 1000" 1000] dv s by simp
    ultimately show ?thesis by (simp add: to_explode_utc)
  qed
  ultimately have "from_exploded cal False ?ex = Inr (True, us - us mod 1000)"
    using ms by (intro from_exploded_exact [OF exploded_seconds_utc [OF assms(1)], where m = "us div 1000"]) simp_all
  with to_explode_utc [OF in1 assms(2)] show ?thesis by blast
qed

text \<open>A calendar whose months have one second each and whose years have a single month.\<close>

definition counting_calendar :: calendar where
  "counting_calendar =
     \<lparr>to_tm = (\<lambda>_ t. \<lparr>tm_sec = 0, tm_min = 0, tm_hour = 0, tm_mday = 1, tm_mon = 0, tm_year = t + 70,
                   tm_wday = 0, tm_isdst = 0\<rparr>),
      from_tm = (\<lambda>_ ts. tm_year ts - 70)\<rparr>"

theorem explode_round_trip_witness:
  "\<exists>ex. to_explode counting_calendar False (-1234567) = Inr ex
      \<and> from_exploded counting_calendar False ex = Inr (True, -1235000)"
  using explode_round_trip [of counting_calendar "-1234567"]
  by (simp add: calendar_ok_def counting_calendar_def int64_defs)

end
