(* ===== verification/Timer_Pool.thy ===== *)
theory Timer_Pool
  imports Time_Stamp "HOL-Library.Product_Lexorder"
begin

text \<open>
  Timers (src/Timer.h, src/Timer.cc, src/TimerPool.h, src/TimerPool.cc) and the descriptor they share
  (src/TimerFD.cc), in the build for Linux. The \<^verbatim>\<open>Timer\<close> objects live on a heap that maps addresses to
  them: an access to a deleted object is the fault \<open>Out_of_bounds\<close>. The two \<^verbatim>\<open>std::set\<close>s of the pool are
  strictly ascending lists. \<^verbatim>\<open>add_timer\<close> has two steps: it allocates the timer and hands it to the loop, and
  then it reads the sequence number of that timer for the \<^verbatim>\<open>TimerId\<close> it returns. Called by another thread, the
  first step posts the address to the loop (\<open>posted\<close>), and the call stays among those that have not returned
  (\<open>adding\<close>): the loop goes on before the second step. What a timer callback does to the pool is an arbitrary
  list of calls.

  Parameters: \<open>malloc\<close> is \<^verbatim>\<open>operator new\<close>, \<open>settime\<close> and \<open>tfd_read\<close> are \<^verbatim>\<open>timerfd_settime(2)\<close> and
  \<^verbatim>\<open>read(2)\<close> on the timer descriptor; every call of \<^verbatim>\<open>TimeStamp::now()\<close> is an argument. The interval of
  a timer is given as the \<^verbatim>\<open>TimeDelta\<close> it is converted to.
\<close>

section \<open>\<^verbatim>\<open>std::set\<close>\<close>

definition set_insert :: "'a::linorder \<Rightarrow> 'a list \<Rightarrow> 'a list \<times> bool" where
  "set_insert x xs = (if x \<in> set xs then (xs, False) else (insort x xs, True))"

definition set_erase :: "'a::linorder \<Rightarrow> 'a list \<Rightarrow> 'a list \<times> nat" where
  "set_erase x xs = (remove1 x xs, if x \<in> set xs then 1 else 0)"

definition ascending :: "'a::linorder list \<Rightarrow> bool" where
  "ascending xs \<longleftrightarrow> sorted xs \<and> distinct xs"

section \<open>State\<close>

record 'cb timer =
  expired :: int
  interval :: int
  timer_cb :: 'cb
  timer_seq :: int

record ('cb, 'k) timer_pool =
  in_own_loop :: bool
  timers :: "(int \<times> nat) list"
  active_timers :: "(nat \<times> int) list"
  canceling_timers :: "(nat \<times> int) list"
  calling_expired_timers :: bool
  timer_socket :: 'k
  heap :: "nat \<rightharpoonup> 'cb timer"
  global_sequence :: int
  posted :: "nat list"
  adding :: "nat list"

record 'k timer_sys =
  settime :: "int \<Rightarrow> timespec \<Rightarrow> 'k \<Rightarrow> int \<times> 'k"
  tfd_read :: "'k \<Rightarrow> int \<times> 'k"

type_synonym 'cb allocator = "(nat \<rightharpoonup> 'cb timer) \<Rightarrow> nat option"

definition UINTPTR_MAX :: nat where
  "UINTPTR_MAX = 2 ^ 64 - 1"

definition deref :: "nat \<Rightarrow> ('cb, 'k) timer_pool \<Rightarrow> 'cb timer res" where
  "deref a p = (case heap p a of None \<Rightarrow> Inl Out_of_bounds | Some t \<Rightarrow> Inr t)"

section \<open>\<^verbatim>\<open>Timer\<close> and \<^verbatim>\<open>TimerFD\<close>\<close>

definition new_timer ::
  "'cb allocator \<Rightarrow> 'cb \<Rightarrow> int \<Rightarrow> int \<Rightarrow> ('cb, 'k) timer_pool \<Rightarrow> (nat \<times> ('cb, 'k) timer_pool) res" where
  "new_timer malloc cb e i p =
     (case malloc (heap p) of
        None \<Rightarrow> Inl Bad_alloc
      | Some a \<Rightarrow>
          Inr (a, p\<lparr>heap := (heap p)(a \<mapsto> \<lparr>expired = e, interval = i, timer_cb = cb, timer_seq = global_sequence p\<rparr>),
                    global_sequence := global_sequence p + 1\<rparr>))"

definition repeat_timer :: "'cb timer \<Rightarrow> bool" where
  "repeat_timer t \<longleftrightarrow> interval t \<noteq> 0"

definition restart :: "int \<Rightarrow> 'cb timer \<Rightarrow> 'cb timer res" where
  "restart cur t =
     (if repeat_timer t then bindR (time_add cur (interval t)) (\<lambda>e. Inr (t\<lparr>expired := e\<rparr>))
      else Inl Check_failed)"

definition reset_timerfd :: "'k timer_sys \<Rightarrow> int \<Rightarrow> int \<Rightarrow> 'k \<Rightarrow> (int \<times> 'k) res" where
  "reset_timerfd sys now delta k =
     (if delta = 0 then Inr (-1, k)
      else bindR (delta_to_timespec delta) (\<lambda>ts. Inr (settime sys now ts k)))"

definition timerfd_reset :: "'k timer_sys \<Rightarrow> int \<Rightarrow> int \<Rightarrow> 'k \<Rightarrow> 'k res" where
  "timerfd_reset sys now delta k =
     bindR (reset_timerfd sys now delta k) (\<lambda>(rt, k'). if rt \<ge> 0 then Inr k' else Inl Bad_syscall)"

section \<open>\<^verbatim>\<open>TimerPool\<close>\<close>

definition sizes_agree :: "('cb, 'k) timer_pool \<Rightarrow> bool" where
  "sizes_agree p \<longleftrightarrow> length (timers p) = length (active_timers p)"

definition new_timer_pool :: "'k \<Rightarrow> ('cb, 'k) timer_pool" where
  "new_timer_pool k = \<lparr>in_own_loop = True, timers = [], active_timers = [], canceling_timers = [],
     calling_expired_timers = False, timer_socket = k, heap = Map.empty, global_sequence = 0, posted = [],
     adding = []\<rparr>"

definition reset_pool :: "'k timer_sys \<Rightarrow> int \<Rightarrow> int \<Rightarrow> ('cb, 'k) timer_pool \<Rightarrow> ('cb, 'k) timer_pool res" where
  "reset_pool sys now e p = check (in_own_loop p)
     (if e \<noteq> 0 then
        bindR (time_diff e now) (\<lambda>delta.
        bindR (timerfd_reset sys now delta (timer_socket p)) (\<lambda>k. Inr (p\<lparr>timer_socket := k\<rparr>)))
      else Inr p)"

definition save :: "nat \<Rightarrow> ('cb, 'k) timer_pool \<Rightarrow> (bool \<times> ('cb, 'k) timer_pool) res" where
  "save a p = check (in_own_loop p) (check (sizes_agree p)
     (bindR (deref a p) (\<lambda>t.
      let earliest_changed = (timers p = [] \<or> fst (hd (timers p)) > expired t);
          (ts, saved) = set_insert (expired t, a) (timers p);
          (as, saved_active) = set_insert (a, timer_seq t) (active_timers p);
          p1 = p\<lparr>timers := ts, active_timers := as\<rparr>
      in check saved (check saved_active (check (sizes_agree p1) (Inr (earliest_changed, p1)))))))"

definition reset_earliest :: "'k timer_sys \<Rightarrow> int \<Rightarrow> ('cb, 'k) timer_pool \<Rightarrow> ('cb, 'k) timer_pool res" where
  "reset_earliest sys now p =
     (case timers p of
        [] \<Rightarrow> reset_pool sys now 0 p
      | (e, a) # _ \<Rightarrow> bindR (deref a p) (\<lambda>t. reset_pool sys now (expired t) p))"

definition add_timer_in_own_loop ::
  "'k timer_sys \<Rightarrow> int \<Rightarrow> nat \<Rightarrow> ('cb, 'k) timer_pool \<Rightarrow> ('cb, 'k) timer_pool res" where
  "add_timer_in_own_loop sys now a p = check (in_own_loop p) (check (sizes_agree p)
     (bindR (save a p) (\<lambda>(earliest_changed, p1).
      if earliest_changed then bindR (deref a p1) (\<lambda>t. reset_pool sys now (expired t) p1) else Inr p1)))"

definition add_timer_begin ::
  "'k timer_sys \<Rightarrow> 'cb allocator \<Rightarrow> bool \<Rightarrow> int \<Rightarrow> 'cb \<Rightarrow> int \<Rightarrow> int \<Rightarrow> ('cb, 'k) timer_pool
     \<Rightarrow> (nat \<times> ('cb, 'k) timer_pool) res" where
  "add_timer_begin sys malloc own now cb e i p =
     bindR (new_timer malloc cb e i p) (\<lambda>(a, p1).
     bindR (if own then add_timer_in_own_loop sys now a p1 else Inr (p1\<lparr>posted := posted p1 @ [a]\<rparr>)) (\<lambda>p2.
     Inr (a, p2)))"

definition add_timer_end :: "nat \<Rightarrow> ('cb, 'k) timer_pool \<Rightarrow> (nat \<times> int) res" where
  "add_timer_end a p = bindR (deref a p) (\<lambda>t. Inr (a, timer_seq t))"

definition add_timer ::
  "'k timer_sys \<Rightarrow> 'cb allocator \<Rightarrow> bool \<Rightarrow> int \<Rightarrow> 'cb \<Rightarrow> int \<Rightarrow> int \<Rightarrow> ('cb, 'k) timer_pool
     \<Rightarrow> ((nat \<times> int) \<times> ('cb, 'k) timer_pool) res" where
  "add_timer sys malloc own now cb e i p =
     bindR (add_timer_begin sys malloc own now cb e i p) (\<lambda>(a, p1).
     bindR (add_timer_end a p1) (\<lambda>tid. Inr (tid, p1)))"

definition cancel_timer_in_own_loop ::
  "'k timer_sys \<Rightarrow> int \<Rightarrow> nat \<times> int \<Rightarrow> ('cb, 'k) timer_pool \<Rightarrow> ('cb, 'k) timer_pool res" where
  "cancel_timer_in_own_loop sys now tid p = check (in_own_loop p) (check (sizes_agree p)
     (bindR
       (if tid \<in> set (active_timers p) then
          bindR (deref (fst tid) p) (\<lambda>t.
            let (ts, n) = set_erase (expired t, fst tid) (timers p)
            in check (n = 1)
                 (Inr (p\<lparr>timers := ts, heap := (heap p)(fst tid := None),
                         active_timers := fst (set_erase tid (active_timers p))\<rparr>)))
        else if calling_expired_timers p then
          Inr (p\<lparr>canceling_timers := fst (set_insert tid (canceling_timers p))\<rparr>)
        else Inr p) (\<lambda>p1.
      check (sizes_agree p1) (reset_earliest sys now p1))))"

text \<open>What code that runs in the loop may do to the pool: add a timer, or cancel one.\<close>

datatype 'cb timer_call =
    Add_call int 'cb int int
  | Cancel_call int "nat \<times> int"

fun run_call ::
  "'k timer_sys \<Rightarrow> 'cb allocator \<Rightarrow> 'cb timer_call \<Rightarrow> ('cb, 'k) timer_pool \<Rightarrow> ('cb, 'k) timer_pool res" where
  "run_call sys malloc (Add_call now cb e i) p =
     bindR (add_timer sys malloc True now cb e i p) (\<lambda>(_, p1). Inr p1)"
| "run_call sys malloc (Cancel_call now tid) p = cancel_timer_in_own_loop sys now tid p"

fun run_calls where
  "run_calls sys malloc [] p = Inr p"
| "run_calls sys malloc (c # cs) p = bindR (run_call sys malloc c p) (run_calls sys malloc cs)"

fun erase_active :: "(int \<times> nat) list \<Rightarrow> ('cb, 'k) timer_pool \<Rightarrow> ('cb, 'k) timer_pool res" where
  "erase_active [] p = Inr p"
| "erase_active ((e, a) # xs) p =
     bindR (deref a p) (\<lambda>t.
       let (as, n) = set_erase (a, timer_seq t) (active_timers p)
       in check (n = 1) (erase_active xs (p\<lparr>active_timers := as\<rparr>)))"

definition fill_expired_timers ::
  "int \<Rightarrow> ('cb, 'k) timer_pool \<Rightarrow> ((int \<times> nat) list \<times> ('cb, 'k) timer_pool) res" where
  "fill_expired_timers time p = check (in_own_loop p) (check (sizes_agree p)
     (let sentry = (time, UINTPTR_MAX);
          due = takeWhile (\<lambda>x. x < sentry) (timers p);
          rest = dropWhile (\<lambda>x. x < sentry) (timers p)
      in check (rest = [] \<or> fst (hd rest) > time)
           (bindR (erase_active due (p\<lparr>timers := rest\<rparr>)) (\<lambda>p1.
            check (sizes_agree p1) (Inr (due, p1))))))"

text \<open>The callbacks of the expired timers; \<open>does\<close> gives the calls the callback of a timer makes, by the
  sequence number of the timer. The result has the timers whose callback ran.\<close>

fun run_expired ::
  "'k timer_sys \<Rightarrow> 'cb allocator \<Rightarrow> (int \<Rightarrow> 'cb timer_call list) \<Rightarrow> (int \<times> nat) list \<Rightarrow> ('cb, 'k) timer_pool
     \<Rightarrow> (int list \<times> ('cb, 'k) timer_pool) res" where
  "run_expired sys malloc does [] p = Inr ([], p)"
| "run_expired sys malloc does ((e, a) # xs) p =
     bindR (deref a p) (\<lambda>t.
     bindR (run_calls sys malloc (does (timer_seq t)) p) (\<lambda>p1.
     bindR (run_expired sys malloc does xs p1) (\<lambda>(rs, p2).
     Inr (timer_seq t # rs, p2))))"

fun update_each :: "int \<Rightarrow> (int \<times> nat) list \<Rightarrow> ('cb, 'k) timer_pool \<Rightarrow> ('cb, 'k) timer_pool res" where
  "update_each time [] p = Inr p"
| "update_each time ((e, a) # xs) p =
     bindR (deref a p) (\<lambda>t.
       if repeat_timer t \<and> (a, timer_seq t) \<notin> set (canceling_timers p) then
         bindR (restart time t) (\<lambda>t'.
         bindR (save a (p\<lparr>heap := (heap p)(a \<mapsto> t')\<rparr>)) (\<lambda>(_, p1).
         update_each time xs p1))
       else update_each time xs (p\<lparr>heap := (heap p)(a := None)\<rparr>))"

definition update ::
  "'k timer_sys \<Rightarrow> int \<Rightarrow> int \<Rightarrow> (int \<times> nat) list \<Rightarrow> ('cb, 'k) timer_pool \<Rightarrow> ('cb, 'k) timer_pool res" where
  "update sys now time due p = check (in_own_loop p) (check (sizes_agree p)
     (bindR (update_each time due p) (reset_earliest sys now)))"

definition handle_read_timer ::
  "'k timer_sys \<Rightarrow> 'cb allocator \<Rightarrow> (int \<Rightarrow> 'cb timer_call list) \<Rightarrow> int \<Rightarrow> int \<Rightarrow> ('cb, 'k) timer_pool
     \<Rightarrow> (int list \<times> ('cb, 'k) timer_pool) res" where
  "handle_read_timer sys malloc does cur now p = check (in_own_loop p) (check (sizes_agree p)
     (let (n, k) = tfd_read sys (timer_socket p);
          p0 = p\<lparr>timer_socket := k\<rparr>
      in if n \<noteq> 8 then Inr ([], p0)
         else
           bindR (fill_expired_timers cur p0) (\<lambda>(due, p1).
           bindR (run_expired sys malloc does due (p1\<lparr>calling_expired_timers := True, canceling_timers := []\<rparr>)) (\<lambda>(rs, p2).
           bindR (update sys now cur due (p2\<lparr>calling_expired_timers := False\<rparr>)) (\<lambda>p3.
           Inr (rs, p3))))))"

fun delete_timers :: "(int \<times> nat) list \<Rightarrow> ('cb, 'k) timer_pool \<Rightarrow> ('cb, 'k) timer_pool res" where
  "delete_timers [] p = Inr p"
| "delete_timers ((e, a) # xs) p =
     bindR (deref a p) (\<lambda>_. delete_timers xs (p\<lparr>heap := (heap p)(a := None)\<rparr>))"

definition timer_pool_destroy :: "('cb, 'k) timer_pool \<Rightarrow> ('cb, 'k) timer_pool res" where
  "timer_pool_destroy p = delete_timers (timers p) p"

text \<open>One operation on the pool: a call in the loop's thread; a call of \<^verbatim>\<open>add_timer\<close> by another thread, up to
  the timer being posted; such a call returning, the one at place \<open>i\<close> of those that have not; the loop running
  the oldest posted task; or the timer descriptor becoming readable.\<close>

datatype 'cb pool_op =
    In_loop "'cb timer_call"
  | Post_add 'cb int int
  | Return_add nat
  | Run_posted int
  | Readable "int \<Rightarrow> 'cb timer_call list" int int

fun pool_step ::
  "'k timer_sys \<Rightarrow> 'cb allocator \<Rightarrow> ('cb, 'k) timer_pool \<Rightarrow> 'cb pool_op \<Rightarrow> (int list \<times> ('cb, 'k) timer_pool) res" where
  "pool_step sys malloc p (In_loop c) = bindR (run_call sys malloc c p) (\<lambda>p1. Inr ([], p1))"
| "pool_step sys malloc p (Post_add cb e i) =
     bindR (add_timer_begin sys malloc False 0 cb e i p) (\<lambda>(a, p1). Inr ([], p1\<lparr>adding := adding p1 @ [a]\<rparr>))"
| "pool_step sys malloc p (Return_add i) =
     (if i < length (adding p)
      then bindR (add_timer_end (adding p ! i) p) (\<lambda>_. Inr ([], p\<lparr>adding := remove_nth i (adding p)\<rparr>))
      else Inr ([], p))"
| "pool_step sys malloc p (Run_posted now) =
     (case posted p of
        [] \<Rightarrow> Inr ([], p)
      | a # as \<Rightarrow> bindR (add_timer_in_own_loop sys now a (p\<lparr>posted := as\<rparr>)) (\<lambda>p1. Inr ([], p1)))"
| "pool_step sys malloc p (Readable does cur now) = handle_read_timer sys malloc does cur now p"

section \<open>Lists and descriptors\<close>

lemma ascending_insert: "ascending xs \<Longrightarrow> x \<notin> set xs \<Longrightarrow> ascending (insort x xs)"
  by (simp add: ascending_def sorted_insort distinct_insort)

lemma ascending_remove1: "ascending xs \<Longrightarrow> ascending (remove1 x xs)"
  by (simp add: ascending_def sorted_remove1)

lemma fst_hd_insort:
  fixes xs :: "(int \<times> nat) list"
  shows "fst (hd (insort (e, a) xs)) = (if xs = [] \<or> fst (hd xs) > e then e else fst (hd xs))"
  by (cases xs) (auto simp: less_eq_prod_def split: prod.splits)

lemma hd_least: "ascending xs \<Longrightarrow> x \<in> set xs \<Longrightarrow> hd xs \<le> x"
  by (cases xs) (auto simp: ascending_def)

definition malloc_ok :: "'cb allocator \<Rightarrow> bool" where
  "malloc_ok malloc \<longleftrightarrow> (\<forall>h a. malloc h = Some a \<longrightarrow> h a = None \<and> a < UINTPTR_MAX)"

definition valid_timespec :: "timespec \<Rightarrow> bool" where
  "valid_timespec ts \<longleftrightarrow> 0 \<le> tv_sec ts \<and> 0 \<le> tv_nsec ts \<and> tv_nsec ts < kNanosecondsPerSecond"

text \<open>\<^verbatim>\<open>timerfd_settime\<close> fails with \<^verbatim>\<open>EINVAL\<close> on an invalid time, and otherwise arms the descriptor for
  the given time from now on; \<^verbatim>\<open>read\<close> does not arm it. \<open>dl\<close> is the time it was last armed for.\<close>

definition timerfd_ok :: "('k \<Rightarrow> int option) \<Rightarrow> 'k timer_sys \<Rightarrow> bool" where
  "timerfd_ok dl sys \<longleftrightarrow>
     (\<forall>now ts k. (\<not> valid_timespec ts \<longrightarrow> fst (settime sys now ts k) < 0)
        \<and> (fst (settime sys now ts k) \<ge> 0 \<longrightarrow> tv_sec ts \<noteq> 0 \<or> tv_nsec ts \<noteq> 0 \<longrightarrow>
             dl (snd (settime sys now ts k)) = Some (now + tv_sec ts * 1000000 + tv_nsec ts div 1000)))
     \<and> (\<forall>k. dl (snd (tfd_read sys k)) = dl k)"

definition tolerated :: "fault \<Rightarrow> bool" where
  "tolerated f \<longleftrightarrow> f \<in> {Bad_syscall, Signed_overflow, Bad_alloc}"

lemma tolerated_simps [simp]:
  "tolerated Bad_syscall" "tolerated Signed_overflow" "tolerated Bad_alloc"
  by (simp_all add: tolerated_def)

lemma i64_ensures: "ensures tolerated (\<lambda>x. x = i \<and> in_int64 i) (i64 i)"
  by (simp add: i64_def)

lemma delta_to_timespec_pos:
  "0 < d \<Longrightarrow> d < kInt64Max \<Longrightarrow>
     delta_to_timespec d = Inr \<lparr>tv_sec = d div 1000000, tv_nsec = d mod 1000000 * 1000\<rparr>"
proof -
  assume d: "0 < d" "d < kInt64Max"
  define m where "m = d mod 1000000"
  have mo: "0 \<le> m" "m < 1000000" by (simp_all add: m_def)
  have "d div 1000000 * 1000000 = d - m" unfolding m_def by (simp add: minus_mod_eq_div_mult)
  with d mo have "i64 (d div 1000000 * 1000000) = Inr (d - m)" by (simp add: int64_defs)
  moreover have "i64 (d - (d - m)) = Inr m" "i64 (m * 1000) = Inr (m * 1000)"
    using mo by (simp_all add: int64_defs)
  moreover have "d < 1000000 \<Longrightarrow> d div 1000000 = 0 \<and> m = d" using d(1) by (simp add: m_def)
  ultimately show ?thesis using d unfolding m_def [symmetric]
    by (auto simp: delta_to_timespec_def split_seconds_def in_microseconds_def in_seconds_def divide_or_max_def
        time_consts sdiv_nonneg Let_def)
qed

lemma delta_to_timespec_neg:
  "d < 0 \<Longrightarrow> in_int64 (d * 1000) \<Longrightarrow> delta_to_timespec d = Inr \<lparr>tv_sec = 0, tv_nsec = d * 1000\<rparr>"
  by (simp add: delta_to_timespec_def split_seconds_def in_microseconds_def divide_or_max_def time_consts i64_def
      kInt64Max_def sdiv_neg)

section \<open>Invariant\<close>

text \<open>Every timer on the heap is active, posted by another thread, or in \<open>xs\<close>, the timers taken out
  of the pool while their callbacks run; exactly one of these holds, so none is leaked and none is
  deleted twice. The two sets of the pool hold the same timers.\<close>

definition entry :: "(nat \<rightharpoonup> 'cb timer) \<Rightarrow> int \<times> nat \<Rightarrow> nat \<times> int" where
  "entry h x = (snd x, timer_seq (the (h (snd x))))"

definition heap_ok :: "int \<Rightarrow> (nat \<rightharpoonup> 'cb timer) \<Rightarrow> bool" where
  "heap_ok seq h \<longleftrightarrow>
     (\<forall>a t. h a = Some t \<longrightarrow> a < UINTPTR_MAX \<and> 0 < expired t \<and> 0 \<le> interval t \<and> timer_seq t < seq)
     \<and> (\<forall>a b t u. h a = Some t \<longrightarrow> h b = Some u \<longrightarrow> timer_seq t = timer_seq u \<longrightarrow> a = b)"

definition pool_ok :: "nat list \<Rightarrow> ('cb, 'k) timer_pool \<Rightarrow> bool" where
  "pool_ok xs p \<longleftrightarrow>
     in_own_loop p \<and> ascending (timers p) \<and> ascending (active_timers p)
     \<and> set (active_timers p) = entry (heap p) ` set (timers p)
     \<and> (\<forall>e a. (e, a) \<in> set (timers p) \<longrightarrow> (\<exists>t. heap p a = Some t \<and> expired t = e))
     \<and> distinct (posted p @ xs) \<and> snd ` set (timers p) \<inter> set (posted p @ xs) = {}
     \<and> dom (heap p) = snd ` set (timers p) \<union> set (posted p @ xs)
     \<and> heap_ok (global_sequence p) (heap p)"

lemma pool_ok_frame [simp]:
  "pool_ok xs (p\<lparr>timer_socket := k\<rparr>) = pool_ok xs p"
  "pool_ok xs (p\<lparr>canceling_timers := c\<rparr>) = pool_ok xs p"
  "pool_ok xs (p\<lparr>calling_expired_timers := b\<rparr>) = pool_ok xs p"
  "pool_ok xs (p\<lparr>adding := ad\<rparr>) = pool_ok xs p"
  by (simp_all add: pool_ok_def)

lemma pool_okD:
  assumes "pool_ok xs p"
  shows "in_own_loop p" "ascending (timers p)" "ascending (active_timers p)"
    "set (active_timers p) = entry (heap p) ` set (timers p)"
    "\<And>e a. (e, a) \<in> set (timers p) \<Longrightarrow> \<exists>t. heap p a = Some t \<and> expired t = e"
    "distinct (posted p @ xs)" "snd ` set (timers p) \<inter> set (posted p @ xs) = {}"
    "dom (heap p) = snd ` set (timers p) \<union> set (posted p @ xs)" "heap_ok (global_sequence p) (heap p)"
  using assms unfolding pool_ok_def by blast+

lemma pool_okI:
  assumes "in_own_loop p" "ascending (timers p)" "ascending (active_timers p)"
    "set (active_timers p) = entry (heap p) ` set (timers p)"
    "\<And>e a. (e, a) \<in> set (timers p) \<Longrightarrow> \<exists>t. heap p a = Some t \<and> expired t = e"
    "distinct (posted p @ xs)" "snd ` set (timers p) \<inter> set (posted p @ xs) = {}"
    "dom (heap p) = snd ` set (timers p) \<union> set (posted p @ xs)" "heap_ok (global_sequence p) (heap p)"
  shows "pool_ok xs p"
  unfolding pool_ok_def using assms by (intro conjI allI impI)

lemma entry_upd: "a \<notin> snd ` A \<Longrightarrow> entry (h(a := v)) ` A = entry h ` A"
  by (rule image_cong) (auto simp: entry_def)

lemma pool_ok_timer: "pool_ok xs p \<Longrightarrow> (e, a) \<in> set (timers p) \<Longrightarrow> \<exists>t. heap p a = Some t \<and> expired t = e"
  by (simp add: pool_ok_def)

lemma pool_ok_own [simp]: "pool_ok xs p \<Longrightarrow> in_own_loop p"
  by (simp add: pool_ok_def)

lemma pool_ok_expiry:
  "pool_ok xs p \<Longrightarrow> (e, a) \<in> set (timers p) \<Longrightarrow> (e', a) \<in> set (timers p) \<Longrightarrow> e' = e"
  using pool_ok_timer [of xs p e a] pool_ok_timer [of xs p e' a] by auto

lemma inj_entry: "pool_ok xs p \<Longrightarrow> inj_on (entry (heap p)) (set (timers p))"
  by (auto simp: inj_on_def entry_def dest: pool_ok_expiry)

lemma pool_ok_sizes [simp]: "pool_ok xs p \<Longrightarrow> sizes_agree p"
proof -
  assume ok: "pool_ok xs p"
  then have "distinct (timers p)" "distinct (active_timers p)" by (simp_all add: pool_ok_def ascending_def)
  then have "length (timers p) = card (set (timers p))" "length (active_timers p) = card (set (active_timers p))"
    by (simp_all only: distinct_card)
  moreover have "card (set (active_timers p)) = card (set (timers p))"
    using ok card_image [OF inj_entry [OF ok]] by (simp add: pool_ok_def)
  ultimately show ?thesis by (simp add: sizes_agree_def)
qed

lemma pool_ok_heap: "pool_ok xs p \<Longrightarrow> a \<in> set xs \<Longrightarrow> \<exists>t. heap p a = Some t"
  using pool_okD(8) [of xs p] by (auto simp: dom_def)

lemma pool_ok_deref [simp]: "heap p a = Some t \<Longrightarrow> deref a p = Inr t"
  by (simp add: deref_def)

definition saved :: "nat \<Rightarrow> 'cb timer \<Rightarrow> ('cb, 'k) timer_pool \<Rightarrow> ('cb, 'k) timer_pool" where
  "saved a t p = p\<lparr>timers := insort (expired t, a) (timers p), active_timers := insort (a, timer_seq t) (active_timers p)\<rparr>"

lemma pool_ok_not_active:
  "pool_ok xs p \<Longrightarrow> a \<in> set xs \<Longrightarrow> (e, a) \<notin> set (timers p) \<and> (a, s) \<notin> set (active_timers p)"
proof -
  assume ok: "pool_ok xs p" and a: "a \<in> set xs"
  have "a \<notin> snd ` set (timers p)" using pool_okD(7) [OF ok] a by auto
  then show ?thesis unfolding pool_okD(4) [OF ok] by (auto simp: entry_def rev_image_eqI)
qed

lemma pool_ok_saved:
  assumes ok: "pool_ok xs p" and a: "a \<in> set xs" and t: "heap p a = Some t"
  shows "pool_ok (remove1 a xs) (saved a t p)"
proof -
  have new: "(expired t, a) \<notin> set (timers p)" "(a, timer_seq t) \<notin> set (active_timers p)"
    using pool_ok_not_active [OF ok a] by auto
  have xs: "distinct xs" "set (posted p) \<inter> set xs = {}" using pool_okD(6) [OF ok] by auto
  have sets: "set (timers (saved a t p)) = insert (expired t, a) (set (timers p))"
    "set (active_timers (saved a t p)) = insert (a, timer_seq t) (set (active_timers p))"
    "set (remove1 a xs) = set xs - {a}"
    using xs(1) by (simp_all add: saved_def set_insort_key)
  have frame: "heap (saved a t p) = heap p" "posted (saved a t p) = posted p"
    "global_sequence (saved a t p) = global_sequence p" "in_own_loop (saved a t p) = in_own_loop p"
    by (simp_all add: saved_def)
  have asc: "ascending (timers (saved a t p))" "ascending (active_timers (saved a t p))"
    using pool_okD(2,3) [OF ok] new by (simp_all add: saved_def ascending_insert)
  have act: "set (active_timers p) = entry (heap p) ` set (timers p)"
    and dm: "dom (heap p) = snd ` set (timers p) \<union> set (posted p @ xs)"
    and dis: "snd ` set (timers p) \<inter> set (posted p @ xs) = {}" "distinct (posted p @ xs)"
    using pool_okD [OF ok] by blast+
  have "entry (heap p) (expired t, a) = (a, timer_seq t)" using t by (simp add: entry_def)
  moreover have "a \<notin> set (posted p)" using a xs(2) by blast
  moreover have "distinct (posted p @ remove1 a xs)" using dis(2) notin_set_remove1 by auto
  moreover have "\<exists>u. heap p b = Some u \<and> expired u = e" if "(e, b) \<in> insert (expired t, a) (set (timers p))" for e b
    using that t pool_okD(5) [OF ok, of e b] by auto
  moreover have "snd ` insert (expired t, a) (set (timers p)) = insert a (snd ` set (timers p))" by simp
  moreover have "insert a (snd ` set (timers p)) \<inter> set (posted p @ remove1 a xs) = {}"
    using dis(1) \<open>a \<notin> set (posted p)\<close> sets(3) by auto
  moreover have "dom (heap p) = insert a (snd ` set (timers p)) \<union> set (posted p @ remove1 a xs)"
    using dm a sets(3) by auto
  ultimately show ?thesis
    by (intro pool_okI) (simp_all only: frame sets asc act pool_okD(1,9) [OF ok] image_insert)
qed

lemma save_eq:
  assumes ok: "pool_ok xs p" and a: "a \<in> set xs" and t: "heap p a = Some t"
  shows "save a p = Inr (timers p = [] \<or> fst (hd (timers p)) > expired t, saved a t p)"
proof -
  have new: "(expired t, a) \<notin> set (timers p)" "(a, timer_seq t) \<notin> set (active_timers p)"
    using pool_ok_not_active [OF ok a] by auto
  have "sizes_agree (saved a t p)" using pool_ok_saved [OF assms] by (rule pool_ok_sizes)
  then show ?thesis using ok new t by (simp add: save_def set_insert_def saved_def)
qed

section \<open>Arming the descriptor\<close>

lemma delta_to_timespec_ensures:
  assumes "in_int64 d" and "d \<noteq> 0"
  shows "ensures tolerated (\<lambda>ts. valid_timespec ts \<longrightarrow>
    ts = \<lparr>tv_sec = d div 1000000, tv_nsec = d mod 1000000 * 1000\<rparr>) (delta_to_timespec d)"
proof -
  consider "0 < d" "d < kInt64Max" | "d = kInt64Max" | "d < 0" "in_int64 (d * 1000)" | "d < 0" "\<not> in_int64 (d * 1000)"
    using assms by (force simp: in_int64_def)
  then show ?thesis
  proof cases
    case 2
    then show ?thesis
      by (simp add: delta_to_timespec_def split_seconds_def in_microseconds_def in_seconds_def divide_or_max_def
          time_consts i64_def in_int64_def kInt64Max_def)
  next
    case 4
    then show ?thesis
      by (simp add: delta_to_timespec_def split_seconds_def in_microseconds_def divide_or_max_def time_consts i64_def
          kInt64Max_def sdiv_neg)
  qed (simp_all add: delta_to_timespec_pos delta_to_timespec_neg valid_timespec_def)
qed

lemma settime_ok:
  "timerfd_ok dl sys \<Longrightarrow> settime sys now ts k = (rt, k') \<Longrightarrow> rt \<ge> 0 \<Longrightarrow>
     valid_timespec ts \<and> (tv_sec ts \<noteq> 0 \<or> tv_nsec ts \<noteq> 0 \<longrightarrow>
       dl k' = Some (now + tv_sec ts * 1000000 + tv_nsec ts div 1000))"
  by (auto simp: timerfd_ok_def dest!: spec [of _ now] spec [of _ ts] spec [of _ k])

lemma timerfd_reset_ensures:
  assumes "timerfd_ok dl sys" and "in_int64 d"
  shows "ensures tolerated (\<lambda>k'. dl k' = Some (now + d)) (timerfd_reset sys now d k)"
proof (cases "d = 0")
  case False
  have parts: "d div 1000000 * 1000000 + d mod 1000000 = d" by simp
  have nz: "d div 1000000 \<noteq> 0 \<or> d mod 1000000 * 1000 \<noteq> 0"
  proof (rule ccontr)
    assume "\<not> ?thesis"
    then have z: "d div 1000000 = 0" "d mod 1000000 = 0" by auto
    show False using parts False unfolding z by simp
  qed
  show ?thesis
    unfolding timerfd_reset_def reset_timerfd_def using False
    apply (simp only: if_False bindR_assoc bindR.simps)
    apply (rule ensures_bindR [OF delta_to_timespec_ensures [OF assms(2) False]])
    subgoal for ts
      using settime_ok [OF assms(1), of now ts k] parts nz
      by (cases "settime sys now ts k") auto
    done
qed (simp add: timerfd_reset_def reset_timerfd_def)

lemma reset_pool_ensures:
  assumes "in_own_loop p" and "timerfd_ok dl sys"
  shows "ensures tolerated (\<lambda>q. \<exists>k. q = p\<lparr>timer_socket := k\<rparr> \<and> (e \<noteq> 0 \<longrightarrow> dl k = Some e)) (reset_pool sys now e p)"
proof (cases "e = 0")
  case True
  then show ?thesis using assms(1) by (auto simp: reset_pool_def intro: exI [of _ "timer_socket p"])
next
  case False
  have "ensures tolerated (\<lambda>k'. dl k' = Some e) (timerfd_reset sys now (e - now) (timer_socket p))" if "in_int64 (e - now)"
    using timerfd_reset_ensures [OF assms(2) that, of now "timer_socket p"] by simp
  with False assms(1) show ?thesis
    by (auto simp: reset_pool_def time_diff_def i64_def intro!: ensures_bindR)
qed

definition armed :: "('k \<Rightarrow> int option) \<Rightarrow> ('cb, 'k) timer_pool \<Rightarrow> bool" where
  "armed dl p \<longleftrightarrow> (timers p \<noteq> [] \<longrightarrow> dl (timer_socket p) = Some (fst (hd (timers p))))"

lemma pool_ok_positive: "pool_ok xs p \<Longrightarrow> heap p a = Some t \<Longrightarrow> expired t \<noteq> 0"
  using pool_okD(9) [of xs p] unfolding heap_ok_def by (metis less_irrefl)

lemma reset_earliest_ensures:
  assumes ok: "pool_ok xs p" and "timerfd_ok dl sys"
  shows "ensures tolerated (\<lambda>q. armed dl q \<and> (\<exists>k. q = p\<lparr>timer_socket := k\<rparr>)) (reset_earliest sys now p)"
proof (cases "timers p")
  case Nil
  then show ?thesis
    using reset_pool_ensures [OF pool_ok_own [OF ok] assms(2), of 0 now]
    by (auto simp: reset_earliest_def armed_def elim: ensures_mono)
next
  case (Cons x xs')
  then obtain e a where x: "x = (e, a)" by (cases x)
  with ok Cons obtain t where t: "heap p a = Some t" "expired t = e" using pool_okD(5) [OF ok, of e a] by auto
  with pool_ok_positive [OF ok t(1)] x Cons
  show ?thesis using reset_pool_ensures [OF pool_ok_own [OF ok] assms(2), of e now]
    by (auto simp: reset_earliest_def armed_def elim: ensures_mono)
qed

section \<open>Adding and cancelling\<close>

text \<open>What calls made during the callbacks of the timers \<open>xs\<close> leave alone.\<close>

definition kept :: "nat list \<Rightarrow> ('cb, 'k) timer_pool \<Rightarrow> ('cb, 'k) timer_pool \<Rightarrow> bool" where
  "kept xs p q \<longleftrightarrow> pool_ok xs q \<and> (\<forall>a\<in>set xs. heap q a = heap p a)
     \<and> set (canceling_timers p) \<subseteq> set (canceling_timers q) \<and> calling_expired_timers q = calling_expired_timers p"

lemma kept_refl: "pool_ok xs p \<Longrightarrow> kept xs p p"
  by (simp add: kept_def)

lemma kept_trans: "kept xs p q \<Longrightarrow> kept xs q r \<Longrightarrow> kept xs p r"
  by (auto simp: kept_def)

lemma heap_ok_new:
  assumes ok: "heap_ok s h" and "a < UINTPTR_MAX" and "0 < expired t" and "0 \<le> interval t" and seq: "timer_seq t = s"
  shows "heap_ok (s + 1) (h(a \<mapsto> t))"
proof -
  have lt: "timer_seq u < s" if "h b = Some u" for b u using ok that by (auto simp: heap_ok_def)
  then have "timer_seq u < s + 1 \<and> timer_seq u \<noteq> timer_seq t" if "h b = Some u" for b u
    using that seq by fastforce
  with assms show ?thesis unfolding heap_ok_def by (auto split: if_splits) metis+
qed

lemma new_timer_ensures:
  assumes ok: "pool_ok xs p" and "malloc_ok malloc" and "0 < e" and "0 \<le> i"
  shows "ensures tolerated (\<lambda>(a, q). pool_ok (a # xs) q \<and> a \<notin> set xs \<and> (\<exists>t. q = p\<lparr>heap := (heap p)(a \<mapsto> t), global_sequence := global_sequence p + 1\<rparr>))
    (new_timer malloc cb e i p)"
proof (cases "malloc (heap p)")
  case (Some a)
  define t where "t = \<lparr>expired = e, interval = i, timer_cb = cb, timer_seq = global_sequence p\<rparr>"
  define q where "q = p\<lparr>heap := (heap p)(a \<mapsto> t), global_sequence := global_sequence p + 1\<rparr>"
  have a: "heap p a = None" "a < UINTPTR_MAX" using assms(2) Some by (auto simp: malloc_ok_def)
  have frame: "heap q = (heap p)(a \<mapsto> t)" "posted q = posted p" "timers q = timers p" "active_timers q = active_timers p"
    "global_sequence q = global_sequence p + 1" "in_own_loop q = in_own_loop p"
    by (simp_all add: q_def)
  have fresh: "a \<notin> snd ` set (timers p)" "a \<notin> set (posted p @ xs)"
    using a(1) pool_okD(8) [OF ok] domIff [of a "heap p"] by auto
  have ent: "entry ((heap p)(a \<mapsto> t)) ` set (timers p) = entry (heap p) ` set (timers p)"
    using fresh(1) by (rule entry_upd)
  have "heap_ok (global_sequence p + 1) ((heap p)(a \<mapsto> t))"
    using a(2) assms(3,4) by (intro heap_ok_new [OF pool_okD(9) [OF ok]]) (simp_all add: t_def)
  moreover have "\<exists>u. ((heap p)(a \<mapsto> t)) b = Some u \<and> expired u = e'" if "(e', b) \<in> set (timers p)" for e' b
    using pool_okD(5) [OF ok that] fresh(1) that by (force simp: image_iff)
  ultimately have "pool_ok (a # xs) q"
    unfolding pool_ok_def frame ent using pool_okD(1-4,6-8) [OF ok] fresh by auto
  then show ?thesis using Some fresh(2) by (auto simp: new_timer_def q_def t_def)
qed (simp add: new_timer_def)

lemma add_in_own_loop_ensures:
  assumes ok: "pool_ok xs p" and a: "a \<in> set xs" and tf: "timerfd_ok dl sys"
  shows "ensures tolerated (\<lambda>q. pool_ok (remove1 a xs) q \<and> (\<exists>t k. q = (saved a t p)\<lparr>timer_socket := k\<rparr>) \<and> (armed dl p \<longrightarrow> armed dl q))
    (add_timer_in_own_loop sys now a p)"
proof -
  obtain t where t: "heap p a = Some t" using pool_ok_heap [OF ok a] by blast
  let ?q = "saved a t p"
  have ok': "pool_ok (remove1 a xs) ?q" by (rule pool_ok_saved [OF ok a t])
  have t': "heap ?q a = Some t" using t by (simp add: saved_def)
  have hd: "fst (hd (timers ?q)) = (if timers p = [] \<or> fst (hd (timers p)) > expired t then expired t else fst (hd (timers p)))"
    by (simp add: saved_def fst_hd_insort)
  show ?thesis
  proof (cases "timers p = [] \<or> fst (hd (timers p)) > expired t")
    case True
    have "ensures tolerated (\<lambda>q. \<exists>k. q = ?q\<lparr>timer_socket := k\<rparr> \<and> (expired t \<noteq> 0 \<longrightarrow> dl k = Some (expired t)))
      (reset_pool sys now (expired t) ?q)"
      by (rule reset_pool_ensures [OF pool_okD(1) [OF ok'] tf])
    with True pool_ok_positive [OF ok t] ok ok' hd t' show ?thesis
      by (auto simp: add_timer_in_own_loop_def save_eq [OF ok a t] armed_def elim!: ensures_mono)
  next
    case False
    moreover have "?q = ?q\<lparr>timer_socket := timer_socket p\<rparr>" by (simp add: saved_def)
    ultimately show ?thesis using ok ok' hd
      by (auto simp: add_timer_in_own_loop_def save_eq [OF ok a t] armed_def) (simp_all add: saved_def)
  qed
qed

lemma add_timer_ensures:
  assumes ok: "pool_ok xs p" and "malloc_ok malloc" and tf: "timerfd_ok dl sys" and "0 < e" and "0 \<le> i"
  shows "ensures tolerated (\<lambda>(tid, q). kept xs p q \<and> (armed dl p \<longrightarrow> armed dl q)) (add_timer sys malloc True now cb e i p)"
proof -
  have step: "ensures tolerated (\<lambda>q. kept xs p q \<and> (armed dl p \<longrightarrow> armed dl q) \<and> heap q a = Some t)
      (add_timer_in_own_loop sys now a p1)"
    if "pool_ok (a # xs) p1" "a \<notin> set xs" "p1 = p\<lparr>heap := (heap p)(a \<mapsto> t), global_sequence := global_sequence p + 1\<rparr>" for a p1 t
    using add_in_own_loop_ensures [OF that(1) _ tf, of a now] that(2,3)
    by (auto simp: kept_def armed_def saved_def elim!: ensures_mono)
  show ?thesis
    unfolding add_timer_def add_timer_begin_def bindR_assoc
  proof (rule ensures_bindR [OF new_timer_ensures [OF ok assms(2,4,5)]], clarsimp simp: bindR_assoc)
    fix a t
    let ?p1 = "p\<lparr>heap := (heap p)(a \<mapsto> t), global_sequence := global_sequence p + 1\<rparr>"
    assume "pool_ok (a # xs) ?p1" "a \<notin> set xs"
    from step [OF this refl] show "ensures tolerated (\<lambda>(tid, q). kept xs p q \<and> (armed dl p \<longrightarrow> armed dl q))
      (bindR (add_timer_in_own_loop sys now a ?p1) (\<lambda>p2. bindR (add_timer_end a p2) (\<lambda>tid. Inr (tid, p2))))"
      by (rule ensures_bindR) (auto simp: add_timer_end_def)
  qed
qed

definition dropped :: "int \<Rightarrow> nat \<Rightarrow> 'cb timer \<Rightarrow> ('cb, 'k) timer_pool \<Rightarrow> ('cb, 'k) timer_pool" where
  "dropped e a t p = p\<lparr>timers := remove1 (e, a) (timers p), heap := (heap p)(a := None),
     active_timers := remove1 (a, timer_seq t) (active_timers p)\<rparr>"

lemma heap_ok_sub: "heap_ok s h \<Longrightarrow> h' \<subseteq>\<^sub>m h \<Longrightarrow> heap_ok s h'"
  unfolding heap_ok_def map_le_def by (metis domI)

lemma pool_ok_dropped:
  assumes ok: "pool_ok xs p" and ea: "(e, a) \<in> set (timers p)" and t: "heap p a = Some t"
  shows "pool_ok xs (dropped e a t p)"
proof -
  let ?S = "set (timers p) - {(e, a)}"
  have dist: "distinct (timers p)" "distinct (active_timers p)" using pool_okD(2,3) [OF ok] by (simp_all add: ascending_def)
  have sets: "set (timers (dropped e a t p)) = ?S"
    "set (active_timers (dropped e a t p)) = set (active_timers p) - {(a, timer_seq t)}"
    using dist by (simp_all add: dropped_def)
  have frame: "heap (dropped e a t p) = (heap p)(a := None)" "posted (dropped e a t p) = posted p"
    "global_sequence (dropped e a t p) = global_sequence p" "in_own_loop (dropped e a t p) = in_own_loop p"
    by (simp_all add: dropped_def)
  have other: "b \<noteq> a" if "(e', b) \<in> ?S" for e' b using pool_ok_expiry [OF ok ea] that by auto
  have "snd ` ?S \<subseteq> snd ` set (timers p) - {a}" using other by force
  moreover have "snd ` set (timers p) - {a} \<subseteq> snd ` ?S" by force
  ultimately have snd: "snd ` ?S = snd ` set (timers p) - {a}" by blast
  have "a \<in> snd ` set (timers p)" using ea by force
  then have a: "a \<notin> set (posted p @ xs)" using pool_okD(7) [OF ok] by blast
  have "entry ((heap p)(a := None)) ` ?S = entry (heap p) ` ?S"
    by (rule entry_upd) (simp only: snd, simp)
  also have "\<dots> = set (active_timers p) - {(a, timer_seq t)}"
    using inj_on_image_set_diff [OF inj_entry [OF ok], of "set (timers p)" "{(e, a)}"] ea t pool_okD(4) [OF ok]
    by (simp add: entry_def)
  finally have act: "set (active_timers p) - {(a, timer_seq t)} = entry ((heap p)(a := None)) ` ?S" by simp
  have asc: "ascending (timers (dropped e a t p))" "ascending (active_timers (dropped e a t p))"
    using pool_okD(2,3) [OF ok] by (simp_all add: dropped_def ascending_remove1)
  have hp: "heap_ok (global_sequence p) ((heap p)(a := None))"
    using pool_okD(9) [OF ok] by (rule heap_ok_sub) (auto simp: map_le_def)
  have tm: "\<exists>u. ((heap p)(a := None)) b = Some u \<and> expired u = e'" if "(e', b) \<in> ?S" for e' b
    using pool_okD(5) [OF ok, of e' b] that other [OF that] by simp
  have dm: "dom ((heap p)(a := None)) = snd ` ?S \<union> set (posted p @ xs)"
    using pool_okD(8) [OF ok] a unfolding snd by auto
  show ?thesis
  proof (rule pool_okI, unfold frame sets)
    show "snd ` ?S \<inter> set (posted p @ xs) = {}" using pool_okD(7) [OF ok] unfolding snd by blast
  qed (fact asc act hp tm dm pool_okD(1) [OF ok] pool_okD(6) [OF ok])+
qed

lemma cancel_ensures:
  assumes ok: "pool_ok xs p" and tf: "timerfd_ok dl sys"
  shows "ensures tolerated (\<lambda>q. kept xs p q \<and> armed dl q
      \<and> (calling_expired_timers p \<longrightarrow> fst tid \<in> set xs \<longrightarrow> tid \<in> set (canceling_timers q)))
    (cancel_timer_in_own_loop sys now tid p)"
proof -
  have reset: "ensures tolerated (\<lambda>q. kept xs p q \<and> armed dl q \<and> canceling_timers q = canceling_timers p1)
      (check (sizes_agree p1) (reset_earliest sys now p1))" if "kept xs p p1" for p1
  proof -
    have ok1: "pool_ok xs p1" using that by (simp add: kept_def)
    from reset_earliest_ensures [OF ok1 tf, of now] show ?thesis
      using ok1 that by (auto simp: kept_def elim!: ensures_mono)
  qed
  obtain a s where tid: "tid = (a, s)" by (cases tid)
  consider (active) "tid \<in> set (active_timers p)" | (calling) "tid \<notin> set (active_timers p)" "calling_expired_timers p"
    | (unknown) "tid \<notin> set (active_timers p)" "\<not> calling_expired_timers p" by blast
  then show ?thesis
  proof cases
    case active
    then obtain e where ea: "(e, a) \<in> set (timers p)" and "s = timer_seq (the (heap p a))"
      using pool_okD(4) [OF ok] tid by (auto simp: entry_def)
    then obtain t where t: "heap p a = Some t" "expired t = e" "timer_seq t = s" using pool_okD(5) [OF ok ea] by auto
    have nx: "a \<notin> set xs" using pool_ok_not_active [OF ok, of a e] ea by blast
    have "kept xs p (dropped e a t p)"
      using pool_ok_dropped [OF ok ea t(1)] nx by (auto simp: kept_def dropped_def)
    from reset [OF this] active ea t nx ok tid show ?thesis
      by (auto simp: cancel_timer_in_own_loop_def set_erase_def dropped_def elim!: ensures_mono)
  next
    case calling
    let ?p1 = "p\<lparr>canceling_timers := fst (set_insert tid (canceling_timers p))\<rparr>"
    have "kept xs p ?p1" "tid \<in> set (canceling_timers ?p1)"
      using ok by (auto simp: kept_def set_insert_def set_insort_key)
    with reset [OF this(1)] calling ok show ?thesis
      by (auto simp: cancel_timer_in_own_loop_def elim!: ensures_mono)
  next
    case unknown
    with reset [OF kept_refl [OF ok]] ok show ?thesis
      by (auto simp: cancel_timer_in_own_loop_def elim!: ensures_mono)
  qed
qed

section \<open>Calls and callbacks\<close>

fun legal_call :: "'cb timer_call \<Rightarrow> bool" where
  "legal_call (Add_call now cb e i) \<longleftrightarrow> 0 < e \<and> 0 \<le> i"
| "legal_call (Cancel_call now tid) \<longleftrightarrow> True"

text \<open>The timers of \<open>xs\<close> that the calls \<open>cs\<close> cancel, from inside a callback, are marked.\<close>

definition marks :: "'cb timer_call list \<Rightarrow> nat list \<Rightarrow> ('cb, 'k) timer_pool \<Rightarrow> ('cb, 'k) timer_pool \<Rightarrow> bool" where
  "marks cs xs p q \<longleftrightarrow> (\<forall>now tid. Cancel_call now tid \<in> set cs \<longrightarrow> calling_expired_timers p \<longrightarrow>
     fst tid \<in> set xs \<longrightarrow> tid \<in> set (canceling_timers q))"

lemma marks_mono: "marks cs xs p q \<Longrightarrow> kept xs q r \<Longrightarrow> marks cs xs p r"
  by (auto simp: marks_def kept_def)

lemma marks_from: "kept xs p q \<Longrightarrow> marks cs xs q r \<Longrightarrow> marks cs xs p r"
  by (auto simp: marks_def kept_def)

lemma marks_Cons: "marks [c] xs p q \<Longrightarrow> marks cs xs p q \<Longrightarrow> marks (c # cs) xs p q"
  by (auto simp: marks_def)

lemma run_call_ensures:
  assumes "pool_ok xs p" and "malloc_ok malloc" and "timerfd_ok dl sys" and "legal_call c"
  shows "ensures tolerated (\<lambda>q. kept xs p q \<and> (armed dl p \<longrightarrow> armed dl q) \<and> marks [c] xs p q) (run_call sys malloc c p)"
proof (cases c)
  case (Add_call now cb e i)
  with assms show ?thesis
    by (auto simp: marks_def intro!: ensures_bindR [OF add_timer_ensures [OF assms(1-3), of e i now cb]])
next
  case (Cancel_call now tid)
  then show ?thesis using cancel_ensures [OF assms(1,3), of tid now] by (auto simp: marks_def elim!: ensures_mono)
qed

lemma run_calls_ensures:
  assumes "pool_ok xs p" and "malloc_ok malloc" and "timerfd_ok dl sys" and "list_all legal_call cs"
  shows "ensures tolerated (\<lambda>q. kept xs p q \<and> marks cs xs p q) (run_calls sys malloc cs p)"
  using assms(1,4)
proof (induction cs arbitrary: p)
  case Nil
  then show ?case by (simp add: kept_refl marks_def)
next
  case (Cons c cs)
  have "legal_call c" "list_all legal_call cs" using Cons.prems by simp_all
  note step = run_call_ensures [OF Cons.prems(1) assms(2,3) this(1)] and rest = Cons.IH [OF _ this(2)]
  show ?case
    unfolding run_calls.simps
  proof (rule ensures_bindR [OF step])
    fix q
    assume q: "kept xs p q \<and> (armed dl p \<longrightarrow> armed dl q) \<and> marks [c] xs p q"
    then have "pool_ok xs q" by (simp add: kept_def)
    from rest [OF this] show "ensures tolerated (\<lambda>q. kept xs p q \<and> marks (c # cs) xs p q) (run_calls sys malloc cs q)"
      by (rule ensures_mono) (use q in \<open>blast intro: kept_trans marks_Cons marks_mono marks_from\<close>)
  qed
qed

definition seqs :: "(nat \<rightharpoonup> 'cb timer) \<Rightarrow> (int \<times> nat) list \<Rightarrow> int list" where
  "seqs h due = map (\<lambda>(e, a). timer_seq (the (h a))) due"

lemma run_expired_ensures:
  assumes "pool_ok xs p" and "malloc_ok malloc" and "timerfd_ok dl sys" and "\<And>s. list_all legal_call (does s)"
    and "snd ` set due \<subseteq> set xs"
  shows "ensures tolerated (\<lambda>(rs, q). kept xs p q \<and> rs = seqs (heap p) due \<and> (\<forall>s\<in>set rs. marks (does s) xs p q))
    (run_expired sys malloc does due p)"
  using assms(1,5)
proof (induction due arbitrary: p)
  case Nil
  then show ?case by (simp add: kept_refl seqs_def)
next
  case (Cons x due)
  obtain e a where x: "x = (e, a)" by (cases x)
  have a: "a \<in> set xs" and due: "snd ` set due \<subseteq> set xs" using Cons.prems(2) x by auto
  obtain t where t: "heap p a = Some t" using pool_ok_heap [OF Cons.prems(1) a] by blast
  then have sq: "seqs (heap p) ((e, a) # due) = timer_seq t # seqs (heap p) due" by (simp add: seqs_def)
  show ?case
    unfolding x run_expired.simps pool_ok_deref [OF t] bindR.simps
  proof (rule ensures_bindR [OF run_calls_ensures [OF Cons.prems(1) assms(2,3,4)]])
    fix q
    assume q: "kept xs p q \<and> marks (does (timer_seq t)) xs p q"
    then have "pool_ok xs q" by (simp add: kept_def)
    have "seqs (heap q) due = seqs (heap p) due" using q due by (fastforce simp: seqs_def kept_def)
    note IH = Cons.IH [OF \<open>pool_ok xs q\<close> due, unfolded this]
    show "ensures tolerated (\<lambda>(rs, q). kept xs p q \<and> rs = seqs (heap p) ((e, a) # due) \<and> (\<forall>s\<in>set rs. marks (does s) xs p q))
      (bindR (run_expired sys malloc does due q) (\<lambda>(rs, p2). Inr (timer_seq t # rs, p2)))"
    proof (rule ensures_bindR [OF IH])
      fix y
      assume "case y of (rs, r) \<Rightarrow> kept xs q r \<and> rs = seqs (heap p) due \<and> (\<forall>s\<in>set rs. marks (does s) xs q r)"
      then obtain r where y: "y = (seqs (heap p) due, r)" "kept xs q r" "\<forall>s\<in>set (seqs (heap p) due). marks (does s) xs q r"
        by (cases y) auto
      have "kept xs p r" using q y(2) by (blast intro: kept_trans)
      moreover have "marks (does (timer_seq t)) xs p r" using q y(2) by (blast intro: marks_mono)
      moreover have "\<forall>s\<in>set (seqs (heap p) due). marks (does s) xs p r" using q y(3) by (blast intro: marks_from)
      ultimately show "ensures tolerated (\<lambda>(rs, q). kept xs p q \<and> rs = seqs (heap p) ((e, a) # due) \<and> (\<forall>s\<in>set rs. marks (does s) xs p q))
        (case y of (rs, p2) \<Rightarrow> Inr (timer_seq t # rs, p2))"
        by (simp add: y(1) sq)
    qed
  qed
qed

text \<open>Nothing else is marked: the marks that calls add are among the timers they cancel.\<close>

definition cancels :: "'cb timer_call list \<Rightarrow> (nat \<times> int) set" where
  "cancels cs = {tid. \<exists>now. Cancel_call now tid \<in> set cs}"

lemma cancels_simps [simp]:
  "cancels [] = {}"
  "cancels (Add_call now cb e i # cs) = cancels cs"
  "cancels (Cancel_call now tid # cs) = insert tid (cancels cs)"
  by (auto simp: cancels_def)

lemma reset_pool_canceling: "reset_pool sys now e p = Inr q \<Longrightarrow> canceling_timers q = canceling_timers p"
  by (auto simp: reset_pool_def split: if_splits)

lemma reset_earliest_canceling: "reset_earliest sys now p = Inr q \<Longrightarrow> canceling_timers q = canceling_timers p"
  by (auto simp: reset_earliest_def dest: reset_pool_canceling split: list.splits)

lemma save_canceling: "save a p = Inr (b, q) \<Longrightarrow> canceling_timers q = canceling_timers p"
  by (cases "deref a p") (auto simp: save_def Let_def split: prod.splits)

lemma add_in_own_loop_canceling:
  "add_timer_in_own_loop sys now a p = Inr q \<Longrightarrow> canceling_timers q = canceling_timers p"
  by (auto simp: add_timer_in_own_loop_def dest!: save_canceling reset_pool_canceling split: if_splits)

lemma add_timer_canceling:
  "add_timer sys malloc own now cb e i p = Inr (tid, q) \<Longrightarrow> canceling_timers q = canceling_timers p"
  by (auto simp: add_timer_def add_timer_begin_def new_timer_def
      dest!: add_in_own_loop_canceling split: if_splits option.splits)

lemma cancel_canceling:
  assumes "cancel_timer_in_own_loop sys now tid p = Inr q"
  shows "set (canceling_timers q) \<subseteq> insert tid (set (canceling_timers p))"
  using assms
  by (auto simp: cancel_timer_in_own_loop_def set_insert_def set_erase_def set_insort_key
      dest!: reset_earliest_canceling split: if_splits)

lemma run_call_canceling:
  "run_call sys malloc c p = Inr q \<Longrightarrow> set (canceling_timers q) \<subseteq> set (canceling_timers p) \<union> cancels [c]"
  by (cases c) (use add_timer_canceling cancel_canceling in fastforce)+

lemma run_calls_canceling:
  "run_calls sys malloc cs p = Inr q \<Longrightarrow> set (canceling_timers q) \<subseteq> set (canceling_timers p) \<union> cancels cs"
proof (induction cs arbitrary: p)
  case (Cons c cs)
  then obtain r where "run_call sys malloc c p = Inr r" "run_calls sys malloc cs r = Inr q" by auto
  from run_call_canceling [OF this(1)] Cons.IH [OF this(2)] show ?case by (cases c) auto
qed simp

lemma run_expired_canceling:
  "run_expired sys malloc does due p = Inr (rs, q) \<Longrightarrow>
     set (canceling_timers q) \<subseteq> set (canceling_timers p) \<union> (\<Union>s\<in>set rs. cancels (does s))"
proof (induction due arbitrary: p rs)
  case (Cons x due)
  obtain e a where x: "x = (e, a)" by (cases x)
  with Cons.prems obtain s p1 rs' where "run_calls sys malloc (does s) p = Inr p1"
    "run_expired sys malloc does due p1 = Inr (rs', q)" "rs = s # rs'" by auto
  with run_calls_canceling [OF this(1)] Cons.IH [OF this(2)] show ?case by auto
qed simp

section \<open>A round of expired timers\<close>

lemma erase_active_eq:
  assumes "distinct (map snd due)" and "distinct as" and "inj_on fst (set as)"
    and "\<And>e a. (e, a) \<in> set due \<Longrightarrow> \<exists>t. heap p a = Some t \<and> (a, timer_seq t) \<in> set as"
  shows "erase_active due (p\<lparr>active_timers := as\<rparr>) = Inr (p\<lparr>active_timers := filter (\<lambda>x. fst x \<notin> snd ` set due) as\<rparr>)"
  using assms
proof (induction due arbitrary: as)
  case (Cons x due)
  obtain e a where x: "x = (e, a)" by (cases x)
  with Cons.prems(4) obtain t where t: "heap p a = Some t" "(a, timer_seq t) \<in> set as" by force
  define as' where "as' = filter (\<lambda>y. fst y \<noteq> a) as"
  have "y = (a, timer_seq t)" if "y \<in> set as" "fst y = a" for y
    using inj_onD [OF Cons.prems(3), of y "(a, timer_seq t)"] that t(2) by simp
  then have rem: "remove1 (a, timer_seq t) as = as'"
    unfolding as'_def distinct_remove1_removeAll [OF Cons.prems(2)] removeAll_filter_not_eq
    by (intro filter_cong refl) (metis fst_conv)
  have IH: "erase_active due (p\<lparr>active_timers := as'\<rparr>) = Inr (p\<lparr>active_timers := filter (\<lambda>x. fst x \<notin> snd ` set due) as'\<rparr>)"
  proof (rule Cons.IH)
    show "distinct (map snd due)" "distinct as'" "inj_on fst (set as')"
      using Cons.prems(1-3) by (auto simp: as'_def inj_on_def)
    show "\<exists>t. heap p b = Some t \<and> (b, timer_seq t) \<in> set as'" if "(d, b) \<in> set due" for d b
      using Cons.prems(1) Cons.prems(4) [of d b] that x by (force simp: as'_def)
  qed
  have "filter (\<lambda>x. fst x \<notin> snd ` set due) as' = filter (\<lambda>y. fst y \<notin> snd ` set (x # due)) as"
    unfolding as'_def x by (simp add: conj_commute)
  with IH show ?case using t by (simp add: x set_erase_def rem deref_def)
qed simp

lemma takeWhile_ascending:
  fixes time :: int
  assumes "ascending ts" and "\<And>e a. (e, a) \<in> set ts \<Longrightarrow> a < UINTPTR_MAX"
  shows "takeWhile (\<lambda>x. x < (time, UINTPTR_MAX)) ts = filter (\<lambda>x. fst x \<le> time) ts
       \<and> dropWhile (\<lambda>x. x < (time, UINTPTR_MAX)) ts = filter (\<lambda>x. \<not> fst x \<le> time) ts"
  using assms
proof (induction ts)
  case (Cons x ts)
  obtain e a where x: "x = (e, a)" by (cases x)
  have lt: "x < (time, UINTPTR_MAX) \<longleftrightarrow> e \<le> time" using Cons.prems(2) [of e a] x by (auto simp: less_prod_def)
  have asc: "ascending ts" "\<forall>y\<in>set ts. x \<le> y" using Cons.prems(1) by (auto simp: ascending_def)
  have "a < UINTPTR_MAX" if "(e, a) \<in> set ts" for e a using Cons.prems(2) [of e a] that by simp
  note IH = Cons.IH [OF asc(1) this]
  show ?case
  proof (cases "e \<le> time")
    case True
    then show ?thesis using lt IH x by simp
  next
    case False
    have "\<not> fst y \<le> time" if "y \<in> set ts" for y
      using asc(2) that False x by (cases y) (force simp: less_eq_prod_def)
    then have "filter (\<lambda>x. fst x \<le> time) ts = []" "filter (\<lambda>x. \<not> fst x \<le> time) ts = ts"
      by (auto simp: filter_empty_conv filter_id_conv)
    with False lt x show ?thesis by simp
  qed
qed simp

abbreviation due_timers :: "int \<Rightarrow> ('cb, 'k) timer_pool \<Rightarrow> (int \<times> nat) list" where
  "due_timers time p \<equiv> filter (\<lambda>x. fst x \<le> time) (timers p)"

lemma pool_ok_distinct_addr: "pool_ok xs p \<Longrightarrow> distinct (map snd (timers p))"
  using pool_okD(2) [of xs p] pool_ok_expiry [of xs p]
  by (auto simp: distinct_map ascending_def inj_on_def)

definition taken :: "int \<Rightarrow> ('cb, 'k) timer_pool \<Rightarrow> ('cb, 'k) timer_pool" where
  "taken time p = p\<lparr>timers := filter (\<lambda>x. \<not> fst x \<le> time) (timers p),
     active_timers := filter (\<lambda>x. fst x \<notin> snd ` set (due_timers time p)) (active_timers p)\<rparr>"

lemma entry_filter: "{x \<in> entry h ` A. fst x \<notin> D} = entry h ` {x \<in> A. snd x \<notin> D}"
  by (auto simp: entry_def)

lemma pool_ok_taken:
  assumes ok: "pool_ok [] p"
  shows "pool_ok (map snd (due_timers time p)) (taken time p)"
proof -
  let ?D = "snd ` set (due_timers time p)"
  let ?q = "taken time p"
  have frame: "heap ?q = heap p" "posted ?q = posted p" "global_sequence ?q = global_sequence p" "in_own_loop ?q = in_own_loop p"
    "timers ?q = filter (\<lambda>x. \<not> fst x \<le> time) (timers p)"
    "active_timers ?q = filter (\<lambda>x. fst x \<notin> ?D) (active_timers p)"
    by (simp_all add: taken_def)
  have asc: "ascending (timers ?q)" "ascending (active_timers ?q)"
    using pool_okD(2,3) [OF ok] unfolding frame by (simp_all add: ascending_def sorted_wrt_filter)
  have due: "a \<in> ?D \<longleftrightarrow> e \<le> time" if "(e, a) \<in> set (timers p)" for e a
  proof
    assume "a \<in> ?D"
    then obtain e' where "(e', a) \<in> set (timers p)" "e' \<le> time" by auto
    with pool_ok_expiry [OF ok that] show "e \<le> time" by simp
  next
    assume "e \<le> time"
    with that have "(e, a) \<in> set (due_timers time p)" by simp
    then show "a \<in> ?D" by (metis image_eqI snd_conv)
  qed
  have later: "{x \<in> set (timers p). snd x \<notin> ?D} = {x \<in> set (timers p). \<not> fst x \<le> time}"
    using due by (metis (no_types, lifting) prod.collapse)
  have tq: "set (timers ?q) = {x \<in> set (timers p). snd x \<notin> ?D}" unfolding later by (simp add: frame)
  have act: "set (active_timers ?q) = entry (heap p) ` set (timers ?q)"
    unfolding tq frame(6) using entry_filter [of "heap p" "set (timers p)" ?D] pool_okD(4) [OF ok] by simp
  have snd: "snd ` set (timers p) = snd ` set (timers ?q) \<union> ?D"
    unfolding frame set_filter image_Un [symmetric] by (rule arg_cong [of _ _ "image snd"]) blast
  have disj: "snd ` set (timers ?q) \<inter> ?D = {}" unfolding tq by blast
  have dist: "distinct (map snd (due_timers time p))"
    using pool_ok_distinct_addr [OF ok] by (rule distinct_map_filter)
  have D: "?D \<subseteq> snd ` set (timers p)" by auto
  show ?thesis
    unfolding pool_ok_def frame(1-4)
    using asc act pool_okD(1,9) [OF ok] pool_okD(5,6) [OF ok] dist
  proof (intro conjI allI impI)
    show "\<exists>t. heap p a = Some t \<and> expired t = e" if "(e, a) \<in> set (timers ?q)" for e a
      using pool_okD(5) [OF ok] that unfolding frame by simp
    show "distinct (posted p @ map snd (due_timers time p))"
      using pool_okD(6,7) [OF ok] dist D by auto
    show "snd ` set (timers ?q) \<inter> set (posted p @ map snd (due_timers time p)) = {}"
      using pool_okD(7) [OF ok] disj unfolding snd by auto
    show "dom (heap p) = snd ` set (timers ?q) \<union> set (posted p @ map snd (due_timers time p))"
      using pool_okD(8) [OF ok] unfolding snd by auto
  qed
qed

lemma hd_filter_holds: "filter P xs \<noteq> [] \<Longrightarrow> P (hd (filter P xs))"
  using hd_in_set [of "filter P xs"] by (simp del: hd_in_set)

lemma fill_expired_eq:
  assumes ok: "pool_ok [] p"
  shows "fill_expired_timers time p = Inr (due_timers time p, taken time p)"
proof -
  have addr: "a < UINTPTR_MAX" if "(e, a) \<in> set (timers p)" for e a
    using pool_okD(5) [OF ok that] pool_okD(9) [OF ok] by (auto simp: heap_ok_def)
  then have tw: "takeWhile (\<lambda>x. x < (time, UINTPTR_MAX)) (timers p) = due_timers time p"
    "dropWhile (\<lambda>x. x < (time, UINTPTR_MAX)) (timers p) = filter (\<lambda>x. \<not> fst x \<le> time) (timers p)"
    using takeWhile_ascending [OF pool_okD(2) [OF ok], of time] by blast+
  have act: "\<exists>t. heap p a = Some t \<and> (a, timer_seq t) \<in> set (active_timers p)" if "(e, a) \<in> set (due_timers time p)" for e a
  proof -
    have ea: "(e, a) \<in> set (timers p)" using that by simp
    obtain t where t: "heap p a = Some t" using pool_okD(5) [OF ok ea] by blast
    have "entry (heap p) (e, a) \<in> set (active_timers p)" unfolding pool_okD(4) [OF ok] using ea by (rule imageI)
    with t show ?thesis by (simp add: entry_def)
  qed
  have inj: "inj_on fst (set (active_timers p))"
    unfolding pool_okD(4) [OF ok] by (auto simp: inj_on_def entry_def)
  have "distinct (map snd (due_timers time p))" by (rule distinct_map_filter [OF pool_ok_distinct_addr [OF ok]])
  moreover have "distinct (active_timers p)" using pool_okD(3) [OF ok] by (simp add: ascending_def)
  ultimately have "erase_active (due_timers time p) ((p\<lparr>timers := filter (\<lambda>x. \<not> fst x \<le> time) (timers p)\<rparr>)\<lparr>active_timers := active_timers p\<rparr>)
      = Inr (taken time p)"
    using erase_active_eq [of "due_timers time p" "active_timers p" "p\<lparr>timers := filter (\<lambda>x. \<not> fst x \<le> time) (timers p)\<rparr>"]
      inj act by (simp add: taken_def)
  moreover have "sizes_agree (taken time p)" using pool_ok_taken [OF ok] by (rule pool_ok_sizes)
  moreover have "filter (\<lambda>x. \<not> fst x \<le> time) (timers p) = [] \<or> fst (hd (filter (\<lambda>x. \<not> fst x \<le> time) (timers p))) > time"
    using hd_filter_holds [of "\<lambda>x. \<not> fst x \<le> time" "timers p"] unfolding linorder_not_le by blast
  ultimately show ?thesis using ok unfolding fill_expired_timers_def Let_def tw by simp
qed

end
