(* ===== verification/Timer_Rounds.thy ===== *)
theory Timer_Rounds
  imports Timer_Pool
begin

text \<open>
  What a round of expired timers does: \<^verbatim>\<open>TimerPool::update\<close> and \<^verbatim>\<open>TimerPool::handle_read\<close>, the invariant of
  the pool under every sequence of operations, and the properties of the timers.
\<close>

section \<open>Restarting and deleting timers\<close>

lemma pool_ok_heap_upd:
  assumes ok: "pool_ok xs p" and a: "a \<in> set xs" and t: "heap p a = Some t"
    and t': "timer_seq t' = timer_seq t" "interval t' = interval t" "0 < expired t'"
  shows "pool_ok xs (p\<lparr>heap := (heap p)(a \<mapsto> t')\<rparr>)"
proof -
  let ?q = "p\<lparr>heap := (heap p)(a \<mapsto> t')\<rparr>"
  have frame: "heap ?q = (heap p)(a \<mapsto> t')" "posted ?q = posted p" "global_sequence ?q = global_sequence p"
    "in_own_loop ?q = in_own_loop p" "timers ?q = timers p" "active_timers ?q = active_timers p" by simp_all
  have ne: "b \<noteq> a" if "(e, b) \<in> set (timers p)" for e b using pool_ok_not_active [OF ok a] that by blast
  have ent: "entry ((heap p)(a \<mapsto> t')) ` set (timers p) = entry (heap p) ` set (timers p)"
    using ne by (intro entry_upd) fastforce
  have "heap_ok (global_sequence p) ((heap p)(a \<mapsto> t'))"
    using pool_okD(9) [OF ok] t t' unfolding heap_ok_def by (auto split: if_splits)
  moreover have "\<exists>u. ((heap p)(a \<mapsto> t')) b = Some u \<and> expired u = e" if "(e, b) \<in> set (timers p)" for e b
    using pool_okD(5) [OF ok that] ne [OF that] by simp
  moreover have "dom ((heap p)(a \<mapsto> t')) = dom (heap p)" using t by auto
  ultimately show ?thesis
    unfolding pool_ok_def frame ent using pool_okD(1-4,6-8) [OF ok] by simp
qed

lemma pool_ok_delete:
  assumes ok: "pool_ok (a # xs) p"
  shows "pool_ok xs (p\<lparr>heap := (heap p)(a := None)\<rparr>)"
proof -
  let ?q = "p\<lparr>heap := (heap p)(a := None)\<rparr>"
  have frame: "heap ?q = (heap p)(a := None)" "posted ?q = posted p" "global_sequence ?q = global_sequence p"
    "in_own_loop ?q = in_own_loop p" "timers ?q = timers p" "active_timers ?q = active_timers p" by simp_all
  have ne: "b \<noteq> a" if "(e, b) \<in> set (timers p)" for e b
    using pool_ok_not_active [OF ok, of a e] that by auto
  have ent: "entry ((heap p)(a := None)) ` set (timers p) = entry (heap p) ` set (timers p)"
    using ne by (intro entry_upd) fastforce
  have "heap_ok (global_sequence p) ((heap p)(a := None))"
    using pool_okD(9) [OF ok] by (rule heap_ok_sub) (auto simp: map_le_def)
  moreover have "\<exists>u. ((heap p)(a := None)) b = Some u \<and> expired u = e" if "(e, b) \<in> set (timers p)" for e b
    using pool_okD(5) [OF ok that] ne [OF that] by simp
  moreover have "a \<notin> snd ` set (timers p)" "a \<notin> set (posted p @ xs)"
    using pool_okD(6,7) [OF ok] by auto
  then have "dom ((heap p)(a := None)) = snd ` set (timers p) \<union> set (posted p @ xs)"
    using pool_okD(8) [OF ok] by auto
  ultimately show ?thesis
    unfolding pool_ok_def frame ent using pool_okD(1-4,6-7) [OF ok] by simp
qed

text \<open>What becomes of a timer whose callback ran: a repeating one that was not cancelled meanwhile is
  active again, at one interval from now; any other is deleted.\<close>

definition settled :: "int \<Rightarrow> (int \<times> nat) list \<Rightarrow> ('cb, 'k) timer_pool \<Rightarrow> ('cb, 'k) timer_pool \<Rightarrow> bool" where
  "settled time due p q \<longleftrightarrow> (\<forall>(e, a)\<in>set due. \<forall>t. heap p a = Some t \<longrightarrow>
     (if repeat_timer t \<and> (a, timer_seq t) \<notin> set (canceling_timers p)
      then heap q a = Some (t\<lparr>expired := time + interval t\<rparr>) \<and> (time + interval t, a) \<in> set (timers q)
      else heap q a = None))"

lemma settledD:
  assumes "settled time due p q" and "(e, a) \<in> set due" and "heap p a = Some t"
  shows "if repeat_timer t \<and> (a, timer_seq t) \<notin> set (canceling_timers p)
     then heap q a = Some (t\<lparr>expired := time + interval t\<rparr>) \<and> (time + interval t, a) \<in> set (timers q)
     else heap q a = None"
  using bspec [OF assms(1) [unfolded settled_def] assms(2)] assms(3) by simp

lemma settled_cong:
  "(\<And>e a. (e, a) \<in> set due \<Longrightarrow> heap p' a = heap p a) \<Longrightarrow> canceling_timers p' = canceling_timers p \<Longrightarrow>
     settled time due p' q = settled time due p q"
  unfolding settled_def by (intro ball_cong refl) auto

lemma settled_Cons:
  "heap p a = Some t \<Longrightarrow> settled time ((e, a) # due) p q \<longleftrightarrow>
     (if repeat_timer t \<and> (a, timer_seq t) \<notin> set (canceling_timers p)
      then heap q a = Some (t\<lparr>expired := time + interval t\<rparr>) \<and> (time + interval t, a) \<in> set (timers q)
      else heap q a = None) \<and> settled time due p q"
  by (simp add: settled_def)

lemma update_each_ensures:
  assumes "0 \<le> time" and "pool_ok (map snd due) p"
  shows "ensures tolerated (\<lambda>q. pool_ok [] q \<and> settled time due p q \<and> set (timers p) \<subseteq> set (timers q)
      \<and> (\<forall>a. a \<notin> snd ` set due \<longrightarrow> heap q a = heap p a) \<and> canceling_timers q = canceling_timers p)
    (update_each time due p)"
  using assms(2)
proof (induction due arbitrary: p)
  case (Cons x due)
  obtain e a where x: "x = (e, a)" by (cases x)
  have ok: "pool_ok (a # map snd due) p" using Cons.prems x by simp
  then obtain t where t: "heap p a = Some t" using pool_ok_heap by force
  have na: "a \<notin> snd ` set due" using pool_okD(6) [OF ok] by auto
  show ?case
  proof (cases "repeat_timer t \<and> (a, timer_seq t) \<notin> set (canceling_timers p)")
    case True
    define t' where "t' = t\<lparr>expired := time + interval t\<rparr>"
    let ?p = "p\<lparr>heap := (heap p)(a \<mapsto> t')\<rparr>"
    have "0 \<le> interval t" "interval t \<noteq> 0" using True pool_okD(9) [OF ok] t by (auto simp: heap_ok_def repeat_timer_def)
    then have ok': "pool_ok (a # map snd due) ?p"
      using assms(1) by (intro pool_ok_heap_upd [OF ok _ t]) (simp_all add: t'_def)
    have sv: "save a ?p = Inr (timers p = [] \<or> fst (hd (timers p)) > expired t', saved a t' ?p)"
      using save_eq [OF ok', of a t'] by simp
    have ok2: "pool_ok (map snd due) (saved a t' ?p)" using pool_ok_saved [OF ok', of a t'] by simp
    have up: "update_each time (x # due) p =
        bindR (i64 (time + interval t)) (\<lambda>_. update_each time due (saved a t' ?p))"
      using True t sv by (simp add: x restart_def time_add_def i64_def t'_def)
    have other: "heap (saved a t' ?p) b = heap p b" if "b \<noteq> a" for b using that by (simp add: saved_def)
    have frame: "canceling_timers (saved a t' ?p) = canceling_timers p" "heap (saved a t' ?p) a = Some t'"
      "set (timers (saved a t' ?p)) = insert (expired t', a) (set (timers p))"
      by (simp_all add: saved_def set_insort_key)
    show ?thesis
      unfolding up
    proof (rule ensures_bindR [OF i64_ensures], rule ensures_mono [OF Cons.IH [OF ok2]])
      fix q
      assume q: "pool_ok [] q \<and> settled time due (saved a t' ?p) q \<and> set (timers (saved a t' ?p)) \<subseteq> set (timers q)
        \<and> (\<forall>b. b \<notin> snd ` set due \<longrightarrow> heap q b = heap (saved a t' ?p) b) \<and> canceling_timers q = canceling_timers (saved a t' ?p)"
      have "heap (saved a t' ?p) b = heap p b" if "(d, b) \<in> set due" for d b
        using other [of b] na that by (metis image_eqI snd_conv)
      with q have "settled time due p q" using settled_cong [of due "saved a t' ?p" p] frame(1) by blast
      moreover have "heap q a = Some t'" "(expired t', a) \<in> set (timers q)" using q na frame by auto
      ultimately have "settled time (x # due) p q" using True unfolding x settled_Cons [OF t] t'_def by simp
      then show "pool_ok [] q \<and> settled time (x # due) p q \<and> set (timers p) \<subseteq> set (timers q)
        \<and> (\<forall>b. b \<notin> snd ` set (x # due) \<longrightarrow> heap q b = heap p b) \<and> canceling_timers q = canceling_timers p"
        using q frame other x by auto
    qed
  next
    case False
    let ?p = "p\<lparr>heap := (heap p)(a := None)\<rparr>"
    have up: "update_each time (x # due) p = update_each time due ?p" using False t by (auto simp: x)
    show ?thesis
      unfolding up
    proof (rule ensures_mono [OF Cons.IH [OF pool_ok_delete [OF ok]]])
      fix q
      assume q: "pool_ok [] q \<and> settled time due ?p q \<and> set (timers ?p) \<subseteq> set (timers q)
        \<and> (\<forall>b. b \<notin> snd ` set due \<longrightarrow> heap q b = heap ?p b) \<and> canceling_timers q = canceling_timers ?p"
      have "heap ?p b = heap p b" if "(d, b) \<in> set due" for d b
        using na that by (metis fun_upd_other image_eqI snd_conv timer_pool.select_convs(7) timer_pool.surjective timer_pool.update_convs(7))
      with q have "settled time due p q" using settled_cong [of due ?p p] by (simp del: fun_upd_apply)
      moreover have "heap q a = None" using q na by auto
      ultimately have "settled time (x # due) p q" using False unfolding x settled_Cons [OF t] by simp
      then show "pool_ok [] q \<and> settled time (x # due) p q \<and> set (timers p) \<subseteq> set (timers q)
        \<and> (\<forall>b. b \<notin> snd ` set (x # due) \<longrightarrow> heap q b = heap p b) \<and> canceling_timers q = canceling_timers p"
        using q x by auto
    qed
  qed
qed (simp add: settled_def)

section \<open>Every operation keeps the invariant\<close>

text \<open>A round that is done: the callbacks of the due timers ran, each of these timers is settled, and the
  marks among them are those the callbacks of this round asked for, no more and no fewer.\<close>

definition round_done ::
  "(int \<Rightarrow> 'cb timer_call list) \<Rightarrow> int \<Rightarrow> ('cb, 'k) timer_pool \<Rightarrow> int list \<Rightarrow> ('cb, 'k) timer_pool \<Rightarrow> bool" where
  "round_done does cur p rs q \<longleftrightarrow>
     rs = seqs (heap p) (due_timers cur p)
     \<and> settled cur (due_timers cur p) (p\<lparr>canceling_timers := canceling_timers q\<rparr>) q
     \<and> (\<forall>tid. fst tid \<in> snd ` set (due_timers cur p) \<longrightarrow>
          (tid \<in> set (canceling_timers q) \<longleftrightarrow> (\<exists>s\<in>set rs. tid \<in> cancels (does s))))"

lemma update_ensures:
  assumes "0 \<le> time" and ok: "pool_ok (map snd due) p" and tf: "timerfd_ok dl sys"
  shows "ensures tolerated (\<lambda>q. pool_ok [] q \<and> armed dl q \<and> settled time due p q \<and> canceling_timers q = canceling_timers p)
    (update sys now time due p)"
  unfolding update_def
proof (intro ensures_check ensures_bindR [OF update_each_ensures [OF assms(1) ok]])
  show "in_own_loop p" "sizes_agree p" using ok by simp_all
  fix q
  assume q: "pool_ok [] q \<and> settled time due p q \<and> set (timers p) \<subseteq> set (timers q)
      \<and> (\<forall>a. a \<notin> snd ` set due \<longrightarrow> heap q a = heap p a) \<and> canceling_timers q = canceling_timers p"
  then have "ensures tolerated (\<lambda>r. armed dl r \<and> (\<exists>k. r = q\<lparr>timer_socket := k\<rparr>)) (reset_earliest sys now q)"
    by (intro reset_earliest_ensures [where xs = "[]", OF _ tf]) simp
  then show "ensures tolerated (\<lambda>q. pool_ok [] q \<and> armed dl q \<and> settled time due p q \<and> canceling_timers q = canceling_timers p)
    (reset_earliest sys now q)"
    by (rule ensures_mono) (use q in \<open>auto simp: settled_def\<close>)
qed

lemma callbacks_ensures:
  assumes ok: "pool_ok [] p" and "malloc_ok malloc" and tf: "timerfd_ok dl sys"
    and "\<And>s. list_all legal_call (does s)" and "0 \<le> cur"
  shows "ensures tolerated (\<lambda>(rs, q). pool_ok [] q \<and> armed dl q \<and> round_done does cur p rs q)
    (bindR (fill_expired_timers cur p) (\<lambda>(due, p1).
     bindR (run_expired sys malloc does due (p1\<lparr>calling_expired_timers := True, canceling_timers := []\<rparr>)) (\<lambda>(rs, p2).
     bindR (update sys now cur due (p2\<lparr>calling_expired_timers := False\<rparr>)) (\<lambda>p3.
     Inr (rs, p3)))))"
proof -
  let ?due = "due_timers cur p"
  let ?xs = "map snd ?due"
  let ?p1 = "taken cur p\<lparr>calling_expired_timers := True, canceling_timers := []\<rparr>"
  have ok1: "pool_ok ?xs ?p1" using pool_ok_taken [OF ok] by simp
  have h1: "heap ?p1 = heap p" by (simp add: taken_def)
  have run: "ensures tolerated (\<lambda>(rs, q). kept ?xs ?p1 q \<and> rs = seqs (heap p) ?due
      \<and> (\<forall>s\<in>set rs. marks (does s) ?xs ?p1 q) \<and> set (canceling_timers q) \<subseteq> (\<Union>s\<in>set rs. cancels (does s)))
    (run_expired sys malloc does ?due ?p1)"
    using run_expired_ensures [where does = does and due = ?due, OF ok1 assms(2,3,4)] run_expired_canceling [of sys malloc does ?due ?p1]
    unfolding h1 by (cases "run_expired sys malloc does ?due ?p1") auto
  have step: "ensures tolerated (\<lambda>(rs', q). pool_ok [] q \<and> armed dl q \<and> round_done does cur p rs' q)
      (bindR (update sys now cur ?due (p2\<lparr>calling_expired_timers := False\<rparr>)) (\<lambda>p3. Inr (rs, p3)))"
    if p2: "kept ?xs ?p1 p2" "rs = seqs (heap p) ?due" "\<forall>s\<in>set rs. marks (does s) ?xs ?p1 p2"
      "set (canceling_timers p2) \<subseteq> (\<Union>s\<in>set rs. cancels (does s))" for rs p2
  proof (rule ensures_bindR [OF update_ensures [OF assms(5) _ tf]])
    show "pool_ok ?xs (p2\<lparr>calling_expired_timers := False\<rparr>)" using p2(1) by (simp add: kept_def)
    fix q
    assume q: "pool_ok [] q \<and> armed dl q \<and> settled cur ?due (p2\<lparr>calling_expired_timers := False\<rparr>) q
      \<and> canceling_timers q = canceling_timers (p2\<lparr>calling_expired_timers := False\<rparr>)"
    have "settled cur ?due (p2\<lparr>calling_expired_timers := False\<rparr>) q = settled cur ?due (p\<lparr>canceling_timers := canceling_timers q\<rparr>) q"
    proof (rule settled_cong)
      fix e a
      assume "(e, a) \<in> set ?due"
      then have "a \<in> set ?xs" by force
      moreover have "\<forall>b\<in>set ?xs. heap p2 b = heap ?p1 b" using p2(1) unfolding kept_def by blast
      ultimately have "heap p2 a = heap p a" unfolding h1 by blast
      then show "heap (p2\<lparr>calling_expired_timers := False\<rparr>) a = heap (p\<lparr>canceling_timers := canceling_timers q\<rparr>) a"
        by simp
    qed (use q in simp)
    moreover have "tid \<in> set (canceling_timers q) \<longleftrightarrow> (\<exists>s\<in>set rs. tid \<in> cancels (does s))"
      if "fst tid \<in> snd ` set ?due" for tid
    proof
      show "tid \<in> set (canceling_timers q) \<Longrightarrow> \<exists>s\<in>set rs. tid \<in> cancels (does s)" using p2(4) q by auto
      show "\<exists>s\<in>set rs. tid \<in> cancels (does s) \<Longrightarrow> tid \<in> set (canceling_timers q)"
        using p2(3) q that by (cases tid) (force simp: marks_def cancels_def)
    qed
    ultimately show "ensures tolerated (\<lambda>(rs', q). pool_ok [] q \<and> armed dl q \<and> round_done does cur p rs' q) (Inr (rs, q))"
      using q p2(2) by (simp add: round_done_def)
  qed
  show ?thesis
    unfolding fill_expired_eq [OF ok] bindR.simps prod.case
    by (rule ensures_bindR [OF run]) (use step in \<open>auto split: prod.splits\<close>)
qed

lemma handle_read_ensures:
  assumes ok: "pool_ok [] p" and "malloc_ok malloc" and tf: "timerfd_ok dl sys"
    and "\<And>s. list_all legal_call (does s)" and "0 \<le> cur"
  shows "ensures tolerated (\<lambda>(rs, q). pool_ok [] q \<and> (armed dl p \<longrightarrow> armed dl q)
      \<and> (if fst (tfd_read sys (timer_socket p)) = 8 then round_done does cur p rs q
         else rs = [] \<and> q = p\<lparr>timer_socket := snd (tfd_read sys (timer_socket p))\<rparr>))
    (handle_read_timer sys malloc does cur now p)"
proof -
  obtain n k where rd: "tfd_read sys (timer_socket p) = (n, k)" by (cases "tfd_read sys (timer_socket p)")
  have dl: "dl k = dl (timer_socket p)" using tf rd by (metis timerfd_ok_def snd_conv)
  have "round_done does cur (p\<lparr>timer_socket := k\<rparr>) = round_done does cur p"
    by (intro ext) (simp add: round_done_def settled_def)
  moreover have "pool_ok [] (p\<lparr>timer_socket := k\<rparr>)" using ok by simp
  from callbacks_ensures [OF this assms(2-5), where now = now] have
    "ensures tolerated (\<lambda>(rs, q). pool_ok [] q \<and> armed dl q \<and> round_done does cur (p\<lparr>timer_socket := k\<rparr>) rs q)
      (bindR (fill_expired_timers cur (p\<lparr>timer_socket := k\<rparr>)) (\<lambda>(due, p1).
       bindR (run_expired sys malloc does due (p1\<lparr>calling_expired_timers := True, canceling_timers := []\<rparr>)) (\<lambda>(rs, p2).
       bindR (update sys now cur due (p2\<lparr>calling_expired_timers := False\<rparr>)) (\<lambda>p3.
       Inr (rs, p3)))))" .
  ultimately show ?thesis
    using ok rd dl unfolding handle_read_timer_def
    by (cases "n = 8") (auto simp: armed_def elim!: ensures_mono)
qed

fun legal_pool_op :: "'cb pool_op \<Rightarrow> bool" where
  "legal_pool_op (In_loop c) \<longleftrightarrow> legal_call c"
| "legal_pool_op (Post_add cb e i) \<longleftrightarrow> 0 < e \<and> 0 \<le> i"
| "legal_pool_op (Return_add i) \<longleftrightarrow> True"
| "legal_pool_op (Run_posted now) \<longleftrightarrow> True"
| "legal_pool_op (Readable does cur now) \<longleftrightarrow> 0 \<le> cur \<and> (\<forall>s. list_all legal_call (does s))"

definition pool_inv :: "('k \<Rightarrow> int option) \<Rightarrow> 'k timer_sys \<Rightarrow> 'cb allocator \<Rightarrow> ('cb, 'k) timer_pool \<Rightarrow> bool" where
  "pool_inv dl sys malloc p \<longleftrightarrow> malloc_ok malloc \<and> timerfd_ok dl sys \<and> pool_ok [] p \<and> armed dl p"

lemma pool_ok_post: "pool_ok [a] p \<Longrightarrow> pool_ok [] (p\<lparr>posted := posted p @ [a]\<rparr>)"
  by (auto simp: pool_ok_def)

lemma pool_ok_take_posted: "pool_ok [] p \<Longrightarrow> posted p = a # as \<Longrightarrow> pool_ok [a] (p\<lparr>posted := as\<rparr>)"
  by (auto simp: pool_ok_def)

text \<open>The one operation that may reach a deleted timer is the return of \<^verbatim>\<open>add_timer\<close> in another thread.\<close>

fun stale_return :: "('cb, 'k) timer_pool \<Rightarrow> 'cb pool_op \<Rightarrow> bool" where
  "stale_return p (Return_add i) \<longleftrightarrow> i < length (adding p) \<and> heap p (adding p ! i) = None"
| "stale_return p _ \<longleftrightarrow> False"

lemma pool_step_ensures:
  assumes "pool_inv dl sys malloc p" and "legal_pool_op x"
  shows "ensures (\<lambda>f. tolerated f \<or> f = Out_of_bounds \<and> stale_return p x) (\<lambda>(rs, q). pool_inv dl sys malloc q)
    (pool_step sys malloc p x)"
proof -
  have ok: "pool_ok [] p" and ml: "malloc_ok malloc" and tf: "timerfd_ok dl sys" and ar: "armed dl p"
    using assms(1) by (simp_all add: pool_inv_def)
  show ?thesis
  proof (cases x)
    case (In_loop c)
    with run_call_ensures [OF ok ml tf, of c] assms(2) ar ml tf
    have "ensures tolerated (\<lambda>(rs, q). pool_inv dl sys malloc q) (pool_step sys malloc p x)"
      by (auto simp: pool_inv_def kept_def elim!: ensures_bindR)
    then show ?thesis by (rule ensures_weaken) simp
  next
    case (Post_add cb e i)
    have "ensures tolerated (\<lambda>(a, q). pool_inv dl sys malloc q) (add_timer_begin sys malloc False 0 cb e i p)"
      unfolding add_timer_begin_def
      by (rule ensures_bindR [OF new_timer_ensures [OF ok ml, of e i cb]])
        (use assms(2) Post_add ar ml tf in \<open>auto simp: pool_inv_def armed_def dest: pool_ok_post\<close>)
    then have "ensures tolerated (\<lambda>(rs, q). pool_inv dl sys malloc q) (pool_step sys malloc p x)"
      unfolding Post_add pool_step.simps by (rule ensures_bindR) (auto simp: pool_inv_def armed_def)
    then show ?thesis by (rule ensures_weaken) simp
  next
    case (Return_add i)
    with assms(1) show ?thesis
      by (auto simp: add_timer_end_def deref_def pool_inv_def armed_def split: option.splits)
  next
    case (Run_posted now)
    show ?thesis
    proof (cases "posted p")
      case Nil
      then show ?thesis using Run_posted assms(1) by simp
    next
      case (Cons a as)
      have "pool_ok [a] (p\<lparr>posted := as\<rparr>)" using pool_ok_take_posted [OF ok Cons] .
      from add_in_own_loop_ensures [OF this _ tf, of a now] have
        "ensures tolerated (pool_inv dl sys malloc) (add_timer_in_own_loop sys now a (p\<lparr>posted := as\<rparr>))"
        using ar ml tf by (auto simp: pool_inv_def armed_def elim!: ensures_mono)
      then have "ensures tolerated (\<lambda>(rs, q). pool_inv dl sys malloc q) (pool_step sys malloc p x)"
        unfolding Run_posted pool_step.simps Cons list.case by (rule ensures_bindR) auto
      then show ?thesis by (rule ensures_weaken) simp
    qed
  next
    case (Readable does cur now)
    with handle_read_ensures [OF ok ml tf, of does cur now] assms(2) ar ml tf
    have "ensures tolerated (\<lambda>(rs, q). pool_inv dl sys malloc q) (pool_step sys malloc p x)"
      by (auto simp: pool_inv_def elim!: ensures_mono)
    then show ?thesis by (rule ensures_weaken) simp
  qed
qed

definition pool_fault :: "fault \<Rightarrow> bool" where
  "pool_fault f \<longleftrightarrow> tolerated f \<or> f = Out_of_bounds"

interpretation tpool: step_invariant "pool_inv dl sys malloc" "pool_step sys malloc" legal_pool_op pool_fault
  by unfold_locales (auto simp: pool_fault_def dest: pool_step_ensures)

lemma pool_inv_initial: "malloc_ok malloc \<Longrightarrow> timerfd_ok dl sys \<Longrightarrow> pool_inv dl sys malloc (new_timer_pool k)"
  by (simp add: pool_inv_def pool_ok_def new_timer_pool_def armed_def ascending_def heap_ok_def)

section \<open>Properties\<close>

text \<open>A kernel timer as the manual page describes it, and an allocator with ten places.\<close>

definition kernel_timer :: "int option timer_sys" where
  "kernel_timer =
     \<lparr>settime = (\<lambda>now ts k. if valid_timespec ts
        then (0, if tv_sec ts = 0 \<and> tv_nsec ts = 0 then None
                 else Some (now + tv_sec ts * 1000000 + tv_nsec ts div 1000))
        else (-1, k)),
      tfd_read = (\<lambda>k. (8, k))\<rparr>"

definition first_free :: "'cb allocator" where
  "first_free h = List.find (\<lambda>a. h a = None) [0..<10]"

lemma kernel_timer_ok: "timerfd_ok (\<lambda>k. k) kernel_timer"
  by (simp add: timerfd_ok_def kernel_timer_def)

lemma first_free_ok: "malloc_ok first_free"
  by (auto simp: malloc_ok_def first_free_def find_Some_iff UINTPTR_MAX_def)

lemmas pool_eval = add_timer_def add_timer_begin_def add_timer_end_def new_timer_def add_timer_in_own_loop_def save_def deref_def set_insert_def set_erase_def
  sizes_agree_def reset_pool_def reset_earliest_def timerfd_reset_def reset_timerfd_def time_diff_def time_add_def
  i64_def in_int64_def kInt64Max_def kInt64Min_def delta_to_timespec_pos kernel_timer_def first_free_def upt_rec
  cancel_timer_in_own_loop_def handle_read_timer_def fill_expired_timers_def update_def restart_def repeat_timer_def
  new_timer_pool_def valid_timespec_def time_consts UINTPTR_MAX_def less_prod_def Let_def

text \<open>A timer that repeats every 50 microseconds from 200 on, and a first round at 200.\<close>

definition timer_ops :: "nat pool_op list" where
  "timer_ops = [In_loop (Add_call 100 7 200 50), Readable (\<lambda>s. []) 200 210]"

definition ticking :: "int \<Rightarrow> (nat, int option) timer_pool" where
  "ticking e = \<lparr>in_own_loop = True, timers = [(e, 0)], active_timers = [(0, 0)], canceling_timers = [],
     calling_expired_timers = False, timer_socket = Some e,
     heap = [0 \<mapsto> \<lparr>expired = e, interval = 50, timer_cb = 7, timer_seq = 0\<rparr>], global_sequence = 1, posted = [],
     adding = []\<rparr>"

lemma timer_ops_legal: "list_all legal_pool_op timer_ops"
  by (simp add: timer_ops_def)

lemma timer_ops_run:
  "run_steps (pool_step kernel_timer first_free) (new_timer_pool None) timer_ops = Inr ([[], [0]], ticking 250)"
proof -
  have "pool_step kernel_timer first_free (new_timer_pool None) (In_loop (Add_call 100 7 200 50)) = Inr ([], ticking 200)"
    by (simp add: pool_eval ticking_def)
  moreover have "pool_step kernel_timer first_free (ticking 200) (Readable (\<lambda>s. []) 200 210) = Inr ([0], ticking 250)"
    by (simp add: pool_eval ticking_def)
  ultimately show ?thesis by (simp add: timer_ops_def del: pool_step.simps)
qed

text \<open>A timer that another thread adds, and that fires and is deleted before \<^verbatim>\<open>add_timer\<close> of that thread has read
  its sequence number.\<close>

definition racing_ops :: "nat pool_op list" where
  "racing_ops = [Post_add 7 200 0, Run_posted 100, Readable (\<lambda>s. []) 200 210, Return_add 0]"

definition racing ::
  "(int \<times> nat) list \<Rightarrow> (nat \<times> int) list \<Rightarrow> int option \<Rightarrow> (nat \<rightharpoonup> nat timer) \<Rightarrow> nat list \<Rightarrow> (nat, int option) timer_pool" where
  "racing ts as k h pd = \<lparr>in_own_loop = True, timers = ts, active_timers = as, canceling_timers = [],
     calling_expired_timers = False, timer_socket = k, heap = h, global_sequence = 1, posted = pd, adding = [0]\<rparr>"

lemma add_timer_use_after_free:
  "run_steps (pool_step kernel_timer first_free) (new_timer_pool None) racing_ops = Inl Out_of_bounds"
proof -
  let ?h = "[0 \<mapsto> \<lparr>expired = 200, interval = 0, timer_cb = 7 :: nat, timer_seq = 0\<rparr>]"
  have "pool_step kernel_timer first_free (new_timer_pool None) (Post_add 7 200 0) = Inr ([], racing [] [] None ?h [0])"
    by (simp add: pool_eval racing_def)
  moreover have "pool_step kernel_timer first_free (racing [] [] None ?h [0]) (Run_posted 100)
      = Inr ([], racing [(200, 0)] [(0, 0)] (Some 200) ?h [])"
    by (simp add: pool_eval racing_def)
  moreover have "pool_step kernel_timer first_free (racing [(200, 0)] [(0, 0)] (Some 200) ?h []) (Readable (\<lambda>s. []) 200 210)
      = Inr ([0], racing [] [] (Some 200) Map.empty [])"
    by (simp add: pool_eval racing_def fun_eq_iff)
  moreover have "pool_step kernel_timer first_free (racing [] [] (Some 200) Map.empty []) (Return_add 0) = Inl Out_of_bounds"
    by (simp add: pool_eval racing_def)
  ultimately show ?thesis by (simp add: racing_ops_def del: pool_step.simps)
qed



text \<open>No timer is overlooked. After every operation that returns, the timer descriptor is armed for the
  earliest active timer.\<close>

theorem timerfd_armed:
  assumes "malloc_ok malloc" and "timerfd_ok dl sys" and "list_all legal_pool_op ops"
    and "run_steps (pool_step sys malloc) (new_timer_pool k) ops = Inr (outs, p)" and "(e, a) \<in> set (timers p)"
  shows "\<exists>d. dl (timer_socket p) = Some d \<and> d \<le> e \<and> (\<exists>b. (d, b) \<in> set (timers p))"
proof -
  have inv: "pool_ok [] p" "armed dl p"
    using tpool.run_inv [OF pool_inv_initial [OF assms(1,2)] assms(3,4)] by (simp_all add: pool_inv_def)
  have "hd (timers p) \<le> (e, a)" using hd_least [OF pool_okD(2) [OF inv(1)] assms(5)] .
  moreover have "hd (timers p) \<in> set (timers p)" using assms(5) by (intro hd_in_set) auto
  ultimately show ?thesis using inv(2) assms(5)
    by (cases "hd (timers p)") (auto simp: armed_def less_eq_prod_def)
qed

theorem timerfd_armed_witness:
  "\<exists>d. timer_socket (ticking 250) = Some d \<and> d \<le> 250 \<and> (\<exists>b. (d, b) \<in> set (timers (ticking 250)))"
  by (rule timerfd_armed [OF first_free_ok kernel_timer_ok timer_ops_legal timer_ops_run]) (simp add: ticking_def)

text \<open>C4: What a round of timers does. When the timer descriptor is read in a reachable state, the callbacks
  that run are exactly those of the active timers that have expired, each once, in the order of
  their expiry. Afterwards a repeating timer is active again at one interval from now if no callback of this
  round, its own included, cancelled it; every other expired timer is deleted.\<close>

theorem timers_fire:
  assumes "malloc_ok malloc" and "timerfd_ok dl sys" and "list_all legal_pool_op ops"
    and "run_steps (pool_step sys malloc) (new_timer_pool k) ops = Inr (outs, p)"
    and "legal_pool_op (Readable does cur now)" and "fst (tfd_read sys (timer_socket p)) = 8"
    and "handle_read_timer sys malloc does cur now p = Inr (rs, q)"
  shows "rs = map (\<lambda>(e, a). timer_seq (the (heap p a))) (filter (\<lambda>(e, a). e \<le> cur) (timers p))
    \<and> distinct rs \<and> sorted (map fst (timers p))
    \<and> (\<forall>e a t. (e, a) \<in> set (timers p) \<longrightarrow> e \<le> cur \<longrightarrow> heap p a = Some t \<longrightarrow>
         (if repeat_timer t \<and> \<not> (\<exists>s\<in>set rs. \<exists>when. Cancel_call when (a, timer_seq t) \<in> set (does s))
          then heap q a = Some (t\<lparr>expired := cur + interval t\<rparr>) \<and> (cur + interval t, a) \<in> set (timers q)
          else heap q a = None))"
proof -
  have ok: "pool_ok [] p"
    using tpool.run_inv [OF pool_inv_initial [OF assms(1,2)] assms(3,4)] by (simp add: pool_inv_def)
  have rd: "round_done does cur p rs q"
    using ensures_value [OF handle_read_ensures [OF ok assms(1,2)] assms(7)] assms(5,6) by simp
  let ?due = "due_timers cur p"
  have due: "?due = filter (\<lambda>(e, a). e \<le> cur) (timers p)" by (rule filter_cong) auto
  have rs: "rs = map (\<lambda>(e, a). timer_seq (the (heap p a))) ?due" using rd by (simp add: round_done_def seqs_def)
  have "distinct ?due" using pool_okD(2) [OF ok] by (simp add: ascending_def)
  moreover have "inj_on (\<lambda>(e, a). timer_seq (the (heap p a))) (set ?due)"
  proof (rule inj_onI, clarsimp)
    fix e a e' b
    assume *: "(e, a) \<in> set (timers p)" "(e', b) \<in> set (timers p)" "timer_seq (the (heap p a)) = timer_seq (the (heap p b))"
    obtain t u where tu: "heap p a = Some t" "expired t = e" "heap p b = Some u" "expired u = e'"
      using pool_okD(5) [OF ok *(1)] pool_okD(5) [OF ok *(2)] by blast
    with *(3) have "a = b" using pool_okD(9) [OF ok] by (simp add: heap_ok_def)
    with tu show "e = e' \<and> a = b" by simp
  qed
  ultimately have "distinct rs" unfolding rs distinct_map by blast
  moreover have "sorted (map fst (timers p))"
    using pool_okD(2) [OF ok] unfolding ascending_def by (auto simp: sorted_map less_eq_prod_def elim!: sorted_wrt_mono_rel [rotated])
  moreover have "if repeat_timer t \<and> \<not> (\<exists>s\<in>set rs. \<exists>when. Cancel_call when (a, timer_seq t) \<in> set (does s))
      then heap q a = Some (t\<lparr>expired := cur + interval t\<rparr>) \<and> (cur + interval t, a) \<in> set (timers q)
      else heap q a = None"
    if "(e, a) \<in> set (timers p)" "e \<le> cur" "heap p a = Some t" for e a t
  proof -
    have mem: "(e, a) \<in> set ?due" using that by simp
    then have "a \<in> snd ` set ?due" by (metis image_eqI snd_conv)
    then have "(a, timer_seq t) \<in> set (canceling_timers q) \<longleftrightarrow> (\<exists>s\<in>set rs. (a, timer_seq t) \<in> cancels (does s))"
      using rd unfolding round_done_def by (metis fst_conv)
    moreover have "settled cur ?due (p\<lparr>canceling_timers := canceling_timers q\<rparr>) q" using rd by (simp add: round_done_def)
    from settledD [OF this mem, of t] that(3) have "if repeat_timer t \<and> (a, timer_seq t) \<notin> set (canceling_timers q)
          then heap q a = Some (t\<lparr>expired := cur + interval t\<rparr>) \<and> (cur + interval t, a) \<in> set (timers q)
          else heap q a = None"
      by simp
    ultimately show ?thesis by (simp add: cancels_def)
  qed
  ultimately show ?thesis using rs unfolding due by (intro conjI allI impI) (blast | meson)+
qed

theorem timers_fire_witness:
  "\<exists>rs q. handle_read_timer kernel_timer first_free (\<lambda>s. [Cancel_call 255 (0, 0)]) 250 260 (ticking 250) = Inr (rs, q)
     \<and> rs = [0] \<and> heap q 0 = None"
proof -
  let ?does = "\<lambda>s :: int. [Cancel_call 255 (0, 0)] :: nat timer_call list"
  let ?q = "(ticking 250)\<lparr>timers := [], active_timers := [], canceling_timers := [(0, 0)], heap := Map.empty\<rparr>"
  have run: "handle_read_timer kernel_timer first_free ?does 250 260 (ticking 250) = Inr ([0], ?q)"
    by (simp add: pool_eval ticking_def fun_eq_iff)
  have "legal_pool_op (Readable ?does 250 260)" by simp
  from timers_fire [OF first_free_ok kernel_timer_ok timer_ops_legal timer_ops_run this _ run] run show ?thesis
    by (auto simp: kernel_timer_def ticking_def)
qed

text \<open>C32: A timer that is due at once aborts the process. When a timer is added whose time is not later than
  the clock read on arming the descriptor, and it is the earliest, then the call does not return:
  \<^verbatim>\<open>TimerFD::reset\<close> passes a time of zero or less on and checks that this succeeded.\<close>

theorem timer_in_past_aborts:
  assumes "pool_inv dl sys malloc p" and "malloc (heap p) \<noteq> None"
    and "0 < e" and "0 \<le> i" and "e \<le> now" and "in_int64 (now * 1000)"
    and "timers p = [] \<or> e < fst (hd (timers p))"
  shows "add_timer sys malloc True now cb e i p = Inl Bad_syscall"
proof -
  have ok: "pool_ok [] p" and ml: "malloc_ok malloc" and tf: "timerfd_ok dl sys"
    using assms(1) by (simp_all add: pool_inv_def)
  obtain a where a: "malloc (heap p) = Some a" using assms(2) by blast
  define t where "t = \<lparr>expired = e, interval = i, timer_cb = cb, timer_seq = global_sequence p\<rparr>"
  define p1 where "p1 = p\<lparr>heap := (heap p)(a \<mapsto> t), global_sequence := global_sequence p + 1\<rparr>"
  have new: "new_timer malloc cb e i p = Inr (a, p1)" using a by (simp add: new_timer_def p1_def t_def)
  with new_timer_ensures [OF ok ml assms(3,4), of cb] have ok1: "pool_ok [a] p1" by simp
  have h1: "heap p1 a = Some t" by (simp add: p1_def)
  have "timers p1 = [] \<or> fst (hd (timers p1)) > expired t" using assms(7) by (simp add: p1_def t_def)
  with save_eq [OF ok1 _ h1] have sv: "save a p1 = Inr (True, saved a t p1)" by simp
  let ?d = "e - now"
  have range: "in_int64 ?d" "?d \<le> 0" "?d < 0 \<Longrightarrow> in_int64 (?d * 1000)"
    using assms(3,5,6) by (auto simp: int64_defs)
  have fd: "timerfd_reset sys now ?d k = Inl Bad_syscall" for k
  proof (cases "?d = 0")
    case False
    then have ts: "delta_to_timespec ?d = Inr \<lparr>tv_sec = 0, tv_nsec = ?d * 1000\<rparr>"
      using range by (intro delta_to_timespec_neg) auto
    have "\<not> valid_timespec \<lparr>tv_sec = 0, tv_nsec = ?d * 1000\<rparr>" using False range(2) by (simp add: valid_timespec_def)
    then have "fst (settime sys now \<lparr>tv_sec = 0, tv_nsec = ?d * 1000\<rparr> k) < 0" using tf by (simp add: timerfd_ok_def)
    then show ?thesis unfolding timerfd_reset_def reset_timerfd_def ts
      using False by (cases "settime sys now \<lparr>tv_sec = 0, tv_nsec = ?d * 1000\<rparr> k") simp
  qed (simp add: timerfd_reset_def reset_timerfd_def)
  have "heap (saved a t p1) a = Some t" "expired t = e" "in_own_loop (saved a t p1)"
    using h1 pool_okD(1) [OF ok1] by (simp_all add: saved_def t_def)
  then have "add_timer_in_own_loop sys now a p1 = Inl Bad_syscall"
    using ok1 sv fd range(1) assms(3) by (simp add: add_timer_in_own_loop_def reset_pool_def time_diff_def i64_def)
  with new show ?thesis by (simp add: add_timer_def add_timer_begin_def)
qed

theorem timer_in_past_aborts_witness:
  "add_timer kernel_timer first_free True 1000 (7::nat) 1000 0 (new_timer_pool None) = Inl Bad_syscall"
proof (rule timer_in_past_aborts)
  show "pool_inv (\<lambda>k. k) kernel_timer first_free (new_timer_pool None)"
    by (rule pool_inv_initial [OF first_free_ok kernel_timer_ok])
qed (simp_all add: first_free_def new_timer_pool_def upt_rec int64_defs)

end
