(* ===== verification/Tcp_Connection.thy ===== *)
theory Tcp_Connection
  imports Net_Buffer Channel_Poller
begin

text \<open>
  A TCP connection (include/TcpConnection.h, src/TcpConnection.cc): its state machine, its buffers and
  its channel. The parts of the environment that act on it appear as follows.

  \<^item> \<open>tasks\<close> are the functions queued in the connection's loop, in order; a member function called in
    the thread of the loop (\<open>own\<close>) runs its \<^verbatim>\<open>_in_loop\<close> part at once, otherwise it queues it. The handlers
    and the \<^verbatim>\<open>_in_loop\<close> parts run in the thread of the loop, as their \<^verbatim>\<open>check_in_own_loop\<close> demands.
  \<^item> The callbacks of the user and of the server are the events a step yields. What they do to the
    connection are steps of their own: each is the last action of its handler.
  \<^item> \<open>w\<close> answers \<^verbatim>\<open>write(2)\<close> with an error number or the number of bytes taken, \<open>rv\<close> answers \<^verbatim>\<open>readv(2)\<close>.
  \<^item> The channel operations have the effect shown in the theory of the pollers (\<open>channel_do\<close>).

  \<open>wire\<close>, \<open>accepted\<close>, \<open>wr_shut\<close> and \<open>delayed\<close> are ghost fields: the bytes the socket took, the bytes the
  connection took responsibility for, whether the writing side was shut down, and the timers of
  \<^verbatim>\<open>force_close_with_delay\<close>.
\<close>

section \<open>State\<close>

datatype state_e = kDisconnected | kConnecting | kConnected | kDisconnecting

datatype conn_task =
    Send_task "byte list"
  | Shutdown_task
  | Force_close_task
  | Start_read_task
  | Stop_read_task
  | Write_complete_task
  | High_water_task nat

datatype conn_event =
    Connect_callback
  | Message_callback
  | Close_callback
  | Finish_callback
  | Write_complete_callback
  | High_water_callback nat
  | Shut_write

record tcp_connection =
  initilize :: bool
  reading :: bool
  conn_state :: state_e
  connect_channel :: channel
  input_buffer :: byte_buffer
  output_buffer :: byte_buffer
  has_write_complete_cb :: bool
  has_high_water_mark_cb :: bool
  high_water_mark :: nat
  tasks :: "conn_task list"
  wire :: "byte list"
  accepted :: "byte list"
  wr_shut :: bool
  delayed :: nat

definition kEAGAIN :: errno where "kEAGAIN = 11"
definition kEPIPE :: errno where "kEPIPE = 32"
definition kECONNRESET :: errno where "kECONNRESET = 104"

type_synonym sys_write = "byte list \<Rightarrow> errno + nat"
type_synonym sys_readv = "nat \<Rightarrow> errno + byte list"

text \<open>An operation on the channel of the connection, whose descriptor no other channel has.\<close>

definition channel_do :: "chan_op \<Rightarrow> channel \<Rightarrow> channel res" where
  "channel_do x ch =
     check (x = Op_remove \<longrightarrow> is_none_event ch \<and> status ch \<noteq> kChannelPollInit) (Inr (chan_effect x ch))"

definition conn_channel :: "chan_op \<Rightarrow> tcp_connection \<Rightarrow> tcp_connection res" where
  "conn_channel x c = bindR (channel_do x (connect_channel c)) (\<lambda>ch. Inr (c\<lparr>connect_channel := ch\<rparr>))"

definition queue_task :: "conn_task \<Rightarrow> tcp_connection \<Rightarrow> tcp_connection" where
  "queue_task t c = c\<lparr>tasks := tasks c @ [t]\<rparr>"

section \<open>Construction\<close>

definition new_tcp_connection :: "int \<Rightarrow> bool \<Rightarrow> bool \<Rightarrow> tcp_connection res" where
  "new_tcp_connection fd wcb hcb =
     bindR (new_buffer kUnLimitSize kInitialSize) (\<lambda>bin.
     bindR (new_buffer kUnLimitSize kInitialSize) (\<lambda>bout.
     Inr \<lparr>initilize = False, reading = True, conn_state = kConnecting, connect_channel = new_channel fd,
          input_buffer = bin, output_buffer = bout, has_write_complete_cb = wcb, has_high_water_mark_cb = hcb,
          high_water_mark = 64 * 1024 * 1024, tasks = [], wire = [], accepted = [], wr_shut = False, delayed = 0\<rparr>))"

definition initialize_in_loop :: "tcp_connection \<Rightarrow> tcp_connection" where
  "initialize_in_loop c =
     c\<lparr>connect_channel := (connect_channel c)\<lparr>has_read_cb := True, has_write_cb := True,
         has_close_cb := True, has_error_cb := True\<rparr>\<rparr>"

definition initialize :: "tcp_connection \<Rightarrow> tcp_connection res" where
  "initialize c = check (\<not> initilize c) (Inr (initialize_in_loop (c\<lparr>initilize := True\<rparr>)))"

definition make_tcp_connection :: "int \<Rightarrow> bool \<Rightarrow> bool \<Rightarrow> tcp_connection res" where
  "make_tcp_connection fd wcb hcb = bindR (new_tcp_connection fd wcb hcb) initialize"

section \<open>Closing\<close>

definition handle_close :: "tcp_connection \<Rightarrow> (conn_event list \<times> tcp_connection) res" where
  "handle_close c =
     check (conn_state c = kConnected \<or> conn_state c = kDisconnecting)
     (bindR (conn_channel Op_disable_all (c\<lparr>conn_state := kDisconnected\<rparr>)) (\<lambda>c1.
      Inr ([Close_callback, Finish_callback], c1)))"

definition shutdown_in_loop :: "tcp_connection \<Rightarrow> conn_event list \<times> tcp_connection" where
  "shutdown_in_loop c =
     (if \<not> is_write_event (connect_channel c) then ([Shut_write], c\<lparr>wr_shut := True\<rparr>) else ([], c))"

definition shutdown :: "bool \<Rightarrow> tcp_connection \<Rightarrow> (conn_event list \<times> tcp_connection) res" where
  "shutdown own c = check (initilize c)
     (if conn_state c = kConnected then
        let c1 = c\<lparr>conn_state := kDisconnecting\<rparr>
        in Inr (if own then shutdown_in_loop c1 else ([], queue_task Shutdown_task c1))
      else Inr ([], c))"

definition force_close :: "tcp_connection \<Rightarrow> (conn_event list \<times> tcp_connection) res" where
  "force_close c = check (initilize c)
     (if conn_state c = kConnected \<or> conn_state c = kDisconnecting
      then Inr ([], queue_task Force_close_task (c\<lparr>conn_state := kDisconnecting\<rparr>))
      else Inr ([], c))"

definition force_close_with_delay :: "tcp_connection \<Rightarrow> (conn_event list \<times> tcp_connection) res" where
  "force_close_with_delay c = check (initilize c)
     (if conn_state c = kConnected \<or> conn_state c = kDisconnecting
      then Inr ([], c\<lparr>conn_state := kDisconnecting, delayed := delayed c + 1\<rparr>)
      else Inr ([], c))"

definition force_close_in_loop :: "tcp_connection \<Rightarrow> (conn_event list \<times> tcp_connection) res" where
  "force_close_in_loop c =
     (if conn_state c = kConnected \<or> conn_state c = kDisconnecting then handle_close c else Inr ([], c))"

section \<open>Sending\<close>

definition write_direct :: "sys_write \<Rightarrow> byte list \<Rightarrow> tcp_connection \<Rightarrow> tcp_connection \<times> nat \<times> bool" where
  "write_direct w data c =
     (case w data of
        Inr nwrote \<Rightarrow>
          let c1 = c\<lparr>wire := wire c @ take nwrote data\<rparr>
          in (if size_sub (length data) nwrote = 0 \<and> has_write_complete_cb c
              then queue_task Write_complete_task c1 else c1, nwrote, False)
      | Inl err \<Rightarrow> (c, 0, err \<noteq> kEAGAIN \<and> (err = kEPIPE \<or> err = kECONNRESET)))"

definition append_output :: "byte list \<Rightarrow> nat \<Rightarrow> tcp_connection \<Rightarrow> tcp_connection res" where
  "append_output data nwrote c =
     bindR (readable_bytes (output_buffer c)) (\<lambda>history.
     let remaining = size_sub (length data) nwrote;
         c1 = (if size_add history remaining \<ge> high_water_mark c \<and> history < high_water_mark c \<and> has_high_water_mark_cb c
               then queue_task (High_water_task (size_add history remaining)) c else c)
     in bindR (buf_append (output_buffer c1) (drop nwrote data)) (\<lambda>(ok, ob).
        let c2 = c1\<lparr>output_buffer := ob\<rparr>
        in if \<not> is_write_event (connect_channel c2) then conn_channel Op_enable_write c2 else Inr c2))"

definition send_in_loop :: "sys_write \<Rightarrow> byte list \<Rightarrow> tcp_connection \<Rightarrow> tcp_connection res" where
  "send_in_loop w data c =
     (if conn_state c = kDisconnected then Inr c
      else bindR (readable_bytes (output_buffer c)) (\<lambda>n.
        let (c1, nwrote, fault_error) =
              (if \<not> is_write_event (connect_channel c) \<and> n = 0 then write_direct w data c else (c, 0, False));
            remaining = size_sub (length data) nwrote
        in check (remaining \<le> length data)
             (if \<not> fault_error \<and> remaining > 0
              then append_output data nwrote (c1\<lparr>accepted := accepted c1 @ data\<rparr>)
              else Inr (if fault_error then c1 else c1\<lparr>accepted := accepted c1 @ data\<rparr>))))"

definition conn_send :: "sys_write \<Rightarrow> bool \<Rightarrow> byte list \<Rightarrow> tcp_connection \<Rightarrow> tcp_connection res" where
  "conn_send w own data c = check (initilize c)
     (if conn_state c = kConnected
      then if own then send_in_loop w data c else Inr (queue_task (Send_task data) c)
      else Inr c)"

definition send_buffer ::
  "sys_write \<Rightarrow> bool \<Rightarrow> byte_buffer \<Rightarrow> tcp_connection \<Rightarrow> (byte_buffer \<times> tcp_connection) res" where
  "send_buffer w own bb c = check (initilize c)
     (if conn_state c = kConnected
      then bindR (taken_as_string bb (-1)) (\<lambda>(data, bb1).
           bindR (if own then send_in_loop w data c else Inr (queue_task (Send_task data) c)) (\<lambda>c1.
           Inr (bb1, c1)))
      else Inr (bb, c))"

section \<open>Reading and writing\<close>

definition start_read_in_loop :: "tcp_connection \<Rightarrow> tcp_connection res" where
  "start_read_in_loop c =
     (if \<not> reading c
      then let c1 = c\<lparr>reading := True\<rparr>
           in if \<not> is_read_event (connect_channel c1) then conn_channel Op_enable_read c1 else Inr c1
      else Inr c)"

definition stop_read_in_loop :: "tcp_connection \<Rightarrow> tcp_connection res" where
  "stop_read_in_loop c =
     (if reading c
      then let c1 = c\<lparr>reading := False\<rparr>
           in if is_read_event (connect_channel c1) then conn_channel Op_disable_read c1 else Inr c1
      else Inr c)"

definition start_read :: "bool \<Rightarrow> tcp_connection \<Rightarrow> tcp_connection res" where
  "start_read own c = check (initilize c) (if own then start_read_in_loop c else Inr (queue_task Start_read_task c))"

definition stop_read :: "bool \<Rightarrow> tcp_connection \<Rightarrow> tcp_connection res" where
  "stop_read own c = check (initilize c) (if own then stop_read_in_loop c else Inr (queue_task Stop_read_task c))"

definition conn_handle_read :: "sys_readv \<Rightarrow> tcp_connection \<Rightarrow> (conn_event list \<times> tcp_connection) res" where
  "conn_handle_read rv c =
     bindR (read_fd (input_buffer c) rv) (\<lambda>(n, bb).
       let c1 = c\<lparr>input_buffer := bb\<rparr>
       in case n of
            Inr k \<Rightarrow> if k > 0 then Inr ([Message_callback], c1) else handle_close c1
          | Inl err \<Rightarrow> Inr ([], c1))"

definition conn_handle_write :: "sys_write \<Rightarrow> tcp_connection \<Rightarrow> (conn_event list \<times> tcp_connection) res" where
  "conn_handle_write w c =
     (if is_write_event (connect_channel c) then
        bindR (to_string (output_buffer c)) (\<lambda>data.
        case w data of
          Inl err \<Rightarrow> Inr ([], c)
        | Inr n \<Rightarrow>
            if n > 0 then
              bindR (has_read (output_buffer c) n) (\<lambda>ob.
              bindR (readable_bytes ob) (\<lambda>left.
              let c1 = c\<lparr>output_buffer := ob, wire := wire c @ take n data\<rparr>
              in if left = 0 then
                   bindR (conn_channel Op_disable_write c1) (\<lambda>c2.
                   let c3 = (if has_write_complete_cb c2 then queue_task Write_complete_task c2 else c2)
                   in Inr (if conn_state c3 = kDisconnecting then shutdown_in_loop c3 else ([], c3)))
                 else Inr ([], c1)))
            else Inr ([], c))
      else Inr ([], c))"

fun run_callbacks ::
  "sys_readv \<Rightarrow> sys_write \<Rightarrow> channel_cb list \<Rightarrow> tcp_connection \<Rightarrow> (conn_event list \<times> tcp_connection) res" where
  "run_callbacks rv w [] c = Inr ([], c)"
| "run_callbacks rv w (cb # cbs) c =
     bindR (case cb of
              Close_cb \<Rightarrow> handle_close c
            | Error_cb \<Rightarrow> Inr ([], c)
            | Read_cb \<Rightarrow> conn_handle_read rv c
            | Write_cb \<Rightarrow> conn_handle_write w c) (\<lambda>(es, c1).
     bindR (run_callbacks rv w cbs c1) (\<lambda>(es', c2). Inr (es @ es', c2)))"

section \<open>The server's part\<close>

definition connect_established :: "tcp_connection \<Rightarrow> (conn_event list \<times> tcp_connection) res" where
  "connect_established c =
     check (conn_state c = kConnecting)
     (bindR (conn_channel Op_enable_read (c\<lparr>conn_state := kConnected\<rparr>)) (\<lambda>c1. Inr ([Connect_callback], c1)))"

definition connect_destroyed :: "tcp_connection \<Rightarrow> (conn_event list \<times> tcp_connection) res" where
  "connect_destroyed c =
     bindR (if conn_state c = kConnected
            then bindR (conn_channel Op_disable_all (c\<lparr>conn_state := kDisconnected\<rparr>)) (\<lambda>c1. Inr ([Close_callback], c1))
            else Inr ([], c)) (\<lambda>(es, c1).
     bindR (conn_channel Op_remove c1) (\<lambda>c2. Inr (es, c2)))"

definition conn_destroy :: "tcp_connection \<Rightarrow> unit res" where
  "conn_destroy c = check (initilize c) (check (conn_state c = kDisconnected) (Inr ()))"

section \<open>Steps\<close>

datatype conn_op =
    Op_send bool "byte list" sys_write
  | Op_shutdown bool
  | Op_force_close
  | Op_force_close_with_delay
  | Op_delay_over
  | Op_start_read bool
  | Op_stop_read bool
  | Op_consume nat
  | Op_run_task sys_write
  | Op_event "32 word" sys_readv sys_write

fun run_task :: "sys_write \<Rightarrow> conn_task \<Rightarrow> tcp_connection \<Rightarrow> (conn_event list \<times> tcp_connection) res" where
  "run_task w (Send_task data) c = bindR (send_in_loop w data c) (\<lambda>c1. Inr ([], c1))"
| "run_task w Shutdown_task c = Inr (shutdown_in_loop c)"
| "run_task w Force_close_task c = force_close_in_loop c"
| "run_task w Start_read_task c = bindR (start_read_in_loop c) (\<lambda>c1. Inr ([], c1))"
| "run_task w Stop_read_task c = bindR (stop_read_in_loop c) (\<lambda>c1. Inr ([], c1))"
| "run_task w Write_complete_task c = Inr ([Write_complete_callback], c)"
| "run_task w (High_water_task n) c = Inr ([High_water_callback n], c)"

text \<open>A poller reports events of a channel only while it watches the channel, and only requested events
  and \<^verbatim>\<open>POLLERR\<close>, \<^verbatim>\<open>POLLHUP\<close>, \<^verbatim>\<open>POLLNVAL\<close>.\<close>

definition reported :: "32 word \<Rightarrow> channel \<Rightarrow> bool" where
  "reported r ch \<longleftrightarrow> status ch = kChannelPollAdded
     \<and> r AND NOT (events ch OR POLLERR OR POLLHUP OR POLLNVAL) = 0"

fun conn_step :: "tcp_connection \<Rightarrow> conn_op \<Rightarrow> (conn_event list \<times> tcp_connection) res" where
  "conn_step c (Op_send own data w) = bindR (conn_send w own data c) (\<lambda>c1. Inr ([], c1))"
| "conn_step c (Op_shutdown own) = shutdown own c"
| "conn_step c Op_force_close = force_close c"
| "conn_step c Op_force_close_with_delay = force_close_with_delay c"
| "conn_step c Op_delay_over =
     (if delayed c > 0 then force_close (c\<lparr>delayed := delayed c - 1\<rparr>) else Inr ([], c))"
| "conn_step c (Op_start_read own) = bindR (start_read own c) (\<lambda>c1. Inr ([], c1))"
| "conn_step c (Op_stop_read own) = bindR (stop_read own c) (\<lambda>c1. Inr ([], c1))"
| "conn_step c (Op_consume n) = bindR (has_read (input_buffer c) n) (\<lambda>bb. Inr ([], c\<lparr>input_buffer := bb\<rparr>))"
| "conn_step c (Op_run_task w) =
     (case tasks c of [] \<Rightarrow> Inr ([], c) | t # ts \<Rightarrow> run_task w t (c\<lparr>tasks := ts\<rparr>))"
| "conn_step c (Op_event r rv w) =
     (if reported r (connect_channel c)
      then let c1 = c\<lparr>connect_channel := (connect_channel c)\<lparr>revents := r\<rparr>\<rparr>
           in bindR (handle_event True (connect_channel c1)) (\<lambda>cbs. run_callbacks rv w cbs c1)
      else Inr ([], c))"

text \<open>\<^verbatim>\<open>write\<close> takes at most what it was given, \<^verbatim>\<open>readv\<close> gives at most what was asked for, and a hang-up comes
  with \<^verbatim>\<open>POLLIN\<close> if there is anything to read. The operations include every public one except
  \<^verbatim>\<open>stop_read\<close>: the invariant below does not survive it, because a later \<^verbatim>\<open>start_read\<close> may register the channel
  of a closed connection again (\<^verbatim>\<open>start_read_after_close\<close>). What is proved of a run therefore holds of
  programs that never stop reading.\<close>

definition write_ok :: "sys_write \<Rightarrow> bool" where
  "write_ok w \<longleftrightarrow> (\<forall>data n. w data = Inr n \<longrightarrow> n \<le> length data)"

definition readv_ok :: "sys_readv \<Rightarrow> bool" where
  "readv_ok rv \<longleftrightarrow> (\<forall>n data. rv n = Inr data \<longrightarrow> length data \<le> n)"

fun legal_conn_op :: "conn_op \<Rightarrow> bool" where
  "legal_conn_op (Op_send own data w) \<longleftrightarrow> write_ok w \<and> length data \<le> vec_max"
| "legal_conn_op (Op_stop_read own) \<longleftrightarrow> False"
| "legal_conn_op (Op_run_task w) \<longleftrightarrow> write_ok w"
| "legal_conn_op (Op_event r rv w) \<longleftrightarrow> write_ok w \<and> readv_ok rv
     \<and> (r AND POLLHUP \<noteq> 0 \<longrightarrow> r AND POLLPRI \<noteq> 0 \<longrightarrow> r AND POLLIN \<noteq> 0)"
| "legal_conn_op _ \<longleftrightarrow> True"

section \<open>Invariant\<close>

definition is_open :: "tcp_connection \<Rightarrow> bool" where
  "is_open c \<longleftrightarrow> conn_state c = kConnected \<or> conn_state c = kDisconnecting"

fun task_ok :: "conn_task \<Rightarrow> bool" where
  "task_ok (Send_task data) \<longleftrightarrow> length data \<le> vec_max"
| "task_ok Stop_read_task \<longleftrightarrow> False"
| "task_ok _ \<longleftrightarrow> True"

definition pending :: "tcp_connection \<Rightarrow> bool" where
  "pending c \<longleftrightarrow> wr_shut c \<or> contents (output_buffer c) \<noteq> [] \<or> Shutdown_task \<in> set (tasks c)
     \<or> Force_close_task \<in> set (tasks c) \<or> delayed c > 0"

definition channel_ok :: "tcp_connection \<Rightarrow> bool" where
  "channel_ok c \<longleftrightarrow> (let ch = connect_channel c in
     has_read_cb ch \<and> has_write_cb ch \<and> has_close_cb ch \<and> has_error_cb ch
     \<and> (if is_open c then status ch = kChannelPollAdded
          \<and> events ch = (if contents (output_buffer c) = [] then kReadEvent else kReadEvent OR kWriteEvent)
        else status ch = kChannelPollDeleted \<and> events ch = kNoneEvent))"

definition conn_base :: "tcp_connection \<Rightarrow> bool" where
  "conn_base c \<longleftrightarrow> initilize c \<and> reading c \<and> conn_state c \<noteq> kConnecting
     \<and> bb_inv (input_buffer c) \<and> max_size (input_buffer c) = kUnLimitSize
     \<and> bb_inv (output_buffer c) \<and> max_size (output_buffer c) = kUnLimitSize
     \<and> wire c @ contents (output_buffer c) = accepted c
     \<and> channel_ok c \<and> list_all task_ok (tasks c)"

definition conn_inv :: "tcp_connection \<Rightarrow> bool" where
  "conn_inv c \<longleftrightarrow> conn_base c \<and> (conn_state c = kDisconnecting \<longrightarrow> pending c)"

lemma channel_ok_frame [simp]:
  "channel_ok (c\<lparr>tasks := ts\<rparr>) = channel_ok c" "channel_ok (c\<lparr>wr_shut := b\<rparr>) = channel_ok c"
  "channel_ok (c\<lparr>delayed := n\<rparr>) = channel_ok c" "channel_ok (c\<lparr>wire := x\<rparr>) = channel_ok c"
  "channel_ok (c\<lparr>accepted := x\<rparr>) = channel_ok c" "channel_ok (c\<lparr>input_buffer := bb\<rparr>) = channel_ok c"
  by (simp_all add: channel_ok_def is_open_def)

lemmas event_bits = kNoneEvent_def kReadEvent_def kWriteEvent_def POLLIN_def POLLPRI_def POLLOUT_def

lemma event_algebra [simp]:
  "kReadEvent AND kWriteEvent = 0" "(kReadEvent OR kWriteEvent) AND kWriteEvent \<noteq> 0" "kWriteEvent \<noteq> 0"
  "kReadEvent \<noteq> 0" "(kReadEvent OR kWriteEvent) AND NOT kWriteEvent = kReadEvent"
  "kReadEvent \<noteq> kNoneEvent" "kReadEvent OR kWriteEvent \<noteq> kNoneEvent" "kNoneEvent AND kWriteEvent = 0"
  by (simp_all add: event_bits)

lemma poll_status_distinct [simp]:
  "kChannelPollAdded \<noteq> kChannelPollDeleted" "kChannelPollDeleted \<noteq> kChannelPollAdded"
  "kChannelPollAdded \<noteq> kChannelPollInit" "kChannelPollDeleted \<noteq> kChannelPollInit"
  by (simp_all add: poll_status_defs)

lemma conn_channel_update [simp]:
  "x \<noteq> Op_remove \<Longrightarrow> conn_channel x c = Inr (c\<lparr>connect_channel := chan_effect x (connect_channel c)\<rparr>)"
  by (simp add: conn_channel_def channel_do_def)

lemma is_write_event_iff:
  "channel_ok c \<Longrightarrow> is_write_event (connect_channel c) \<longleftrightarrow> is_open c \<and> contents (output_buffer c) \<noteq> []"
  by (auto simp: channel_ok_def is_write_event_def Let_def split: if_splits)

section \<open>Each handler\<close>

text \<open>What a step may do besides keeping the invariant: the close and the finish callback are made when,
  and only when, the connection becomes disconnected; messages come only before.\<close>

abbreviation overflow :: "fault \<Rightarrow> bool" where
  "overflow f \<equiv> f = Length_error"

definition closed :: "tcp_connection \<Rightarrow> nat" where
  "closed c = (if conn_state c = kDisconnected then 1 else 0)"

definition after_close :: "conn_event list \<Rightarrow> conn_event list" where
  "after_close es = dropWhile (\<lambda>e. e \<noteq> Close_callback) es"

definition good :: "tcp_connection \<Rightarrow> conn_event list \<times> tcp_connection \<Rightarrow> bool" where
  "good c r \<longleftrightarrow> (case r of (es, c') \<Rightarrow>
     conn_inv c' \<and> closed c + count_list es Close_callback = closed c'
     \<and> closed c + count_list es Finish_callback = closed c'
     \<and> Message_callback \<notin> set (after_close es) \<and> (closed c = 1 \<longrightarrow> Message_callback \<notin> set es))"

lemma conn_invD: "conn_inv c \<Longrightarrow> conn_base c"
  by (simp add: conn_inv_def)

lemma conn_base_write_event:
  "conn_base c \<Longrightarrow> is_write_event (connect_channel c) \<longleftrightarrow> is_open c \<and> contents (output_buffer c) \<noteq> []"
  by (simp add: conn_base_def is_write_event_iff)

lemma good_quiet: "conn_inv c' \<Longrightarrow> conn_state c' = conn_state c \<Longrightarrow> good c ([], c')"
  by (simp add: good_def closed_def after_close_def)

lemma handle_close_ok:
  assumes "conn_inv c" and "is_open c"
  shows "\<exists>c'. handle_close c = Inr ([Close_callback, Finish_callback], c') \<and> conn_inv c' \<and> conn_state c' = kDisconnected"
  using assms
  by (auto simp: handle_close_def conn_inv_def conn_base_def is_open_def channel_ok_def updated_def Let_def split: if_splits)

lemma handle_close_good: "conn_inv c \<Longrightarrow> is_open c \<Longrightarrow> ensures overflow (good c) (handle_close c)"
  using handle_close_ok [of c] by (auto simp: good_def closed_def is_open_def after_close_def)

lemma shutdown_in_loop_ok:
  assumes "conn_base c"
  shows "conn_inv (snd (shutdown_in_loop c)) \<and> conn_state (snd (shutdown_in_loop c)) = conn_state c
    \<and> set (fst (shutdown_in_loop c)) \<subseteq> {Shut_write}"
  using assms conn_base_write_event [OF assms]
  by (auto simp: shutdown_in_loop_def conn_inv_def conn_base_def pending_def is_open_def)

lemma good_silent:
  "conn_inv c' \<Longrightarrow> conn_state c' = conn_state c \<Longrightarrow>
     Close_callback \<notin> set es \<Longrightarrow> Finish_callback \<notin> set es \<Longrightarrow> Message_callback \<notin> set es \<Longrightarrow> good c (es, c')"
  by (auto simp: good_def closed_def after_close_def count_list_0_iff dest: set_dropWhileD)

lemma shutdown_in_loop_good: "conn_base c \<Longrightarrow> good c (shutdown_in_loop c)"
  using shutdown_in_loop_ok [of c]
  by (cases "shutdown_in_loop c") (auto intro!: good_silent)

lemma write_direct_ok:
  assumes "conn_inv c" and "write_ok w" and "contents (output_buffer c) = []" and "write_direct w data c = (c1, n, fault)"
  shows "n \<le> length data \<and> (fault \<longrightarrow> n = 0)
    \<and> (\<exists>ts. list_all task_ok ts \<and> c1 = c\<lparr>wire := wire c @ take n data, tasks := tasks c @ ts\<rparr>)"
proof (cases "w data")
  case (Inl err)
  then have "c1 = c" "n = 0" using assms(4) by (auto simp: write_direct_def)
  then show ?thesis by (intro conjI exI [of _ "[]"]) simp_all
next
  case (Inr k)
  then have "k \<le> length data" using assms(2) by (simp add: write_ok_def)
  moreover have "n = k" "\<not> fault" using Inr assms(4) by (auto simp: write_direct_def Let_def split: if_splits)
  moreover have "\<exists>ts. list_all task_ok ts \<and> c1 = c\<lparr>wire := wire c @ take k data, tasks := tasks c @ ts\<rparr>"
  proof (cases "size_sub (length data) k = 0 \<and> has_write_complete_cb c")
    case True
    with Inr assms(4) show ?thesis
      by (intro exI [of _ "[Write_complete_task]"]) (auto simp: write_direct_def Let_def queue_task_def)
  next
    case False
    with Inr assms(4) show ?thesis
      by (intro exI [of _ "[]"]) (auto simp: write_direct_def Let_def)
  qed
  ultimately show ?thesis by simp
qed

definition caught_up :: "tcp_connection \<Rightarrow> tcp_connection" where
  "caught_up c = c\<lparr>accepted := wire c @ contents (output_buffer c)\<rparr>"

lemma append_output_ok:
  assumes inv: "conn_inv (caught_up c)" and opn: "is_open c" and n: "n < length data" and len: "length data \<le> vec_max"
    and acc: "accepted c = wire c @ contents (output_buffer c) @ drop n data"
  shows "ensures overflow (\<lambda>c'. conn_inv c' \<and> conn_state c' = conn_state c) (append_output data n c)"
proof -
  have base: "bb_inv (output_buffer c)" "max_size (output_buffer c) = kUnLimitSize" "channel_ok c"
    "list_all task_ok (tasks c)" "conn_state c = kDisconnecting \<longrightarrow> pending c"
    "initilize c" "reading c" "conn_state c \<noteq> kConnecting" "bb_inv (input_buffer c)" "max_size (input_buffer c) = kUnLimitSize"
    using inv by (simp_all add: conn_inv_def conn_base_def caught_up_def pending_def)
  define ts where "ts = (if size_add (length (contents (output_buffer c))) (length data - n) \<ge> high_water_mark c
      \<and> length (contents (output_buffer c)) < high_water_mark c \<and> has_high_water_mark_cb c
      then [High_water_task (size_add (length (contents (output_buffer c))) (length data - n))] else [])"
  have ts: "list_all task_ok ts" by (simp add: ts_def)
  have rem: "size_sub (length data) n = length data - n" using n by simp
  have c1: "(if high_water_mark c \<le> size_add (length (contents (output_buffer c))) (length data - n)
        \<and> length (contents (output_buffer c)) < high_water_mark c \<and> has_high_water_mark_cb c
      then queue_task (High_water_task (size_add (length (contents (output_buffer c))) (length data - n))) c else c)
      = c\<lparr>tasks := tasks c @ ts\<rparr>"
    by (simp add: ts_def queue_task_def)
  have ap: "append_output data n c = bindR (buf_append (output_buffer (c\<lparr>tasks := tasks c @ ts\<rparr>)) (drop n data)) (\<lambda>(ok, ob).
      if \<not> is_write_event (connect_channel (c\<lparr>tasks := tasks c @ ts, output_buffer := ob\<rparr>))
      then conn_channel Op_enable_write (c\<lparr>tasks := tasks c @ ts, output_buffer := ob\<rparr>)
      else Inr (c\<lparr>tasks := tasks c @ ts, output_buffer := ob\<rparr>))"
    unfolding append_output_def readable_bytes_inv [OF base(1)] bindR.simps Let_def rem c1 by (rule refl)
  have wr: "is_write_event (connect_channel c) \<longleftrightarrow> contents (output_buffer c) \<noteq> []"
    using is_write_event_iff [OF base(3)] opn by simp
  have "length (drop n data) \<le> vec_max" using len by simp
  from base(1) this show ?thesis
  proof (cases rule: buf_append_cases)
    case (ok ob)
    have ms: "max_size ob = kUnLimitSize" using ok(1) base(2) max_size_frame(5) by metis
    have ne: "contents ob \<noteq> []" using ok(3) n by simp
    from base(3) opn have ch: "has_read_cb (connect_channel c)" "has_write_cb (connect_channel c)" "has_close_cb (connect_channel c)"
      "has_error_cb (connect_channel c)" "status (connect_channel c) = kChannelPollAdded"
      "events (connect_channel c) = (if contents (output_buffer c) = [] then kReadEvent else kReadEvent OR kWriteEvent)"
      by (simp_all add: channel_ok_def Let_def)
    have "conn_inv c'" "conn_state c' = conn_state c"
      if c': "c' = c\<lparr>tasks := tasks c @ ts, output_buffer := ob,
        connect_channel := (if is_write_event (connect_channel c) then connect_channel c else chan_effect Op_enable_write (connect_channel c))\<rparr>" for c'
    proof -
      have "channel_ok c'" using opn ch ne wr by (simp add: c' channel_ok_def is_open_def updated_def Let_def)
      moreover have "wire c' @ contents (output_buffer c') = accepted c'" using acc ok(3) by (simp add: c')
      moreover have "pending c'" using ne by (simp add: c' pending_def)
      ultimately show "conn_inv c'" using base ts ok(2) ms by (simp add: conn_inv_def conn_base_def c')
    qed (simp add: c')
    note fin = this
    show ?thesis
      unfolding ap using ok(1)
      by (cases "is_write_event (connect_channel c)") (use fin in simp_all)
  next
    case full
    with base(2) show ?thesis by simp
  next
    case overflow
    then show ?thesis by (simp add: ap)
  qed
qed

lemma send_in_loop_ok:
  assumes inv: "conn_inv c" and w: "write_ok w" and len: "length data \<le> vec_max"
  shows "ensures overflow (\<lambda>c'. conn_inv c' \<and> conn_state c' = conn_state c) (send_in_loop w data c)"
proof (cases "conn_state c = kDisconnected")
  case True
  then show ?thesis using inv by (simp add: send_in_loop_def)
next
  case False
  have base: "conn_base c" using inv by (rule conn_invD)
  have opn: "is_open c" using False base by (cases "conn_state c") (auto simp: is_open_def conn_base_def)
  have bb: "readable_bytes (output_buffer c) = Inr (length (contents (output_buffer c)))" and wa: "wire c @ contents (output_buffer c) = accepted c"
    using base by (simp_all add: conn_base_def readable_bytes_inv)
  have wr: "is_write_event (connect_channel c) \<longleftrightarrow> contents (output_buffer c) \<noteq> []"
    using conn_base_write_event [OF base] opn by simp
  obtain c1 n fault where d: "(if contents (output_buffer c) = [] then write_direct w data c else (c, 0, False)) = (c1, n, fault)"
    by (cases "if contents (output_buffer c) = [] then write_direct w data c else (c, 0, False)")
  have n: "n \<le> length data" "fault \<longrightarrow> n = 0" and c1: "\<exists>ts. list_all task_ok ts \<and> c1 = c\<lparr>wire := wire c @ take n data, tasks := tasks c @ ts\<rparr>"
    and direct: "n > 0 \<longrightarrow> contents (output_buffer c) = []"
    using d write_direct_ok [OF inv w, of data c1 n fault]
    by (auto split: if_splits intro!: exI [of _ "[]"])
  obtain ts where ts: "list_all task_ok ts" "c1 = c\<lparr>wire := wire c @ take n data, tasks := tasks c @ ts\<rparr>" using c1 by blast
  have inv1: "conn_inv (c1\<lparr>accepted := accepted c1 @ take n data\<rparr>)"
    using inv ts direct by (cases "n = 0") (auto simp: conn_inv_def conn_base_def pending_def)
  have eq: "send_in_loop w data c =
      (if \<not> fault \<and> length data - n > 0 then append_output data n (c1\<lparr>accepted := accepted c1 @ data\<rparr>)
       else Inr (if fault then c1 else c1\<lparr>accepted := accepted c1 @ data\<rparr>))"
    using False bb wr d n(1) by (simp add: send_in_loop_def)
  show ?thesis
  proof (cases "\<not> fault \<and> length data - n > 0")
    case True
    have "ensures overflow (\<lambda>c'. conn_inv c' \<and> conn_state c' = conn_state (c1\<lparr>accepted := accepted c1 @ data\<rparr>))
        (append_output data n (c1\<lparr>accepted := accepted c1 @ data\<rparr>))"
    proof (rule append_output_ok)
      have "c1\<lparr>accepted := accepted c1 @ take n data\<rparr> = caught_up (c1\<lparr>accepted := accepted c1 @ data\<rparr>)"
        using ts(2) wa direct by (cases "n = 0") (auto simp: caught_up_def)
      with inv1 show "conn_inv (caught_up (c1\<lparr>accepted := accepted c1 @ data\<rparr>))" by simp
      show "is_open (c1\<lparr>accepted := accepted c1 @ data\<rparr>)" using opn ts(2) by (simp add: is_open_def)
      show "n < length data" using True by simp
      show "length data \<le> vec_max" by (rule len)
      show "accepted (c1\<lparr>accepted := accepted c1 @ data\<rparr>) =
          wire (c1\<lparr>accepted := accepted c1 @ data\<rparr>) @ contents (output_buffer (c1\<lparr>accepted := accepted c1 @ data\<rparr>)) @ drop n data"
        using ts(2) wa direct by (cases "n = 0") auto
    qed
    with True eq ts(2) show ?thesis by simp
  next
    case fin: False
    show ?thesis
    proof (cases fault)
      case True
      with n(2) inv1 ts(2) eq show ?thesis by simp
    next
      case False
      with fin n(1) have "n = length data" by simp
      with False inv1 ts(2) eq show ?thesis by simp
    qed
  qed
qed

lemma handle_read_good:
  assumes inv: "conn_inv c" and opn: "is_open c" and rv: "readv_ok rv"
  shows "ensures overflow (good c) (conn_handle_read rv c)"
  unfolding conn_handle_read_def
proof (rule ensures_bindR)
  show "ensures overflow (\<lambda>(r, bb'). bb_inv bb' \<and> max_size bb' = kUnLimitSize) (read_fd (input_buffer c) rv)"
    using inv rv by (intro ensures_mono [OF read_fd_ensures]) (auto simp: conn_inv_def conn_base_def readv_ok_def)
  fix x :: "(errno + nat) \<times> byte_buffer"
  assume x: "case x of (r, bb') \<Rightarrow> bb_inv bb' \<and> max_size bb' = kUnLimitSize"
  obtain r bb where xe: "x = (r, bb)" by (cases x)
  let ?c1 = "c\<lparr>input_buffer := bb\<rparr>"
  have inv1: "conn_inv ?c1" using inv x xe by (simp add: conn_inv_def conn_base_def pending_def)
  have opn1: "is_open ?c1" using opn by (simp add: is_open_def)
  have same: "good ?c1 = good c" by (simp add: fun_eq_iff good_def closed_def)
  have "good c ([Message_callback], ?c1)" "good c ([], ?c1)"
    using inv1 opn by (auto simp: good_def closed_def is_open_def after_close_def)
  with handle_close_good [OF inv1 opn1] same show "ensures overflow (good c) (case x of (n, bb) \<Rightarrow>
      let c1 = c\<lparr>input_buffer := bb\<rparr> in
      case n of Inl err \<Rightarrow> Inr ([], c1) | Inr k \<Rightarrow> if 0 < k then Inr ([Message_callback], c1) else handle_close c1)"
    by (auto simp: xe Let_def split: sum.split)
qed

lemma handle_write_good:
  assumes inv: "conn_inv c" and w: "write_ok w"
  shows "ensures overflow (\<lambda>r. good c r \<and> conn_state (snd r) = conn_state c) (conn_handle_write w c)"
proof (cases "is_write_event (connect_channel c)")
  case False
  then show ?thesis using good_quiet [OF inv refl] by (simp add: conn_handle_write_def)
next
  case True
  let ?d = "contents (output_buffer c)"
  have base: "conn_base c" using inv by (rule conn_invD)
  have bb: "bb_inv (output_buffer c)" "max_size (output_buffer c) = kUnLimitSize" "wire c @ ?d = accepted c"
    using base by (simp_all add: conn_base_def)
  have opn: "is_open c" and ne: "?d \<noteq> []" using True conn_base_write_event [OF base] by auto
  have ch: "has_read_cb (connect_channel c)" "has_write_cb (connect_channel c)" "has_close_cb (connect_channel c)"
      "has_error_cb (connect_channel c)" "status (connect_channel c) = kChannelPollAdded"
      "events (connect_channel c) = kReadEvent OR kWriteEvent"
    using base opn ne by (simp_all add: conn_base_def channel_ok_def Let_def)
  show ?thesis
  proof (cases "w ?d")
    case (Inl err)
    then show ?thesis using True bb good_quiet [OF inv refl] by (simp add: conn_handle_write_def to_string_inv)
  next
    case (Inr n)
    have n: "n \<le> length ?d" using w Inr by (simp add: write_ok_def)
    obtain ob where ob: "has_read (output_buffer c) n = Inr ob" "bb_inv ob" "contents ob = drop n ?d" "max_size ob = kUnLimitSize"
      using has_read_inv [OF bb(1), of n] bb(2) max_size_frame(2) by metis
    have rd: "readable_bytes ob = Inr (length ?d - n)" using readable_bytes_inv [OF ob(2)] ob(3) by simp
    let ?c1 = "c\<lparr>output_buffer := ob, wire := wire c @ take n ?d\<rparr>"
    have wa: "wire ?c1 @ contents (output_buffer ?c1) = accepted ?c1" using bb(3) ob(3) by simp
    consider "n = 0" | "0 < n" "n < length ?d" | "0 < n" "n = length ?d" using n by linarith
    then show ?thesis
    proof cases
      case 1
      then show ?thesis using True bb Inr good_quiet [OF inv refl] by (simp add: conn_handle_write_def to_string_inv)
    next
      case 2
      have nil: "contents ob \<noteq> []" using 2 ob(3) by simp
      have "conn_inv ?c1"
        using inv ob(2,4) wa nil ch opn by (simp add: conn_inv_def conn_base_def channel_ok_def is_open_def pending_def Let_def)
      with 2 show ?thesis using True bb Inr ob(1) rd
        by (simp add: conn_handle_write_def to_string_inv good_quiet Let_def)
    next
      case 3
      have nil: "contents ob = []" using 3 ob(3) by simp
      define c2 where "c2 = ?c1\<lparr>connect_channel := chan_effect Op_disable_write (connect_channel c),
        tasks := tasks c @ (if has_write_complete_cb c then [Write_complete_task] else [])\<rparr>"
      have base2: "conn_base c2"
        using base ob(2,4) wa nil ch opn by (simp add: c2_def conn_base_def channel_ok_def is_open_def updated_def Let_def)
      have st: "conn_state c2 = conn_state c" by (simp add: c2_def)
      have hw: "conn_handle_write w c = Inr (if conn_state c2 = kDisconnecting then shutdown_in_loop c2 else ([], c2))"
        using True bb Inr ob(1) rd 3 by (simp add: conn_handle_write_def to_string_inv Let_def c2_def queue_task_def)
      show ?thesis
      proof (cases "conn_state c2 = kDisconnecting")
        case True
        have "good c (shutdown_in_loop c2)"
          using shutdown_in_loop_good [OF base2] st by (simp add: good_def closed_def)
        with True st shutdown_in_loop_ok [OF base2] show ?thesis unfolding hw by simp
      next
        case False
        then have "conn_inv c2" using base2 by (simp add: conn_inv_def)
        with False st good_quiet show ?thesis unfolding hw by simp
      qed
    qed
  qed
qed

lemma good_seq:
  assumes "good c (es, c1)" and "good c1 (es', c2)"
  shows "good c (es @ es', c2)"
proof -
  have "count_list (es @ es') x = count_list es x + count_list es' x" for x by (induction es) auto
  moreover have "Message_callback \<notin> set (after_close (es @ es'))"
  proof (cases "Close_callback \<in> set es")
    case True
    have "closed c1 = 1"
      using assms(1) True by (auto simp: good_def closed_def count_list_0_iff split: if_splits)
    moreover have "after_close (es @ es') = after_close es @ es'" using True by (simp add: after_close_def)
    ultimately show ?thesis using assms by (simp add: good_def)
  next
    case False
    then have "after_close (es @ es') = after_close es'" by (auto simp: after_close_def dropWhile_append2 dropWhile_append)
    then show ?thesis using assms(2) by (simp add: good_def)
  qed
  ultimately show ?thesis using assms by (auto simp: good_def closed_def split: if_splits)
qed

section \<open>Every step\<close>

fun callbacks_ok :: "channel_cb list \<Rightarrow> bool" where
  "callbacks_ok [] \<longleftrightarrow> True"
| "callbacks_ok (Close_cb # cbs) \<longleftrightarrow> set cbs \<subseteq> {Error_cb, Write_cb}"
| "callbacks_ok (Read_cb # cbs) \<longleftrightarrow> set cbs \<subseteq> {Error_cb, Write_cb}"
| "callbacks_ok (Error_cb # cbs) \<longleftrightarrow> callbacks_ok cbs"
| "callbacks_ok (Write_cb # cbs) \<longleftrightarrow> callbacks_ok cbs"

lemma run_callbacks_step:
  assumes "ensures overflow (\<lambda>r. good c r \<and> P (snd r)) m"
    and "\<And>c1. conn_inv c1 \<Longrightarrow> P c1 \<Longrightarrow> ensures overflow (good c1) (run_callbacks rv w cbs c1)"
  shows "ensures overflow (good c) (bindR m (\<lambda>(es, c1). bindR (run_callbacks rv w cbs c1) (\<lambda>(es', c2). Inr (es @ es', c2))))"
proof (rule ensures_bindR [OF assms(1)])
  fix x
  assume x: "good c x \<and> P (snd x)"
  obtain es c1 where xe: "x = (es, c1)" by (cases x)
  have "conn_inv c1" using x xe by (simp add: good_def)
  with x xe have "ensures overflow (good c1) (run_callbacks rv w cbs c1)" by (intro assms(2)) simp_all
  then have "ensures overflow (good c) (bindR (run_callbacks rv w cbs c1) (\<lambda>(es', c2). Inr (es @ es', c2)))"
    by (rule ensures_bindR) (use x xe good_seq in auto)
  then show "ensures overflow (good c) (case x of (es, c1) \<Rightarrow> bindR (run_callbacks rv w cbs c1) (\<lambda>(es', c2). Inr (es @ es', c2)))"
    by (simp add: xe)
qed

lemma run_callbacks_tail:
  "set cbs \<subseteq> {Error_cb, Write_cb} \<Longrightarrow> conn_inv c \<Longrightarrow> write_ok w \<Longrightarrow> ensures overflow (good c) (run_callbacks rv w cbs c)"
proof (induction cbs arbitrary: c)
  case Nil
  then show ?case by (simp add: good_quiet)
next
  case (Cons cb cbs)
  have "ensures overflow (\<lambda>r. good c r \<and> True)
      (case cb of Close_cb \<Rightarrow> handle_close c | Error_cb \<Rightarrow> Inr ([], c) | Read_cb \<Rightarrow> conn_handle_read rv c | Write_cb \<Rightarrow> conn_handle_write w c)"
    using Cons.prems handle_write_good [of c w] by (auto simp: good_quiet elim: ensures_mono)
  then show ?case
    unfolding run_callbacks.simps by (rule run_callbacks_step) (use Cons in auto)
qed

lemma run_callbacks_good:
  "callbacks_ok cbs \<Longrightarrow> conn_inv c \<Longrightarrow> is_open c \<Longrightarrow> write_ok w \<Longrightarrow> readv_ok rv \<Longrightarrow>
     ensures overflow (good c) (run_callbacks rv w cbs c)"
proof (induction cbs arbitrary: c rule: callbacks_ok.induct)
  case 1
  then show ?case by (simp add: good_quiet)
next
  case (2 cbs)
  have "ensures overflow (\<lambda>r. good c r \<and> True) (handle_close c)" using handle_close_good [of c] 2 by simp
  then show ?case
    unfolding run_callbacks.simps channel_cb.case by (rule run_callbacks_step) (use 2 run_callbacks_tail in auto)
next
  case (3 cbs)
  have "ensures overflow (\<lambda>r. good c r \<and> True) (conn_handle_read rv c)" using handle_read_good [of c rv] 3 by simp
  then show ?case
    unfolding run_callbacks.simps channel_cb.case by (rule run_callbacks_step) (use 3 run_callbacks_tail in auto)
next
  case (4 cbs)
  have "ensures overflow (\<lambda>r. good c r \<and> is_open (snd r)) (Inr ([], c))" using 4 by (simp add: good_quiet)
  then show ?case
    unfolding run_callbacks.simps channel_cb.case by (rule run_callbacks_step) (use 4 in auto)
next
  case (5 cbs)
  have "ensures overflow (\<lambda>r. good c r \<and> is_open (snd r)) (conn_handle_write w c)"
    using handle_write_good [of c w] 5 by (auto simp: is_open_def elim: ensures_mono)
  then show ?case
    unfolding run_callbacks.simps channel_cb.case by (rule run_callbacks_step) (use 5 in auto)
qed

lemma handle_event_callbacks:
  assumes "r AND POLLHUP \<noteq> 0 \<longrightarrow> r AND POLLPRI \<noteq> 0 \<longrightarrow> r AND POLLIN \<noteq> 0"
  shows "\<exists>cbs. handle_event True (ch\<lparr>revents := r\<rparr>) = Inr cbs \<and> callbacks_ok cbs"
proof -
  have "r AND (POLLIN OR POLLPRI) \<noteq> 0 \<longleftrightarrow> r AND POLLIN \<noteq> 0 \<or> r AND POLLPRI \<noteq> 0"
    by (simp add: bit.conj_disj_distrib or_eq_0_iff)
  with assms show ?thesis by (auto simp: handle_event_def)
qed

lemma conn_inv_revents: "conn_inv c \<Longrightarrow> conn_inv (c\<lparr>connect_channel := (connect_channel c)\<lparr>revents := r\<rparr>\<rparr>)"
  by (simp add: conn_inv_def conn_base_def channel_ok_def is_open_def pending_def Let_def)

lemma run_task_good:
  assumes base: "conn_base c" and t: "task_ok t" and w: "write_ok w"
    and pend: "conn_state c = kDisconnecting \<longrightarrow> pending c \<or> t = Shutdown_task \<or> t = Force_close_task"
  shows "ensures overflow (good c) (run_task w t c)"
proof -
  have inv: "conn_inv c" if "t \<noteq> Shutdown_task" "t \<noteq> Force_close_task" using base pend that by (simp add: conn_inv_def)
  show ?thesis
  proof (cases t)
    case (Send_task data)
    then show ?thesis using send_in_loop_ok [OF inv w, of data] t
      by (auto intro!: ensures_bindR [OF send_in_loop_ok] good_quiet inv w)
  next
    case Shutdown_task
    then show ?thesis using shutdown_in_loop_good [OF base] by simp
  next
    case Force_close_task
    have base_inv: "conn_inv (c\<lparr>conn_state := kConnected\<rparr>)" if "is_open c"
      using base that by (simp add: conn_inv_def conn_base_def is_open_def channel_ok_def)
    have "handle_close c = handle_close (c\<lparr>conn_state := kConnected\<rparr>)" if "is_open c"
      using that by (auto simp: handle_close_def is_open_def)
    moreover have "good (c\<lparr>conn_state := kConnected\<rparr>) = good c" if "is_open c"
      using that by (auto simp: fun_eq_iff good_def closed_def is_open_def)
    ultimately have "ensures overflow (good c) (handle_close c)" if "is_open c"
      using handle_close_good [OF base_inv] that by (simp add: is_open_def)
    moreover have "conn_inv c" if "\<not> is_open c" using base that by (simp add: conn_inv_def is_open_def)
    ultimately show ?thesis using Force_close_task
      by (auto simp: force_close_in_loop_def is_open_def good_quiet)
  next
    case Start_read_task
    then show ?thesis using inv base by (simp add: start_read_in_loop_def conn_base_def good_quiet)
  qed (use t inv in \<open>auto intro!: good_silent\<close>)
qed

lemma conn_step_good:
  assumes inv: "conn_inv c" and leg: "legal_conn_op x"
  shows "ensures overflow (good c) (conn_step c x)"
proof -
  have base: "conn_base c" using inv by (rule conn_invD)
  then have ini: "initilize c" by (simp add: conn_base_def)
  show ?thesis
  proof (cases x)
    case (Op_send own data w)
    have "ensures overflow (\<lambda>c'. conn_inv c' \<and> conn_state c' = conn_state c) (conn_send w own data c)"
      using send_in_loop_ok [OF inv, of w data] leg Op_send inv ini
      by (auto simp: conn_send_def queue_task_def conn_inv_def conn_base_def pending_def)
    then show ?thesis unfolding Op_send conn_step.simps by (rule ensures_bindR) (simp add: good_quiet)
  next
    case (Op_shutdown own)
    let ?c1 = "c\<lparr>conn_state := kDisconnecting\<rparr>"
    have "conn_base ?c1" if "conn_state c = kConnected"
      using base that by (simp add: conn_base_def channel_ok_def is_open_def Let_def)
    moreover have "good ?c1 = good c" if "conn_state c = kConnected"
      using that by (simp add: fun_eq_iff good_def closed_def)
    ultimately have "good c (shutdown_in_loop ?c1)" "good c ([], queue_task Shutdown_task ?c1)" if "conn_state c = kConnected"
      using that shutdown_in_loop_good [of ?c1] good_quiet [of "queue_task Shutdown_task ?c1" ?c1]
      by (auto simp: queue_task_def conn_inv_def conn_base_def pending_def)
    then show ?thesis using Op_shutdown ini good_quiet [OF inv refl] by (auto simp: shutdown_def Let_def)
  next
    case Op_force_close
    have "conn_inv (queue_task Force_close_task (c\<lparr>conn_state := kDisconnecting\<rparr>))" if "is_open c"
      using base that by (simp add: queue_task_def conn_inv_def conn_base_def channel_ok_def is_open_def pending_def Let_def)
    then show ?thesis using Op_force_close ini good_quiet [OF inv refl]
      by (auto simp: force_close_def is_open_def good_def closed_def after_close_def queue_task_def)
  next
    case Op_force_close_with_delay
    have "conn_inv (c\<lparr>conn_state := kDisconnecting, delayed := delayed c + 1\<rparr>)" if "is_open c"
      using base that by (simp add: conn_inv_def conn_base_def channel_ok_def is_open_def pending_def Let_def)
    then show ?thesis using Op_force_close_with_delay ini good_quiet [OF inv refl]
      by (auto simp: force_close_with_delay_def is_open_def good_def closed_def after_close_def)
  next
    case Op_delay_over
    let ?c1 = "queue_task Force_close_task (c\<lparr>delayed := delayed c - 1, conn_state := kDisconnecting\<rparr>)"
    have "conn_inv ?c1" if "is_open c"
      using base that by (simp add: queue_task_def conn_inv_def conn_base_def channel_ok_def is_open_def pending_def Let_def)
    moreover have "conn_inv (c\<lparr>delayed := delayed c - 1\<rparr>)" if "\<not> is_open c"
      using base that by (simp add: conn_inv_def conn_base_def is_open_def)
    ultimately show ?thesis using Op_delay_over ini good_quiet [OF inv refl]
      by (auto simp: force_close_def is_open_def good_def closed_def after_close_def queue_task_def)
  next
    case (Op_start_read own)
    have "conn_inv (queue_task Start_read_task c)" using inv by (simp add: queue_task_def conn_inv_def conn_base_def pending_def)
    then show ?thesis using Op_start_read inv ini base good_quiet [OF inv refl]
      by (auto simp: start_read_def start_read_in_loop_def conn_base_def queue_task_def intro!: good_quiet)
  next
    case (Op_consume n)
    obtain bb where bb: "has_read (input_buffer c) n = Inr bb" "bb_inv bb" "max_size bb = kUnLimitSize"
      using has_read_inv [of "input_buffer c" n] base max_size_frame(2) unfolding conn_base_def by metis
    have "conn_inv (c\<lparr>input_buffer := bb\<rparr>)" using inv bb by (simp add: conn_inv_def conn_base_def pending_def)
    then show ?thesis using Op_consume bb by (simp add: good_quiet)
  next
    case (Op_run_task w)
    show ?thesis
    proof (cases "tasks c")
      case Nil
      then show ?thesis using Op_run_task good_quiet [OF inv refl] by simp
    next
      case (Cons t ts)
      have "ensures overflow (good (c\<lparr>tasks := ts\<rparr>)) (run_task w t (c\<lparr>tasks := ts\<rparr>))"
        using inv leg Op_run_task Cons
        by (intro run_task_good) (auto simp: conn_inv_def conn_base_def pending_def)
      moreover have "good (c\<lparr>tasks := ts\<rparr>) = good c" by (simp add: fun_eq_iff good_def closed_def)
      ultimately show ?thesis using Op_run_task Cons by simp
    qed
  next
    case (Op_event r rv w)
    show ?thesis
    proof (cases "reported r (connect_channel c)")
      case True
      let ?c1 = "c\<lparr>connect_channel := (connect_channel c)\<lparr>revents := r\<rparr>\<rparr>"
      obtain cbs where cbs: "handle_event True ((connect_channel c)\<lparr>revents := r\<rparr>) = Inr cbs" "callbacks_ok cbs"
        using handle_event_callbacks leg Op_event by fastforce
      have opn: "is_open c" using True base by (auto simp: reported_def conn_base_def channel_ok_def Let_def split: if_splits)
      then have "ensures overflow (good ?c1) (run_callbacks rv w cbs ?c1)"
        using cbs(2) conn_inv_revents [OF inv] leg Op_event by (intro run_callbacks_good) (auto simp: is_open_def)
      moreover have "good ?c1 = good c" by (simp add: fun_eq_iff good_def closed_def)
      ultimately show ?thesis using Op_event True cbs(1) by (simp add: Let_def)
    next
      case False
      then show ?thesis using Op_event good_quiet [OF inv refl] by simp
    qed
  qed (use leg in simp)
qed

interpretation conn: step_invariant conn_inv conn_step legal_conn_op overflow
  by unfold_locales (auto dest!: conn_step_good simp: good_def)

section \<open>Established connections\<close>

definition established :: "int \<Rightarrow> bool \<Rightarrow> bool \<Rightarrow> (conn_event list \<times> tcp_connection) res" where
  "established fd wcb hcb = bindR (make_tcp_connection fd wcb hcb) connect_established"

lemma new_buffer_unlimited:
  "new_buffer kUnLimitSize kInitialSize =
     Inr \<lparr>max_size = kUnLimitSize, reader_index = 0, writer_index = 0, buffer = replicate kInitialSize 0\<rparr>"
  by (simp add: new_buffer_def kUnLimitSize_def kInitialSize_def vec_max_def)

lemma established_inv:
  assumes "established fd wcb hcb = Inr (es, c)"
  shows "conn_inv c \<and> conn_state c = kConnected \<and> es = [Connect_callback]"
proof -
  have bb: "bb_inv \<lparr>max_size = kUnLimitSize, reader_index = 0, writer_index = 0, buffer = replicate kInitialSize 0\<rparr>"
    "contents \<lparr>max_size = kUnLimitSize, reader_index = 0, writer_index = 0, buffer = replicate kInitialSize 0\<rparr> = []"
    by (simp_all add: bb_inv_def contents_def vec_max_def kInitialSize_def)
  have ev: "0 OR kReadEvent = kReadEvent" by simp
  from assms have "c = \<lparr>initilize = True, reading = True, conn_state = kConnected,
      connect_channel = chan_effect Op_enable_read ((new_channel fd)\<lparr>has_read_cb := True, has_write_cb := True,
         has_close_cb := True, has_error_cb := True\<rparr>),
      input_buffer = \<lparr>max_size = kUnLimitSize, reader_index = 0, writer_index = 0, buffer = replicate kInitialSize 0\<rparr>,
      output_buffer = \<lparr>max_size = kUnLimitSize, reader_index = 0, writer_index = 0, buffer = replicate kInitialSize 0\<rparr>,
      has_write_complete_cb = wcb, has_high_water_mark_cb = hcb, high_water_mark = 64 * 1024 * 1024,
      tasks = [], wire = [], accepted = [], wr_shut = False, delayed = 0\<rparr>" "es = [Connect_callback]"
    by (auto simp: established_def make_tcp_connection_def new_tcp_connection_def new_buffer_unlimited
        initialize_def initialize_in_loop_def connect_established_def)
  then show ?thesis
    using bb ev by (simp add: conn_inv_def conn_base_def channel_ok_def is_open_def updated_def new_channel_def Let_def)
qed

lemma conn_reachable:
  assumes "established fd wcb hcb = Inr (es, c0)" and "list_all legal_conn_op ops" and "run_steps conn_step c0 ops = Inr (outs, c)"
  shows "conn_inv c"
  using conn.run_inv [OF _ assms(2,3)] established_inv [OF assms(1)] by blast

lemma run_steps_good:
  "conn_inv c \<Longrightarrow> list_all legal_conn_op ops \<Longrightarrow> run_steps conn_step c ops = Inr (outs, c') \<Longrightarrow> good c (concat outs, c')"
proof (induction ops arbitrary: c outs)
  case Nil
  then show ?case by (simp add: good_quiet)
next
  case (Cons x ops)
  from Cons.prems(3) obtain es c1 outs' where st: "conn_step c x = Inr (es, c1)" "run_steps conn_step c1 ops = Inr (outs', c')"
    "outs = es # outs'" by (auto simp del: conn_step.simps)
  have g: "good c (es, c1)" using ensures_value [OF conn_step_good st(1)] Cons.prems(1,2) by simp
  then have "conn_inv c1" by (simp add: good_def)
  with Cons.IH st(2) Cons.prems(2) have "good c1 (concat outs', c')" by simp
  with good_seq [OF g] st(3) show ?case by simp
qed

section \<open>Properties\<close>

lemma destroyed_ok:
  assumes "conn_base c"
  shows "conn_state c = kDisconnecting \<Longrightarrow> connect_destroyed c = Inl Check_failed"
    and "conn_state c \<noteq> kDisconnecting \<Longrightarrow> \<exists>c'. connect_destroyed c = Inr ((if conn_state c = kConnected then [Close_callback] else []), c')
      \<and> conn_destroy c' = Inr () \<and> status (connect_channel c') = kChannelPollInit \<and> is_none_event (connect_channel c')"
proof -
  have st: "conn_state c = kDisconnecting \<or> conn_state c = kConnected \<or> conn_state c = kDisconnected"
    using assms by (cases "conn_state c") (auto simp: conn_base_def)
  note defs = connect_destroyed_def conn_destroy_def conn_base_def channel_ok_def is_open_def conn_channel_def
        channel_do_def is_none_event_def updated_def removed_def check_def Let_def
  show "conn_state c = kDisconnecting \<Longrightarrow> connect_destroyed c = Inl Check_failed"
    using assms by (auto simp: defs split: if_splits)
  assume "conn_state c \<noteq> kDisconnecting"
  with st consider "conn_state c = kConnected" | "conn_state c = kDisconnected" by blast
  then show "\<exists>c'. connect_destroyed c = Inr ((if conn_state c = kConnected then [Close_callback] else []), c')
      \<and> conn_destroy c' = Inr () \<and> status (connect_channel c') = kChannelPollInit \<and> is_none_event (connect_channel c')"
    using assms by cases (auto simp: defs)
qed

lemma established_ok: "\<exists>c. established fd wcb hcb = Inr ([Connect_callback], c)"
  by (simp add: established_def make_tcp_connection_def new_tcp_connection_def new_buffer_unlimited
      initialize_def initialize_in_loop_def connect_established_def)

text \<open>C6: The output of a connection whose reading is never stopped is a queue. Whatever is sent, from any
  thread, whatever the socket takes at each write, and whatever events, closes and callbacks come in
  between (everything but \<^verbatim>\<open>stop_read\<close>), the only fault is that of a
  full vector; the bytes the socket took, followed by those in the output buffer, are exactly the
  bytes accepted for sending, in order; and as long as the connection is open, the writable event is
  requested exactly when bytes are left to write.\<close>

theorem conn_output_fifo:
  assumes "established fd wcb hcb = Inr (es, c0)" and "list_all legal_conn_op ops"
  shows "case run_steps conn_step c0 ops of
      Inl f \<Rightarrow> f = Length_error
    | Inr (outs, c) \<Rightarrow> wire c @ contents (output_buffer c) = accepted c
        \<and> (is_open c \<longrightarrow> (is_write_event (connect_channel c) \<longleftrightarrow> wire c \<noteq> accepted c))"
proof (cases "run_steps conn_step c0 ops")
  case (Inl f)
  with conn.run_fault [OF _ assms(2)] established_inv [OF assms(1)] show ?thesis by auto
next
  case (Inr y)
  obtain outs c where y: "y = (outs, c)" by (cases y)
  from conn_reachable [OF assms] Inr y have base: "conn_base c" by (simp add: conn_inv_def)
  then have "wire c @ contents (output_buffer c) = accepted c" by (simp add: conn_base_def)
  moreover from this have "wire c = accepted c \<longleftrightarrow> contents (output_buffer c) = []" by auto
  ultimately show ?thesis using conn_base_write_event [OF base] Inr y by simp
qed

theorem conn_output_fifo_witness:
  "\<exists>c0. established 5 True True = Inr ([Connect_callback], c0)
     \<and> (case run_steps conn_step c0 [Op_send True [1, 2, 3] (\<lambda>d. Inr 0), Op_shutdown False, Op_run_task (\<lambda>d. Inl 11)] of
          Inl f \<Rightarrow> f = Length_error
        | Inr (outs, c) \<Rightarrow> wire c @ contents (output_buffer c) = accepted c
            \<and> (is_open c \<longrightarrow> (is_write_event (connect_channel c) \<longleftrightarrow> wire c \<noteq> accepted c)))"
proof -
  obtain c0 where c0: "established 5 True True = Inr ([Connect_callback], c0)" using established_ok by blast
  have "list_all legal_conn_op [Op_send True [1, 2, 3] (\<lambda>d. Inr 0), Op_shutdown False, Op_run_task (\<lambda>d. Inl 11)]"
    by (simp add: write_ok_def vec_max_def)
  from conn_output_fifo [OF c0 this] c0 show ?thesis by blast
qed

text \<open>C7: Closing is orderly. Over the life of a connection that never calls \<^verbatim>\<open>stop_read\<close>, the close and the finish callback are made once
  when it becomes disconnected and never otherwise, and no message is delivered after the close.\<close>

theorem conn_closes_once:
  assumes "established fd wcb hcb = Inr (es, c0)" and "list_all legal_conn_op ops"
    and "run_steps conn_step c0 ops = Inr (outs, c)"
  shows "count_list (concat outs) Close_callback = (if conn_state c = kDisconnected then 1 else 0)
    \<and> count_list (concat outs) Finish_callback = (if conn_state c = kDisconnected then 1 else 0)
    \<and> Message_callback \<notin> set (dropWhile (\<lambda>e. e \<noteq> Close_callback) (concat outs))"
  using run_steps_good [OF _ assms(2,3)] established_inv [OF assms(1)]
  by (simp add: good_def closed_def after_close_def)

theorem conn_closes_once_witness:
  "\<exists>c0 outs c. established 5 True True = Inr ([Connect_callback], c0)
     \<and> run_steps conn_step c0 [Op_force_close, Op_run_task (\<lambda>d. Inl 11)] = Inr (outs, c)
     \<and> conn_state c = kDisconnected \<and> count_list (concat outs) Close_callback = 1"
proof -
  obtain c0 where c0: "established 5 True True = Inr ([Connect_callback], c0)" using established_ok by blast
  let ?ops = "[Op_force_close, Op_run_task (\<lambda>d. Inl 11)]"
  have leg: "list_all legal_conn_op ?ops" by (simp add: write_ok_def)
  have i0: "initilize c0" "conn_state c0 = kConnected" using established_inv [OF c0] by (simp_all add: conn_inv_def conn_base_def)
  have t0: "tasks c0 = []"
    using c0 by (auto simp: established_def make_tcp_connection_def new_tcp_connection_def new_buffer_unlimited
        initialize_def initialize_in_loop_def connect_established_def)
  have "\<exists>c. run_steps conn_step c0 ?ops = Inr ([[], [Close_callback, Finish_callback]], c) \<and> conn_state c = kDisconnected"
    using i0 t0 by (simp add: force_close_def queue_task_def force_close_in_loop_def handle_close_def)
  then obtain c where c: "run_steps conn_step c0 ?ops = Inr ([[], [Close_callback, Finish_callback]], c)" "conn_state c = kDisconnected"
    by blast
  from conn_closes_once [OF c0 leg c(1)] c c0 show ?thesis by auto
qed

text \<open>C8: Shutting down is graceful. In a connection that is disconnecting and never called \<^verbatim>\<open>stop_read\<close>, the writing side of the socket is
  shut down by \<^verbatim>\<open>shutdown_in_loop\<close> if and only if all accepted bytes are on the wire; and the connection is
  never stuck: the writing side is shut down, or bytes are left and the writable event is
  requested, or a task or a timer that goes on closing is waiting.\<close>

theorem conn_shutdown_graceful:
  assumes "established fd wcb hcb = Inr (es, c0)" and "list_all legal_conn_op ops"
    and "run_steps conn_step c0 ops = Inr (outs, c)" and "conn_state c = kDisconnecting"
  shows "(fst (shutdown_in_loop c) = [Shut_write] \<longleftrightarrow> wire c = accepted c)
    \<and> (wr_shut c \<or> wire c \<noteq> accepted c \<and> is_write_event (connect_channel c)
       \<or> Shutdown_task \<in> set (tasks c) \<or> Force_close_task \<in> set (tasks c) \<or> delayed c > 0)"
proof -
  have inv: "conn_inv c" by (rule conn_reachable [OF assms(1-3)])
  then have base: "conn_base c" and pend: "pending c" using assms(4) by (simp_all add: conn_inv_def)
  have "wire c @ contents (output_buffer c) = accepted c" using base by (simp add: conn_base_def)
  then have "wire c = accepted c \<longleftrightarrow> contents (output_buffer c) = []" by auto
  moreover have "is_open c" using assms(4) by (simp add: is_open_def)
  ultimately show ?thesis
    using conn_base_write_event [OF base] pend by (auto simp: shutdown_in_loop_def pending_def)
qed

theorem conn_shutdown_graceful_witness:
  "\<exists>c0 outs c. established 5 True True = Inr ([Connect_callback], c0)
     \<and> run_steps conn_step c0 [Op_shutdown False] = Inr (outs, c) \<and> conn_state c = kDisconnecting
     \<and> (fst (shutdown_in_loop c) = [Shut_write] \<longleftrightarrow> wire c = accepted c)"
proof -
  obtain c0 where c0: "established 5 True True = Inr ([Connect_callback], c0)" using established_ok by blast
  let ?c = "queue_task Shutdown_task (c0\<lparr>conn_state := kDisconnecting\<rparr>)"
  have i0: "initilize c0" "conn_state c0 = kConnected" using established_inv [OF c0] by (simp_all add: conn_inv_def conn_base_def)
  then have run: "run_steps conn_step c0 [Op_shutdown False] = Inr ([[]], ?c)" by (simp add: shutdown_def)
  have st: "conn_state ?c = kDisconnecting" by (simp add: queue_task_def)
  have leg: "list_all legal_conn_op [Op_shutdown False]" by simp
  from conn_shutdown_graceful [OF c0 leg run st] c0 run st show ?thesis by blast
qed

text \<open>Destroying a connection that never called \<^verbatim>\<open>stop_read\<close>. When it is connected or disconnected, it is destroyed cleanly: its
  channel is removed from the poller and the checks of the destructor hold. A connection that is
  disconnecting is not: \<^verbatim>\<open>connect_destroyed\<close> leaves its events enabled, and removing the channel aborts.\<close>

theorem conn_destroyed_result:
  assumes "established fd wcb hcb = Inr (es, c0)" and "list_all legal_conn_op ops"
    and "run_steps conn_step c0 ops = Inr (outs, c)"
  shows "if conn_state c = kDisconnecting then connect_destroyed c = Inl Check_failed
    else \<exists>es' c'. connect_destroyed c = Inr (es', c') \<and> conn_destroy c' = Inr ()
      \<and> status (connect_channel c') = kChannelPollInit \<and> is_none_event (connect_channel c')
      \<and> es' = (if conn_state c = kConnected then [Close_callback] else [])"
proof -
  have base: "conn_base c" using conn_reachable [OF assms] by (rule conn_invD)
  show ?thesis using destroyed_ok [OF base] by (cases "conn_state c = kDisconnecting") fastforce+
qed

theorem conn_destroyed_result_witness:
  "\<exists>c0 outs c. established 5 True True = Inr ([Connect_callback], c0)
     \<and> run_steps conn_step c0 [Op_shutdown False] = Inr (outs, c) \<and> connect_destroyed c = Inl Check_failed"
proof -
  obtain c0 where c0: "established 5 True True = Inr ([Connect_callback], c0)" using established_ok by blast
  let ?c = "queue_task Shutdown_task (c0\<lparr>conn_state := kDisconnecting\<rparr>)"
  have i0: "initilize c0" "conn_state c0 = kConnected" using established_inv [OF c0] by (simp_all add: conn_inv_def conn_base_def)
  then have run: "run_steps conn_step c0 [Op_shutdown False] = Inr ([[]], ?c)" by (simp add: shutdown_def)
  have leg: "list_all legal_conn_op [Op_shutdown False]" by simp
  have "conn_state ?c = kDisconnecting" by (simp add: queue_task_def)
  with conn_destroyed_result [OF c0 leg run] c0 run show ?thesis by auto
qed

text \<open>Reading again after the close. When reading was stopped before an open connection is closed, a
  later \<^verbatim>\<open>start_read\<close> puts the channel of the closed connection back into the poller, and
  \<^verbatim>\<open>connect_destroyed\<close> aborts.\<close>

theorem start_read_after_close:
  assumes "conn_inv c" and "is_open c"
  shows "bindR (stop_read True c) (\<lambda>c1. bindR (handle_close c1) (\<lambda>(es, c2). bindR (start_read True c2) (\<lambda>c3.
           connect_destroyed c3))) = Inl Check_failed"
proof -
  have base: "conn_base c" using assms(1) by (rule conn_invD)
  then have ch: "status (connect_channel c) = kChannelPollAdded" "initilize c" "reading c"
      "events (connect_channel c) = kReadEvent \<or> events (connect_channel c) = kReadEvent OR kWriteEvent"
    using assms(2) by (auto simp: conn_base_def channel_ok_def Let_def)
  then have rd: "is_read_event (connect_channel c)" by (auto simp: is_read_event_def bit.conj_disj_distrib2)
  have none: "kReadEvent AND NOT kReadEvent = 0" "(kReadEvent OR kWriteEvent) AND NOT kReadEvent = kWriteEvent" "0 AND kReadEvent = 0"
    "0 OR kReadEvent = kReadEvent" "kNoneEvent = 0"
    by (simp_all add: event_bits)
  from assms(2) ch rd show ?thesis
    by (auto simp: stop_read_def stop_read_in_loop_def handle_close_def start_read_def start_read_in_loop_def
        connect_destroyed_def conn_channel_def channel_do_def is_open_def updated_def is_read_event_def is_none_event_def none
        check_def Let_def)
qed

theorem start_read_after_close_witness:
  "\<exists>c0. established 5 True True = Inr ([Connect_callback], c0)
     \<and> bindR (stop_read True c0) (\<lambda>c1. bindR (handle_close c1) (\<lambda>(es, c2). bindR (start_read True c2) (\<lambda>c3.
           connect_destroyed c3))) = Inl Check_failed"
proof -
  obtain c0 where c0: "established 5 True True = Inr ([Connect_callback], c0)" using established_ok by blast
  have "conn_inv c0" "is_open c0" using established_inv [OF c0] by (simp_all add: is_open_def)
  from start_read_after_close [OF this] c0 show ?thesis by blast
qed

text \<open>C36: The pollers provide what the connection relies on. In a consistent \<^verbatim>\<open>PollPoller\<close>, an operation on the
  channel of a connection whose descriptor belongs to no other channel does to the channel what the
  connection's model says, keeps the poller consistent, and touches no other channel.\<close>

theorem poller_implements_channel:
  assumes "poller_inv poll_watched (\<lambda>i e. ucast e) distinct_fds p h"
    and "status (h i) = kChannelPollInit \<Longrightarrow> channels p (ch_fd (h i)) = None"
    and "channel_do x (h i) = Inr ch"
  shows "\<exists>p'. chan_step poll_update_poll_events (p, h) (i, x) = Inr (p', h(i := ch))
           \<and> poller_inv poll_watched (\<lambda>i e. ucast e) distinct_fds p' (h(i := ch))"
proof -
  have "legal_chan_op p h (i, x)" using assms(2,3) by (cases x) (auto simp: channel_do_def)
  from pp.chan_step_ok [OF assms(1) this] assms(3) show ?thesis by (auto simp: channel_do_def)
qed

theorem poller_implements_channel_witness:
  "\<exists>p'. chan_step poll_update_poll_events (\<lparr>channels = Map.empty, backend = []\<rparr>, \<lambda>i. new_channel (int i)) (4, Op_enable_read)
      = Inr (p', (\<lambda>i. new_channel (int i))(4 := chan_effect Op_enable_read (new_channel 4)))"
proof -
  have "poller_inv poll_watched (\<lambda>i e. ucast e) distinct_fds \<lparr>channels = Map.empty, backend = []\<rparr> (\<lambda>i. new_channel (int i))"
    by (simp add: poller_inv_def distinct_fds_def poll_watched_def new_channel_def)
  from poller_implements_channel [OF this, of 4 Op_enable_read] show ?thesis
    by (auto simp: channel_do_def)
qed

end
