(* ===== verification/Tcp_Server.thy ===== *)
theory Tcp_Server
  imports Tcp_Connection "HOL-Library.Char_ord" "HOL-Library.List_Lexorder"
begin

text \<open>
  The server side: the pool of loops (include/EventLoopPool.h, src/EventLoopPool.cc), the acceptor
  (src/Acceptor.h, src/Acceptor.cc, \<^verbatim>\<open>sockets::accept\<close>) and the server (include/TcpServer.h,
  src/TcpServer.cc), on top of the connections of the theory \<open>Tcp_Connection\<close>.

  \<^item> A loop is a number, and so is the thread that runs it: \<open>cur\<close> is the loop of the thread that executes
    a function, and \<^verbatim>\<open>check_in_own_loop\<close> compares it with the loop that is demanded. \<open>queues\<close> are the functions
    the server queued in each loop, in order; \<^verbatim>\<open>run_in_own_loop\<close> runs at once in its own thread and queues in any other.
  \<^item> A connection object is known by the number \<open>next_conn_id\<close> it was given; \<open>heap\<close> holds the objects that
    are alive. An object is freed when the function \<^verbatim>\<open>connect_destroyed\<close> bound to the last pointer was run: the
    user keeps no pointer of their own beyond that.
  \<^item> The answers of \<^verbatim>\<open>accept\<close>, \<^verbatim>\<open>close\<close> and \<^verbatim>\<open>open\<close> come with the step (\<open>accept_env\<close>); \<open>start_loop\<close> gives the loops of the
    threads the pool starts.
\<close>

section \<open>EventLoopPool\<close>

record event_loop_pool =
  pool_owner :: nat
  pool_started :: bool
  pool_next :: int
  num_threads :: int
  loops :: "nat list"

definition new_event_loop_pool :: "nat \<Rightarrow> event_loop_pool" where
  "new_event_loop_pool owner = \<lparr>pool_owner = owner, pool_started = False, pool_next = 0, num_threads = 0, loops = []\<rparr>"

definition pool_start :: "(nat \<Rightarrow> nat) \<Rightarrow> nat \<Rightarrow> event_loop_pool \<Rightarrow> event_loop_pool res" where
  "pool_start start_loop cur p =
     check (cur = pool_owner p) (check (\<not> pool_started p)
     (Inr (p\<lparr>pool_started := True, loops := loops p @ map start_loop [0..<nat (num_threads p)]\<rparr>)))"

definition get_next_loop :: "nat \<Rightarrow> event_loop_pool \<Rightarrow> (nat \<times> event_loop_pool) res" where
  "get_next_loop cur p =
     check (cur = pool_owner p) (check (pool_started p)
     (if loops p = [] then Inr (pool_owner p, p)
      else if 0 \<le> pool_next p \<and> pool_next p < int (length (loops p))
      then let i = pool_next p + 1
           in Inr (loops p ! nat (pool_next p), p\<lparr>pool_next := (if i \<ge> int (length (loops p)) then 0 else i)\<rparr>)
      else Inl Out_of_bounds))"

definition get_loop_with_hashcode :: "nat \<Rightarrow> nat \<Rightarrow> event_loop_pool \<Rightarrow> nat res" where
  "get_loop_with_hashcode cur hashcode p =
     check (cur = pool_owner p) (check (pool_started p)
     (Inr (if loops p = [] then pool_owner p else loops p ! (hashcode mod length (loops p)))))"

definition get_all_loops :: "nat \<Rightarrow> event_loop_pool \<Rightarrow> nat list res" where
  "get_all_loops cur p =
     check (cur = pool_owner p) (check (pool_started p) (Inr (if loops p = [] then [pool_owner p] else loops p)))"

section \<open>Acceptor\<close>

record acceptor =
  acc_listen :: bool
  listen_channel :: channel
  idle_fd :: int

record accept_env =
  first_accept :: "errno + int"
  close_idle :: bool
  second_accept :: "errno + int"
  close_second :: "int \<Rightarrow> bool"
  reopen :: "errno + int"

datatype accept_call = Sys_accept | Sys_close int | Sys_open

definition fd_of :: "errno + int \<Rightarrow> int" where
  "fd_of r = (case r of Inl e \<Rightarrow> -1 | Inr fd \<Rightarrow> fd)"

definition kEMFILE :: errno where "kEMFILE = 24"

text \<open>\<^verbatim>\<open>sockets::accept\<close> passes the expected errors on and aborts on every other.\<close>

definition sockets_accept :: "errno + int \<Rightarrow> (errno + int) res" where
  "sockets_accept r =
     (case r of Inr fd \<Rightarrow> Inr (Inr fd)
      | Inl e \<Rightarrow> if e \<in> {1, 4, 11, 24, 71, 103} then Inr (Inl e) else Inl Bad_syscall)"

definition new_acceptor :: "int \<Rightarrow> int \<Rightarrow> acceptor" where
  "new_acceptor fd idle = \<lparr>acc_listen = False, listen_channel = (new_channel fd)\<lparr>has_read_cb := True\<rparr>, idle_fd = idle\<rparr>"

definition acceptor_listen :: "nat \<Rightarrow> nat \<Rightarrow> acceptor \<Rightarrow> acceptor res" where
  "acceptor_listen owner cur a =
     check (cur = owner)
     (bindR (channel_do Op_enable_read (listen_channel a)) (\<lambda>ch. Inr (a\<lparr>acc_listen := True, listen_channel := ch\<rparr>)))"

definition acceptor_destroy :: "acceptor \<Rightarrow> acceptor res" where
  "acceptor_destroy a =
     bindR (channel_do Op_disable_all (listen_channel a)) (\<lambda>ch.
     bindR (channel_do Op_remove ch) (\<lambda>ch'. Inr (a\<lparr>listen_channel := ch'\<rparr>)))"

text \<open>\<open>dc\<close> is \<^verbatim>\<open>DCHECK_IS_ON()\<close>: when it is off, \<^verbatim>\<open>DPCHECK\<close> does not evaluate its argument. The result is the system
  calls made, the descriptor for the new connection, and the acceptor.\<close>

definition acceptor_handle_read :: "bool \<Rightarrow> accept_env \<Rightarrow> acceptor \<Rightarrow> (accept_call list \<times> int option \<times> acceptor) res" where
  "acceptor_handle_read dc env a =
     bindR (sockets_accept (first_accept env)) (\<lambda>r. case r of
       Inr connfd \<Rightarrow> Inr ([Sys_accept], Some connfd, a)
     | Inl err \<Rightarrow>
         if err = kEMFILE then
           bindR (if dc then check (close_idle env) (check (close_second env (fd_of (second_accept env)))
                    (Inr [Sys_close (idle_fd a), Sys_accept, Sys_close (fd_of (second_accept env))]))
                  else Inr []) (\<lambda>calls.
           Inr (Sys_accept # calls @ [Sys_open], None, a\<lparr>idle_fd := fd_of (reopen env)\<rparr>))
         else Inr ([Sys_accept], None, a))"

section \<open>TcpServer\<close>

record sconn =
  sc_name :: string
  sc_loop :: nat
  sc :: tcp_connection

datatype srv_task = Established_task int | Remove_task int | Destroyed_task int

record tcp_server =
  srv_owner :: nat
  srv_name :: string
  srv_ip_port :: string
  srv_initilize :: bool
  srv_started :: bool
  srv_acceptor :: acceptor
  workers :: event_loop_pool
  next_conn_id :: int
  connections :: "(string \<times> int) list"
  srv_write_complete_cb :: bool
  heap :: "int \<Rightarrow> sconn option"
  queues :: "nat \<Rightarrow> srv_task list"

definition new_tcp_server :: "nat \<Rightarrow> string \<Rightarrow> string \<Rightarrow> int \<Rightarrow> int \<Rightarrow> bool \<Rightarrow> tcp_server" where
  "new_tcp_server owner name ip_port fd idle wcb =
     \<lparr>srv_owner = owner, srv_name = name, srv_ip_port = ip_port, srv_initilize = False, srv_started = False,
      srv_acceptor = new_acceptor fd idle, workers = new_event_loop_pool owner, next_conn_id = 1, connections = [],
      srv_write_complete_cb = wcb, heap = Map.empty, queues = (\<lambda>_. [])\<rparr>"

definition srv_initialize :: "tcp_server \<Rightarrow> tcp_server res" where
  "srv_initialize s = check (\<not> srv_initilize s) (Inr (s\<lparr>srv_initilize := True\<rparr>))"

definition make_tcp_server :: "nat \<Rightarrow> string \<Rightarrow> string \<Rightarrow> int \<Rightarrow> int \<Rightarrow> bool \<Rightarrow> tcp_server res" where
  "make_tcp_server owner name ip_port fd idle wcb = srv_initialize (new_tcp_server owner name ip_port fd idle wcb)"

definition set_thread_num :: "int \<Rightarrow> tcp_server \<Rightarrow> tcp_server res" where
  "set_thread_num n s =
     check (srv_initilize s) (check (0 \<le> n) (Inr (s\<lparr>workers := (workers s)\<lparr>num_threads := n\<rparr>\<rparr>)))"

definition srv_listen :: "(nat \<Rightarrow> nat) \<Rightarrow> nat \<Rightarrow> tcp_server \<Rightarrow> tcp_server res" where
  "srv_listen start_loop cur s =
     check (srv_initilize s)
     (if srv_started s then Inr s
      else bindR (pool_start start_loop cur (workers s)) (\<lambda>p.
           check (\<not> acc_listen (srv_acceptor s))
           (bindR (acceptor_listen (srv_owner s) cur (srv_acceptor s)) (\<lambda>a.
           Inr (s\<lparr>srv_started := True, workers := p, srv_acceptor := a\<rparr>)))))"

text \<open>The decimal numeral of \<^verbatim>\<open>%d\<close>, and an entry of a \<^verbatim>\<open>std::map\<close> in the order of its keys.\<close>

fun digits :: "nat \<Rightarrow> string" where
  "digits n = (if n < 10 then [char_of (48 + n)] else digits (n div 10) @ [char_of (48 + n mod 10)])"

declare digits.simps [simp del]

definition decimal :: "int \<Rightarrow> string" where
  "decimal i = (if i < 0 then ''-'' @ digits (nat (- i)) else digits (nat i))"

definition conn_name :: "tcp_server \<Rightarrow> int \<Rightarrow> string" where
  "conn_name s i = srv_name s @ ''#'' @ srv_ip_port s @ ''#'' @ decimal i"

definition map_insert :: "string \<Rightarrow> int \<Rightarrow> (string \<times> int) list \<Rightarrow> (string \<times> int) list" where
  "map_insert k r m = insort_key fst (k, r) (filter (\<lambda>(k', _). k' \<noteq> k) m)"

definition srv_queue :: "nat \<Rightarrow> srv_task \<Rightarrow> tcp_server \<Rightarrow> tcp_server" where
  "srv_queue l t s = s\<lparr>queues := (queues s)(l := queues s l @ [t])\<rparr>"

type_synonym srv_result = "((int \<times> conn_event) list \<times> tcp_server) res"

definition with_conn :: "int \<Rightarrow> tcp_server \<Rightarrow> (sconn \<Rightarrow> 'a res) \<Rightarrow> 'a res" where
  "with_conn r s f = (case heap s r of None \<Rightarrow> Inl Out_of_bounds | Some x \<Rightarrow> f x)"

definition run_established :: "nat \<Rightarrow> int \<Rightarrow> tcp_server \<Rightarrow> srv_result" where
  "run_established cur r s = with_conn r s (\<lambda>x. check (cur = sc_loop x)
     (bindR (connect_established (sc x)) (\<lambda>(es, c). Inr (map (Pair r) es, s\<lparr>heap := (heap s)(r \<mapsto> x\<lparr>sc := c\<rparr>)\<rparr>))))"

definition run_destroyed :: "nat \<Rightarrow> int \<Rightarrow> tcp_server \<Rightarrow> srv_result" where
  "run_destroyed cur r s = with_conn r s (\<lambda>x. check (cur = sc_loop x)
     (bindR (connect_destroyed (sc x)) (\<lambda>(es, c).
      bindR (conn_destroy c) (\<lambda>_. Inr (map (Pair r) es, s\<lparr>heap := (heap s)(r := None)\<rparr>)))))"

definition new_connection :: "nat \<Rightarrow> int \<Rightarrow> tcp_server \<Rightarrow> srv_result" where
  "new_connection cur fd s =
     check (cur = srv_owner s)
     (bindR (get_next_loop cur (workers s)) (\<lambda>(worker, p).
      let r = next_conn_id s; name = conn_name s r in
      if r = 2 ^ 31 - 1 then Inl Signed_overflow
      else bindR (make_tcp_connection fd (srv_write_complete_cb s) False) (\<lambda>c.
        let s1 = s\<lparr>workers := p, next_conn_id := r + 1, heap := (heap s)(r \<mapsto> \<lparr>sc_name = name, sc_loop = worker, sc = c\<rparr>),
                   connections := map_insert name r (connections s)\<rparr>
        in if cur = worker then run_established cur r s1 else Inr ([], srv_queue worker (Established_task r) s1))))"

definition remove_connection_in_loop :: "nat \<Rightarrow> int \<Rightarrow> tcp_server \<Rightarrow> tcp_server res" where
  "remove_connection_in_loop cur r s =
     check (cur = srv_owner s) (with_conn r s (\<lambda>x.
       let n = length (filter (\<lambda>(k, _). k = sc_name x) (connections s));
           s1 = s\<lparr>connections := filter (\<lambda>(k, _). k \<noteq> sc_name x) (connections s)\<rparr>
       in check (n = 1) (Inr (srv_queue (sc_loop x) (Destroyed_task r) s1))))"

definition remove_connection :: "nat \<Rightarrow> int \<Rightarrow> tcp_server \<Rightarrow> tcp_server res" where
  "remove_connection cur r s =
     (if cur = srv_owner s then remove_connection_in_loop cur r s else Inr (srv_queue (srv_owner s) (Remove_task r) s))"

fun destroy_each :: "nat \<Rightarrow> (string \<times> int) list \<Rightarrow> tcp_server \<Rightarrow> srv_result" where
  "destroy_each cur [] s = Inr ([], s)"
| "destroy_each cur ((k, r) # m) s =
     bindR (with_conn r s (\<lambda>x. if cur = sc_loop x then run_destroyed cur r s
                              else Inr ([], srv_queue (sc_loop x) (Destroyed_task r) s))) (\<lambda>(es, s1).
     bindR (destroy_each cur m s1) (\<lambda>(es', s2). Inr (es @ es', s2)))"

definition tcp_server_destroy :: "nat \<Rightarrow> tcp_server \<Rightarrow> srv_result" where
  "tcp_server_destroy cur s =
     check (srv_initilize s) (check (cur = srv_owner s)
     (bindR (destroy_each cur (connections s) s) (\<lambda>(es, s1). Inr (es, s1\<lparr>connections := []\<rparr>))))"

section \<open>Steps\<close>

text \<open>A step of a connection that makes the finish callback calls \<^verbatim>\<open>remove_connection\<close> in the thread of the
  connection.\<close>

fun finish_callbacks :: "nat \<Rightarrow> int \<Rightarrow> conn_event list \<Rightarrow> tcp_server \<Rightarrow> tcp_server res" where
  "finish_callbacks cur r [] s = Inr s"
| "finish_callbacks cur r (e # es) s =
     bindR (if e = Finish_callback then remove_connection cur r s else Inr s) (finish_callbacks cur r es)"

definition conn_act :: "int \<Rightarrow> conn_op \<Rightarrow> tcp_server \<Rightarrow> srv_result" where
  "conn_act r x s = with_conn r s (\<lambda>y.
     bindR (conn_step (sc y) x) (\<lambda>(es, c).
     bindR (finish_callbacks (sc_loop y) r es (s\<lparr>heap := (heap s)(r \<mapsto> y\<lparr>sc := c\<rparr>)\<rparr>)) (\<lambda>s1.
     Inr (map (Pair r) es, s1))))"

fun run_srv_task :: "nat \<Rightarrow> srv_task \<Rightarrow> tcp_server \<Rightarrow> srv_result" where
  "run_srv_task cur (Established_task r) s = run_established cur r s"
| "run_srv_task cur (Remove_task r) s = bindR (remove_connection_in_loop cur r s) (\<lambda>s1. Inr ([], s1))"
| "run_srv_task cur (Destroyed_task r) s = run_destroyed cur r s"

datatype srv_op =
    Srv_set_thread_num int
  | Srv_listen "nat \<Rightarrow> nat"
  | Srv_accept accept_env
  | Srv_conn int conn_op
  | Srv_run nat

text \<open>The acceptor is called while the server listens. A connection is in the hands of the user and of the
  poller from the connect callback until it is destroyed.\<close>

fun srv_step :: "tcp_server \<Rightarrow> srv_op \<Rightarrow> srv_result" where
  "srv_step s (Srv_set_thread_num n) = bindR (set_thread_num n s) (\<lambda>s1. Inr ([], s1))"
| "srv_step s (Srv_listen sl) = bindR (srv_listen sl (srv_owner s) s) (\<lambda>s1. Inr ([], s1))"
| "srv_step s (Srv_accept env) =
     (if acc_listen (srv_acceptor s)
      then bindR (acceptor_handle_read True env (srv_acceptor s)) (\<lambda>(calls, fd, a).
           case fd of None \<Rightarrow> Inr ([], s\<lparr>srv_acceptor := a\<rparr>)
           | Some fd \<Rightarrow> new_connection (srv_owner s) fd (s\<lparr>srv_acceptor := a\<rparr>))
      else Inr ([], s))"
| "srv_step s (Srv_conn r x) =
     (case heap s r of None \<Rightarrow> Inr ([], s)
      | Some y \<Rightarrow> if conn_state (sc y) = kConnecting then Inr ([], s) else conn_act r x s)"
| "srv_step s (Srv_run l) =
     (case queues s l of [] \<Rightarrow> Inr ([], s) | t # ts \<Rightarrow> run_srv_task l t (s\<lparr>queues := (queues s)(l := ts)\<rparr>))"

section \<open>Names of connections\<close>

definition undigits :: "string \<Rightarrow> nat" where
  "undigits cs = foldl (\<lambda>n c. 10 * n + (of_char c - 48)) 0 cs"

lemma undigits_digits [simp]: "undigits (digits n) = n"
proof (induction n rule: digits.induct)
  case (1 n)
  have "of_char (char_of (48 + n mod 10) :: char) = (48 + n mod 10 :: nat)" by simp
  moreover have "n < 10 \<Longrightarrow> of_char (char_of (48 + n) :: char) = (48 + n :: nat)" by simp
  ultimately show ?case using 1 by (subst digits.simps) (auto simp: undigits_def)
qed

lemma conn_name_inj:
  assumes "0 \<le> i" and "0 \<le> j"
  shows "conn_name s i = conn_name s j \<longleftrightarrow> i = j"
proof
  assume "conn_name s i = conn_name s j"
  then have "digits (nat i) = digits (nat j)" using assms by (simp add: conn_name_def decimal_def)
  then have "undigits (digits (nat i)) = undigits (digits (nat j))" by (rule arg_cong)
  then show "i = j" using assms by simp
qed simp

section \<open>Invariant\<close>

text \<open>The life of a connection object. It is created, with \<^verbatim>\<open>connect_established\<close> queued in its loop; it is
  open; it is disconnected, with its removal queued in the loop of the server; it is removed from the
  map, with \<^verbatim>\<open>connect_destroyed\<close> queued in its loop; then it is gone. \<open>waiting s r\<close> are the functions queued for
  the connection in each loop, \<open>entries s r\<close> the keys it has in the map.\<close>

fun task_conn :: "srv_task \<Rightarrow> int" where
  "task_conn (Established_task r) = r"
| "task_conn (Remove_task r) = r"
| "task_conn (Destroyed_task r) = r"

definition waiting :: "tcp_server \<Rightarrow> int \<Rightarrow> nat \<Rightarrow> srv_task list" where
  "waiting s r l = filter (\<lambda>t. task_conn t = r) (queues s l)"

definition entries :: "tcp_server \<Rightarrow> int \<Rightarrow> string set" where
  "entries s r = {k. (k, r) \<in> set (connections s)}"

abbreviation none_waiting :: "nat \<Rightarrow> srv_task list" where
  "none_waiting \<equiv> (\<lambda>_. [])"

definition fresh_conn :: "tcp_connection \<Rightarrow> bool" where
  "fresh_conn c \<longleftrightarrow> (\<exists>fd wcb hcb. make_tcp_connection fd wcb hcb = Inr c)"

definition phase_ok :: "tcp_server \<Rightarrow> int \<Rightarrow> sconn \<Rightarrow> bool" where
  "phase_ok s r x \<longleftrightarrow>
     (waiting s r = none_waiting(sc_loop x := [Established_task r]) \<and> sc_loop x \<noteq> srv_owner s \<and> fresh_conn (sc x)
        \<and> entries s r = {sc_name x})
   \<or> (waiting s r = none_waiting \<and> conn_inv (sc x) \<and> is_open (sc x) \<and> entries s r = {sc_name x})
   \<or> (waiting s r = none_waiting(srv_owner s := [Remove_task r]) \<and> sc_loop x \<noteq> srv_owner s \<and> conn_inv (sc x) \<and> conn_state (sc x) = kDisconnected
        \<and> entries s r = {sc_name x})
   \<or> (waiting s r = none_waiting(sc_loop x := [Destroyed_task r]) \<and> conn_inv (sc x) \<and> conn_state (sc x) = kDisconnected
        \<and> entries s r = {})"

text \<open>The loop the connection with number \<open>r\<close> is served by, and the position of the pool that goes with it.\<close>

definition worker_of :: "tcp_server \<Rightarrow> int \<Rightarrow> nat" where
  "worker_of s r = (if loops (workers s) = [] then srv_owner s
     else loops (workers s) ! nat ((r - 1) mod int (length (loops (workers s)))))"

definition srv_pool_ok :: "tcp_server \<Rightarrow> bool" where
  "srv_pool_ok s \<longleftrightarrow> pool_owner (workers s) = srv_owner s \<and> pool_started (workers s) = srv_started s
     \<and> pool_next (workers s) = (if loops (workers s) = [] then 0 else (next_conn_id s - 1) mod int (length (loops (workers s))))
     \<and> (srv_started s \<or> loops (workers s) = [] \<and> next_conn_id s = 1)"

definition conn_rec_ok :: "tcp_server \<Rightarrow> int \<Rightarrow> bool" where
  "conn_rec_ok s r \<longleftrightarrow> (case heap s r of
     None \<Rightarrow> waiting s r = none_waiting \<and> entries s r = {}
   | Some x \<Rightarrow> 1 \<le> r \<and> r < next_conn_id s \<and> sc_name x = conn_name s r
       \<and> sc_loop x = worker_of s r \<and> phase_ok s r x)"

definition srv_inv :: "tcp_server \<Rightarrow> bool" where
  "srv_inv s \<longleftrightarrow> srv_initilize s \<and> srv_pool_ok s \<and> acc_listen (srv_acceptor s) = srv_started s
     \<and> 1 \<le> next_conn_id s \<and> distinct (map fst (connections s)) \<and> (\<forall>r. conn_rec_ok s r)"

lemma waiting_queue:
  "waiting (srv_queue l t s) r = (if task_conn t = r then (waiting s r)(l := waiting s r l @ [t]) else waiting s r)"
  by (auto simp: waiting_def srv_queue_def fun_eq_iff)

lemma waiting_pop:
  "queues s l = t # ts \<Longrightarrow> waiting (s\<lparr>queues := (queues s)(l := ts)\<rparr>) r =
     (if task_conn t = r then (waiting s r)(l := tl (waiting s r l)) else waiting s r)"
  by (auto simp: waiting_def fun_eq_iff)

lemma waiting_frame [simp]:
  "waiting (s\<lparr>heap := h\<rparr>) r = waiting s r" "waiting (s\<lparr>connections := m\<rparr>) r = waiting s r"
  "waiting (s\<lparr>workers := p\<rparr>) r = waiting s r" "waiting (s\<lparr>next_conn_id := i\<rparr>) r = waiting s r"
  "waiting (s\<lparr>srv_acceptor := a\<rparr>) r = waiting s r" "waiting (s\<lparr>srv_started := b\<rparr>) r = waiting s r"
  by (simp_all add: waiting_def fun_eq_iff)

lemma queue_frame [simp]:
  "heap (srv_queue l t s) = heap s" "connections (srv_queue l t s) = connections s" "workers (srv_queue l t s) = workers s"
  "next_conn_id (srv_queue l t s) = next_conn_id s" "srv_owner (srv_queue l t s) = srv_owner s"
  "srv_name (srv_queue l t s) = srv_name s" "srv_ip_port (srv_queue l t s) = srv_ip_port s"
  "srv_initilize (srv_queue l t s) = srv_initilize s" "srv_started (srv_queue l t s) = srv_started s"
  "srv_acceptor (srv_queue l t s) = srv_acceptor s"
  by (simp_all add: srv_queue_def)

text \<open>A step that concerns one connection leaves the records of all others alone.\<close>

lemma conn_rec_frame:
  assumes "conn_rec_ok s r" and "heap s' r = heap s r" and "waiting s' r = waiting s r" and "entries s' r = entries s r"
    and "srv_owner s' = srv_owner s" and "srv_name s' = srv_name s" and "srv_ip_port s' = srv_ip_port s"
    and "next_conn_id s \<le> next_conn_id s'" and "heap s r = None \<or> loops (workers s') = loops (workers s)"
  shows "conn_rec_ok s' r"
proof -
  have nm: "conn_name s' r = conn_name s r" using assms(6,7) by (simp add: conn_name_def)
  have ph: "phase_ok s' r x = phase_ok s r x" for x using assms(3-5) by (simp add: phase_ok_def)
  show ?thesis
  proof (cases "heap s r")
    case None
    with assms(1-4) show ?thesis by (simp add: conn_rec_ok_def)
  next
    case (Some x)
    with assms(1) have x: "1 \<le> r" "r < next_conn_id s" "sc_name x = conn_name s r"
        "sc_loop x = worker_of s r" "phase_ok s r x"
      by (simp_all add: conn_rec_ok_def)
    have "sc_loop x = worker_of s' r" using x(4) assms(5,9) Some by (simp add: worker_of_def)
    with x Some assms(2,8) nm ph show ?thesis by (simp add: conn_rec_ok_def)
  qed
qed

lemma srv_inv_static:
  assumes "srv_inv s" and "srv_initilize s'" and "srv_owner s' = srv_owner s" and "srv_name s' = srv_name s"
    and "srv_ip_port s' = srv_ip_port s" and "heap s' = heap s" and "queues s' = queues s" and "connections s' = connections s"
    and "next_conn_id s' = next_conn_id s" and "heap s = Map.empty \<or> loops (workers s') = loops (workers s)"
    and "srv_pool_ok s'" and "acc_listen (srv_acceptor s') = srv_started s'"
  shows "srv_inv s'"
proof -
  have "conn_rec_ok s' r" for r
    by (rule conn_rec_frame [of s]) (use assms in \<open>auto simp: srv_inv_def waiting_def entries_def fun_eq_iff\<close>)
  with assms show ?thesis by (simp add: srv_inv_def)
qed

lemma srv_inv_conn:
  assumes "srv_inv s" and "conn_rec_ok s' r" and "\<And>r'. r' \<noteq> r \<Longrightarrow> heap s' r' = heap s r'"
    and "\<And>r'. r' \<noteq> r \<Longrightarrow> waiting s' r' = waiting s r'" and "\<And>r'. r' \<noteq> r \<Longrightarrow> entries s' r' = entries s r'"
    and "distinct (map fst (connections s'))" and "next_conn_id s \<le> next_conn_id s'" and "srv_pool_ok s'"
    and "loops (workers s') = loops (workers s)" and "srv_acceptor s' = srv_acceptor s"
    and "srv_initilize s' = srv_initilize s" and "srv_owner s' = srv_owner s" and "srv_name s' = srv_name s"
    and "srv_ip_port s' = srv_ip_port s" and "srv_started s' = srv_started s"
  shows "srv_inv s'"
proof -
  have "conn_rec_ok s' r'" for r'
  proof (cases "r' = r")
    case False
    show ?thesis by (rule conn_rec_frame [of s]) (use assms False in \<open>auto simp: srv_inv_def\<close>)
  qed (use assms(2) in simp)
  with assms show ?thesis by (simp add: srv_inv_def)
qed

section \<open>Each step\<close>

abbreviation srv_tolerated :: "fault \<Rightarrow> bool" where
  "srv_tolerated f \<equiv> f \<in> {Length_error, Signed_overflow, Bad_syscall}"

lemma fresh_established:
  assumes "fresh_conn c"
  shows "\<exists>c'. connect_established c = Inr ([Connect_callback], c') \<and> conn_inv c' \<and> is_open c'"
proof -
  obtain fd wcb hcb where "make_tcp_connection fd wcb hcb = Inr c" using assms by (auto simp: fresh_conn_def)
  then have "established fd wcb hcb = connect_established c" by (simp add: established_def)
  with established_ok [of fd wcb hcb] established_inv [of fd wcb hcb] show ?thesis by (auto simp: is_open_def)
qed

lemma fresh_connecting: "fresh_conn c \<Longrightarrow> conn_state c = kConnecting"
  by (auto simp: fresh_conn_def make_tcp_connection_def new_tcp_connection_def new_buffer_unlimited initialize_def
      initialize_in_loop_def)

lemma make_connection_ok: "\<exists>c. make_tcp_connection fd wcb hcb = Inr c"
  by (simp add: make_tcp_connection_def new_tcp_connection_def new_buffer_unlimited initialize_def)

lemma srv_invD:
  assumes "srv_inv s"
  shows "conn_rec_ok s r" "distinct (map fst (connections s))" "srv_pool_ok s" "acc_listen (srv_acceptor s) = srv_started s"
    "srv_initilize s" "1 \<le> next_conn_id s"
  using assms by (simp_all add: srv_inv_def)

lemma conn_recD:
  assumes "srv_inv s" and "heap s r = Some x"
  shows "1 \<le> r" "r < next_conn_id s" "sc_name x = conn_name s r"
    "sc_loop x = worker_of s r" "phase_ok s r x"
  using srv_invD(1) [OF assms(1), of r] assms(2) by (simp_all add: conn_rec_ok_def)

text \<open>A function that is queued finds its connection alive, in the phase it was queued for, and runs in the
  loop that its check demands.\<close>

lemma queued_phase:
  assumes inv: "srv_inv s" and q: "queues s l = t # ts" and r: "task_conn t = r"
  obtains x where "heap s r = Some x" and "waiting s r = none_waiting(l := [t])"
    and "t = Established_task r \<Longrightarrow> l = sc_loop x \<and> fresh_conn (sc x) \<and> entries s r = {sc_name x}"
    and "t = Remove_task r \<Longrightarrow> l = srv_owner s \<and> conn_inv (sc x) \<and> conn_state (sc x) = kDisconnected \<and> entries s r = {sc_name x}"
    and "t = Destroyed_task r \<Longrightarrow> l = sc_loop x \<and> conn_inv (sc x) \<and> conn_state (sc x) = kDisconnected \<and> entries s r = {}"
proof -
  have mem: "t \<in> set (waiting s r l)" using q r by (simp add: waiting_def)
  then have "heap s r \<noteq> None" using srv_invD(1) [OF inv, of r] by (cases "heap s r") (auto simp: conn_rec_ok_def)
  then obtain x where x: "heap s r = Some x" by blast
  have "phase_ok s r x" by (rule conn_recD(5) [OF inv x])
  then consider
      (new) "waiting s r = none_waiting(sc_loop x := [Established_task r])" "fresh_conn (sc x)" "entries s r = {sc_name x}"
    | (live) "waiting s r = none_waiting"
    | (closed) "waiting s r = none_waiting(srv_owner s := [Remove_task r])" "conn_inv (sc x)" "conn_state (sc x) = kDisconnected"
        "entries s r = {sc_name x}"
    | (removed) "waiting s r = none_waiting(sc_loop x := [Destroyed_task r])" "conn_inv (sc x)" "conn_state (sc x) = kDisconnected"
        "entries s r = {}"
    unfolding phase_ok_def by blast
  then show thesis
  proof cases
    case live
    with mem show thesis by simp
  qed (use mem x that in \<open>auto split: if_splits\<close>)
qed

lemma entry_count:
  "distinct (map fst m) \<Longrightarrow> (k, r) \<in> set m \<Longrightarrow> filter (\<lambda>(k', _). k' = k) m = [(k, r)]"
  by (induction m) (force simp: filter_empty_conv)+

lemma distinct_filter_keys: "distinct (map fst m) \<Longrightarrow> distinct (map fst (filter P m))"
  by (rule distinct_map_filter)

lemma key_unique: "distinct (map fst m) \<Longrightarrow> (k, r) \<in> set m \<Longrightarrow> (k, r') \<in> set m \<Longrightarrow> r = r'"
  by (metis eq_key_imp_eq_value)

lemma remove_in_loop_ok:
  assumes inv: "srv_inv s" and x: "heap s r = Some x" and wt: "waiting s' r = none_waiting" and en: "entries s r = {sc_name x}"
    and s': "heap s' = (heap s)(r \<mapsto> y)" "sc_name y = sc_name x" "sc_loop y = sc_loop x" "connections s' = connections s"
      "workers s' = workers s" "next_conn_id s' = next_conn_id s" "srv_owner s' = srv_owner s" "srv_name s' = srv_name s"
      "srv_ip_port s' = srv_ip_port s" "srv_initilize s' = srv_initilize s" "srv_started s' = srv_started s"
      "srv_acceptor s' = srv_acceptor s" "\<And>r'. r' \<noteq> r \<Longrightarrow> waiting s' r' = waiting s r'"
    and y: "conn_inv (sc y)" "conn_state (sc y) = kDisconnected"
  shows "\<exists>s1. remove_connection_in_loop (srv_owner s) r s' = Inr s1 \<and> srv_inv s1"
proof -
  let ?m = "filter (\<lambda>(k, _). k \<noteq> sc_name x) (connections s)"
  let ?s1 = "srv_queue (sc_loop x) (Destroyed_task r) (s'\<lparr>connections := ?m\<rparr>)"
  have mem: "(sc_name x, r) \<in> set (connections s)" using en by (auto simp: entries_def)
  note dist = srv_invD(2) [OF inv]
  have "remove_connection_in_loop (srv_owner s) r s' = Inr ?s1"
    using entry_count [OF dist mem] s' by (simp add: remove_connection_in_loop_def with_conn_def)
  moreover have en_r: "entries ?s1 r = {}" using en by (auto simp: entries_def)
  have en_o: "entries ?s1 r' = entries s r'" if "r' \<noteq> r" for r'
    using key_unique [OF dist mem] that by (auto simp: entries_def)
  have "phase_ok ?s1 r y" using wt en_r y s'(3) by (simp add: phase_ok_def waiting_queue)
  then have "conn_rec_ok ?s1 r" using conn_recD [OF inv x] s' by (simp add: conn_rec_ok_def conn_name_def worker_of_def)
  then have "srv_inv ?s1"
    by (rule srv_inv_conn [OF inv]) (use s' en_o dist srv_invD(3) [OF inv] in \<open>simp_all add: waiting_queue distinct_filter_keys srv_pool_ok_def\<close>)
  ultimately show ?thesis by blast
qed

lemma run_task_ok:
  assumes inv: "srv_inv s" and q: "queues s l = t # ts"
  shows "\<exists>es s1. run_srv_task l t (s\<lparr>queues := (queues s)(l := ts)\<rparr>) = Inr (es, s1) \<and> srv_inv s1"
proof -
  define r where "r = task_conn t"
  let ?p = "s\<lparr>queues := (queues s)(l := ts)\<rparr>"
  obtain x where x: "heap s r = Some x" "waiting s r = none_waiting(l := [t])"
    and est: "t = Established_task r \<Longrightarrow> l = sc_loop x \<and> fresh_conn (sc x) \<and> entries s r = {sc_name x}"
    and rem: "t = Remove_task r \<Longrightarrow> l = srv_owner s \<and> conn_inv (sc x) \<and> conn_state (sc x) = kDisconnected \<and> entries s r = {sc_name x}"
    and des: "t = Destroyed_task r \<Longrightarrow> l = sc_loop x \<and> conn_inv (sc x) \<and> conn_state (sc x) = kDisconnected \<and> entries s r = {}"
    using queued_phase [OF inv q r_def [symmetric]] by blast
  have none: "waiting ?p r = none_waiting" using waiting_pop [OF q, of r] x(2) by (simp add: r_def fun_eq_iff)
  have other: "waiting ?p r' = waiting s r'" if "r' \<noteq> r" for r' using waiting_pop [OF q, of r'] that by (simp add: r_def)
  note frame = srv_invD(2,3) [OF inv]
  show ?thesis
  proof (cases t)
    case (Established_task r')
    then have t: "t = Established_task r" by (simp add: r_def)
    obtain c where c: "connect_established (sc x) = Inr ([Connect_callback], c)" "conn_inv c" "is_open c"
      using fresh_established est [OF t] by blast
    let ?s1 = "?p\<lparr>heap := (heap s)(r \<mapsto> x\<lparr>sc := c\<rparr>)\<rparr>"
    have "phase_ok ?s1 r (x\<lparr>sc := c\<rparr>)" using none c est [OF t] by (simp add: phase_ok_def entries_def)
    then have "conn_rec_ok ?s1 r" using conn_recD [OF inv x(1)] by (simp add: conn_rec_ok_def conn_name_def worker_of_def)
    then have "srv_inv ?s1" by (rule srv_inv_conn [OF inv]) (use other frame in \<open>simp_all add: entries_def srv_pool_ok_def\<close>)
    moreover have "run_srv_task l t ?p = Inr ([(r, Connect_callback)], ?s1)"
      using t x(1) c est [OF t] by (simp add: run_established_def with_conn_def)
    ultimately show ?thesis by blast
  next
    case (Remove_task r')
    then have t: "t = Remove_task r" by (simp add: r_def)
    have "\<exists>s1. remove_connection_in_loop (srv_owner s) r ?p = Inr s1 \<and> srv_inv s1"
      by (rule remove_in_loop_ok [OF inv x(1) none, where y = x]) (use rem [OF t] x(1) other in \<open>simp_all add: fun_upd_idem\<close>)
    then show ?thesis using t rem [OF t] by auto
  next
    case (Destroyed_task r')
    then have t: "t = Destroyed_task r" by (simp add: r_def)
    obtain c where c: "connect_destroyed (sc x) = Inr ([], c)" "conn_destroy c = Inr ()"
      using destroyed_ok(2) [of "sc x"] des [OF t] by (auto dest: conn_invD)
    let ?s1 = "?p\<lparr>heap := (heap s)(r := None)\<rparr>"
    have "conn_rec_ok ?s1 r" using none des [OF t] by (simp add: conn_rec_ok_def entries_def)
    then have "srv_inv ?s1" by (rule srv_inv_conn [OF inv]) (use other frame in \<open>simp_all add: entries_def srv_pool_ok_def\<close>)
    moreover have "run_srv_task l t ?p = Inr ([], ?s1)"
      using t x(1) c des [OF t] by (simp add: run_destroyed_def with_conn_def)
    ultimately show ?thesis by blast
  qed
qed

lemma finish_callbacks_none: "count_list es Finish_callback = 0 \<Longrightarrow> finish_callbacks cur r es s = Inr s"
  by (induction es) (auto split: if_splits)

lemma finish_callbacks_once:
  "count_list es Finish_callback = 1 \<Longrightarrow> finish_callbacks cur r es s = remove_connection cur r s"
proof (induction es)
  case (Cons e es)
  show ?case
  proof (cases "e = Finish_callback")
    case True
    with Cons.prems have "finish_callbacks cur r es = Inr" by (simp add: fun_eq_iff finish_callbacks_none)
    with True show ?thesis by simp
  qed (use Cons in simp)
qed simp

lemma conn_act_ok:
  assumes inv: "srv_inv s" and x: "heap s r = Some x" "conn_state (sc x) \<noteq> kConnecting" and leg: "legal_conn_op op"
  shows "ensures srv_tolerated (\<lambda>(es, s1). srv_inv s1) (conn_act r op s)"
proof -
  have ph: "phase_ok s r x" by (rule conn_recD(5) [OF inv x(1)])
  then have ci: "conn_inv (sc x)" and op: "is_open (sc x) \<Longrightarrow> waiting s r = none_waiting \<and> entries s r = {sc_name x}"
    using x(2) fresh_connecting by (auto simp: phase_ok_def is_open_def)
  have st: "is_open (sc x) \<or> conn_state (sc x) = kDisconnected"
    using x(2) by (cases "conn_state (sc x)") (simp_all add: is_open_def)
  note frame = srv_invD(2,3) [OF inv]
  show ?thesis
  proof (cases "conn_step (sc x) op")
    case (Inl f)
    with conn_step_good [OF ci leg] show ?thesis using x(1) by (simp add: conn_act_def with_conn_def)
  next
    case (Inr z)
    obtain es c where z: "z = (es, c)" by (cases z)
    let ?s1 = "s\<lparr>heap := (heap s)(r \<mapsto> x\<lparr>sc := c\<rparr>)\<rparr>"
    have g: "conn_inv c" "closed (sc x) + count_list es Finish_callback = closed c"
      using ensures_value [OF conn_step_good [OF ci leg] Inr [unfolded z]] by (simp_all add: good_def)
    have act: "conn_act r op s = bindR (finish_callbacks (sc_loop x) r es ?s1) (\<lambda>s1. Inr (map (Pair r) es, s1))"
      using Inr z x(1) by (simp add: conn_act_def with_conn_def)
    have "conn_base c" using g(1) by (rule conn_invD)
    then have stc: "is_open c \<or> conn_state c = kDisconnected"
      by (cases "conn_state c") (simp_all add: is_open_def conn_base_def)
    show ?thesis
    proof (cases "closed c = closed (sc x)")
      case True
      then have "is_open c = is_open (sc x)" "(conn_state c = kDisconnected) = (conn_state (sc x) = kDisconnected)"
        using st stc by (auto simp: closed_def is_open_def split: if_splits)
      then have "phase_ok ?s1 r (x\<lparr>sc := c\<rparr>)"
        using ph g(1) x(2) fresh_connecting by (auto simp: phase_ok_def entries_def)
      then have "conn_rec_ok ?s1 r" using conn_recD [OF inv x(1)] by (simp add: conn_rec_ok_def conn_name_def worker_of_def)
      then have "srv_inv ?s1" by (rule srv_inv_conn [OF inv]) (use frame in \<open>simp_all add: entries_def srv_pool_ok_def\<close>)
      with act True g(2) show ?thesis by (simp add: finish_callbacks_none)
    next
      case False
      then have cl: "is_open (sc x)" "conn_state c = kDisconnected" "count_list es Finish_callback = 1"
        using g(2) st by (auto simp: closed_def is_open_def split: if_splits)
      have rm: "finish_callbacks (sc_loop x) r es ?s1 = remove_connection (sc_loop x) r ?s1"
        by (rule finish_callbacks_once [OF cl(3)])
      show ?thesis
      proof (cases "sc_loop x = srv_owner s")
        case True
        have "\<exists>s1. remove_connection_in_loop (srv_owner s) r ?s1 = Inr s1 \<and> srv_inv s1"
          by (rule remove_in_loop_ok [OF inv x(1), where y = "x\<lparr>sc := c\<rparr>"]) (use op [OF cl(1)] cl g(1) in simp_all)
        with act rm True show ?thesis by (auto simp: remove_connection_def)
      next
        case False
        let ?s2 = "srv_queue (srv_owner s) (Remove_task r) ?s1"
        have "phase_ok ?s2 r (x\<lparr>sc := c\<rparr>)" using op [OF cl(1)] cl g(1) False by (simp add: phase_ok_def waiting_queue entries_def)
        then have "conn_rec_ok ?s2 r" using conn_recD [OF inv x(1)] by (simp add: conn_rec_ok_def conn_name_def worker_of_def)
        then have "srv_inv ?s2" by (rule srv_inv_conn [OF inv]) (use frame in \<open>simp_all add: entries_def waiting_queue srv_pool_ok_def\<close>)
        with act rm False show ?thesis by (simp add: remove_connection_def)
      qed
    qed
  qed
qed

lemma mod_next:
  fixes i n :: int
  assumes "0 < n"
  shows "(i + 1) mod n = (if i mod n + 1 \<ge> n then 0 else i mod n + 1)"
proof -
  have eq: "(i + 1) mod n = (i mod n + 1) mod n" by (simp add: mod_add_left_eq)
  have bd: "0 \<le> i mod n" "i mod n < n" using assms by simp_all
  show ?thesis
  proof (cases "i mod n + 1 \<ge> n")
    case True
    with bd have "i mod n + 1 = n" by linarith
    with eq show ?thesis by simp
  next
    case False
    with bd eq show ?thesis by simp
  qed
qed

lemma next_loop_ok:
  assumes "srv_pool_ok s" and "srv_started s"
  shows "\<exists>p. get_next_loop (srv_owner s) (workers s) = Inr (worker_of s (next_conn_id s), p) \<and> loops p = loops (workers s)
    \<and> srv_pool_ok (s\<lparr>workers := p, next_conn_id := next_conn_id s + 1\<rparr>)"
proof (cases "loops (workers s) = []")
  case True
  with assms show ?thesis by (simp add: get_next_loop_def srv_pool_ok_def worker_of_def)
next
  case False
  define n where "n = int (length (loops (workers s)))"
  define m where "m = (next_conn_id s - 1) mod n"
  have n: "0 < n" using False by (simp add: n_def)
  have m: "0 \<le> m" "m < n" "pool_next (workers s) = m" using n assms(1) False by (simp_all add: m_def n_def srv_pool_ok_def)
  have step: "next_conn_id s mod n = (if m + 1 \<ge> n then 0 else m + 1)"
    using mod_next [OF n, of "next_conn_id s - 1"] by (simp add: m_def)
  have "get_next_loop (srv_owner s) (workers s)
      = Inr (loops (workers s) ! nat m, (workers s)\<lparr>pool_next := (if m + 1 \<ge> n then 0 else m + 1)\<rparr>)"
    using assms m False unfolding n_def by (simp add: get_next_loop_def srv_pool_ok_def Let_def)
  moreover have "worker_of s (next_conn_id s) = loops (workers s) ! nat m" using False by (simp add: worker_of_def m_def n_def)
  moreover have "srv_pool_ok (s\<lparr>workers := (workers s)\<lparr>pool_next := (if m + 1 \<ge> n then 0 else m + 1)\<rparr>, next_conn_id := next_conn_id s + 1\<rparr>)"
    using assms False step by (simp add: srv_pool_ok_def n_def)
  ultimately show ?thesis by auto
qed

lemma fresh_key:
  assumes "srv_inv s"
  shows "(conn_name s (next_conn_id s), r) \<notin> set (connections s)"
proof
  assume mem: "(conn_name s (next_conn_id s), r) \<in> set (connections s)"
  then have en: "conn_name s (next_conn_id s) \<in> entries s r" by (simp add: entries_def)
  then obtain x where x: "heap s r = Some x"
    using srv_invD(1) [OF assms, of r] by (cases "heap s r") (auto simp: conn_rec_ok_def)
  have "entries s r \<subseteq> {conn_name s r}" using conn_recD(3,5) [OF assms x] by (auto simp: phase_ok_def)
  with en have "conn_name s (next_conn_id s) = conn_name s r" by blast
  then show False using conn_name_inj [of "next_conn_id s" r s] conn_recD(1,2) [OF assms x] by simp
qed

lemma map_insert_fresh:
  assumes "\<And>r'. (k, r') \<notin> set m" and "distinct (map fst m)"
  shows "set (map_insert k r m) = insert (k, r) (set m)" and "distinct (map fst (map_insert k r m))"
proof -
  have eq: "filter (\<lambda>(k', _). k' \<noteq> k) m = m" using assms(1) by (auto simp: filter_id_conv)
  then show st: "set (map_insert k r m) = insert (k, r) (set m)" by (simp add: map_insert_def set_insort_key)
  have len: "length (map fst (map_insert k r m)) = Suc (length m)" using eq by (simp add: map_insert_def)
  have "set (map fst (map_insert k r m)) = insert k (fst ` set m)" using st by simp
  moreover have "k \<notin> fst ` set m" using assms(1) by auto
  moreover have "card (fst ` set m) = length m" using assms(2) distinct_card [of "map fst m"] by simp
  ultimately show "distinct (map fst (map_insert k r m))" using len by (intro card_distinct) simp
qed

lemma new_connection_ok:
  assumes inv: "srv_inv s" and st: "srv_started s"
  shows "ensures srv_tolerated (\<lambda>(es, s1). srv_inv s1) (new_connection (srv_owner s) fd s)"
proof -
  let ?r = "next_conn_id s"
  let ?k = "conn_name s ?r"
  note frame = srv_invD [OF inv]
  obtain p where p: "get_next_loop (srv_owner s) (workers s) = Inr (worker_of s ?r, p)" "loops p = loops (workers s)"
    "srv_pool_ok (s\<lparr>workers := p, next_conn_id := ?r + 1\<rparr>)" using next_loop_ok [OF frame(3) st] by blast
  obtain c where c: "make_tcp_connection fd (srv_write_complete_cb s) False = Inr c" using make_connection_ok by blast
  then have fr: "fresh_conn c" by (auto simp: fresh_conn_def)
  define x where "x = \<lparr>sc_name = ?k, sc_loop = worker_of s ?r, sc = c\<rparr>"
  define s1 where "s1 = s\<lparr>workers := p, next_conn_id := ?r + 1, heap := (heap s)(?r \<mapsto> x), connections := map_insert ?k ?r (connections s)\<rparr>"
  have nx: "next_conn_id s1 = ?r + 1" and hp: "heap s1 = (heap s)(?r \<mapsto> x)"
    and ow: "srv_owner s1 = srv_owner s" by (simp_all add: s1_def)
  have ins: "set (map_insert ?k ?r (connections s)) = insert (?k, ?r) (set (connections s))"
    "distinct (map fst (map_insert ?k ?r (connections s)))"
    using map_insert_fresh [OF fresh_key [OF inv] frame(2)] by blast+
  have "heap s ?r = None" using conn_recD(2) [OF inv, of ?r] by (cases "heap s ?r") auto
  then have old: "waiting s ?r = none_waiting" "entries s ?r = {}" using frame(1) [of ?r] by (simp_all add: conn_rec_ok_def)
  have en: "entries s1 ?r = {?k}" "\<And>r'. r' \<noteq> ?r \<Longrightarrow> entries s1 r' = entries s r'"
    using ins(1) old(2) by (auto simp: entries_def s1_def)
  have ext: "srv_inv s2" if "conn_rec_ok s2 ?r" and "s2 = s1\<lparr>queues := q, heap := (heap s)(?r \<mapsto> y)\<rparr>"
      and "\<And>r'. r' \<noteq> ?r \<Longrightarrow> waiting s2 r' = waiting s r'" for s2 q y
    by (rule srv_inv_conn [OF inv that(1)])
       (use that(2,3) en(2) ins(2) p in \<open>simp_all add: s1_def entries_def srv_pool_ok_def\<close>)
  have wk: "worker_of s2 ?r = worker_of s ?r" "conn_name s2 ?r = ?k" if "s2 = s1\<lparr>queues := q, heap := h\<rparr>" for s2 q h
    using that p(2) by (simp_all add: worker_of_def s1_def conn_name_def)
  show ?thesis
  proof (cases "?r = 2 ^ 31 - 1")
    case True
    then show ?thesis using p(1) by (simp add: new_connection_def)
  next
    case False
    then have nc: "new_connection (srv_owner s) fd s = (if srv_owner s = worker_of s ?r then run_established (srv_owner s) ?r s1
        else Inr ([], srv_queue (worker_of s ?r) (Established_task ?r) s1))"
      using p(1) c by (simp add: new_connection_def s1_def x_def Let_def)
    show ?thesis
    proof (cases "srv_owner s = worker_of s ?r")
      case True
      obtain c' where c': "connect_established c = Inr ([Connect_callback], c')" "conn_inv c'" "is_open c'"
        using fresh_established fr by blast
      let ?s2 = "s1\<lparr>queues := queues s1, heap := (heap s)(?r \<mapsto> x\<lparr>sc := c'\<rparr>)\<rparr>"
      have "waiting ?s2 r = waiting s r" for r by (simp add: waiting_def s1_def fun_eq_iff)
      moreover have "phase_ok ?s2 ?r (x\<lparr>sc := c'\<rparr>)"
        using calculation [of ?r] old c' en(1) by (simp add: phase_ok_def x_def entries_def)
      then have "conn_rec_ok ?s2 ?r" using wk [of ?s2 _ "queues s1", OF refl] frame(6) nx by (simp add: conn_rec_ok_def x_def)
      ultimately have "srv_inv ?s2" by (intro ext [OF _ refl]) simp_all
      moreover have "run_established (srv_owner s) ?r s1 = Inr ([(?r, Connect_callback)], ?s2)"
        using True c' by (simp add: run_established_def with_conn_def s1_def x_def)
      ultimately show ?thesis using nc True by simp
    next
      case False
      let ?s2 = "srv_queue (worker_of s ?r) (Established_task ?r) s1"
      have s2: "?s2 = s1\<lparr>queues := queues ?s2, heap := (heap s)(?r \<mapsto> x)\<rparr>" by (simp add: srv_queue_def s1_def)
      have wt: "waiting s1 r = waiting s r" for r by (simp add: waiting_def s1_def fun_eq_iff)
      have "phase_ok ?s2 ?r x"
        using old en(1) wt fr False ow by (simp add: phase_ok_def x_def waiting_queue entries_def)
      then have "conn_rec_ok ?s2 ?r" using wk [OF s2] frame(6) nx hp by (simp add: conn_rec_ok_def x_def)
      then have "srv_inv ?s2" by (rule ext [OF _ s2]) (simp add: waiting_queue wt)
      with nc False show ?thesis by simp
    qed
  qed
qed

text \<open>The answers of the system that a step may rely on: the descriptors that the exhausted acceptor closes are
  open.\<close>

fun legal_srv_op :: "srv_op \<Rightarrow> bool" where
  "legal_srv_op (Srv_set_thread_num n) \<longleftrightarrow> 0 \<le> n"
| "legal_srv_op (Srv_accept env) \<longleftrightarrow>
     (first_accept env = Inl kEMFILE \<longrightarrow> close_idle env \<and> close_second env (fd_of (second_accept env)))"
| "legal_srv_op (Srv_conn r x) \<longleftrightarrow> legal_conn_op x"
| "legal_srv_op _ \<longleftrightarrow> True"

lemma handle_read_calls:
  assumes "legal_srv_op (Srv_accept env)"
  shows "ensures srv_tolerated (\<lambda>(calls, fd, a'). acc_listen a' = acc_listen a) (acceptor_handle_read True env a)"
  using assms by (cases "first_accept env") (auto simp: acceptor_handle_read_def sockets_accept_def kEMFILE_def)

lemma heap_before_listen: "srv_inv s \<Longrightarrow> \<not> srv_started s \<Longrightarrow> heap s = Map.empty"
proof
  fix r
  assume "srv_inv s" and "\<not> srv_started s"
  then have "next_conn_id s = 1" using srv_invD(3) [of s] by (simp add: srv_pool_ok_def)
  then show "heap s r = None" using conn_recD(1,2) [OF \<open>srv_inv s\<close>, of r] by (cases "heap s r") auto
qed

lemma listen_ok:
  assumes inv: "srv_inv s"
  shows "\<exists>s1. srv_listen sl (srv_owner s) s = Inr s1 \<and> srv_inv s1"
proof (cases "srv_started s")
  case True
  then show ?thesis using inv srv_invD(5) [OF inv] by (auto simp: srv_listen_def)
next
  case False
  note frame = srv_invD [OF inv]
  obtain ch where ch: "channel_do Op_enable_read (listen_channel (srv_acceptor s)) = Inr ch" by (simp add: channel_do_def)
  define p where "p = (workers s)\<lparr>pool_started := True, loops := loops (workers s) @ map sl [0..<nat (num_threads (workers s))]\<rparr>"
  define a where "a = (srv_acceptor s)\<lparr>acc_listen := True, listen_channel := ch\<rparr>"
  have "srv_listen sl (srv_owner s) s = Inr (s\<lparr>srv_started := True, workers := p, srv_acceptor := a\<rparr>)"
    using False frame(3,4,5) ch by (simp add: srv_listen_def pool_start_def acceptor_listen_def srv_pool_ok_def p_def a_def)
  moreover have "srv_inv (s\<lparr>srv_started := True, workers := p, srv_acceptor := a\<rparr>)"
    by (rule srv_inv_static [OF inv])
       (use False frame heap_before_listen [OF inv False] in \<open>simp_all add: p_def a_def srv_pool_ok_def\<close>)
  ultimately show ?thesis by blast
qed

lemma srv_step_ok:
  assumes inv: "srv_inv s" and leg: "legal_srv_op x"
  shows "ensures srv_tolerated (\<lambda>(es, s1). srv_inv s1) (srv_step s x)"
proof (cases x)
  case (Srv_set_thread_num n)
  have "srv_inv (s\<lparr>workers := (workers s)\<lparr>num_threads := n\<rparr>\<rparr>)"
    by (rule srv_inv_static [OF inv]) (use srv_invD [OF inv] in \<open>simp_all add: srv_pool_ok_def\<close>)
  then show ?thesis using Srv_set_thread_num leg srv_invD(5) [OF inv] by (simp add: set_thread_num_def)
next
  case (Srv_listen sl)
  then show ?thesis using listen_ok [OF inv, of sl] by auto
next
  case (Srv_accept env)
  show ?thesis
  proof (cases "acc_listen (srv_acceptor s)")
    case True
    then have st: "srv_started s" using srv_invD(4) [OF inv] by simp
    have "ensures srv_tolerated (\<lambda>(es, s1). srv_inv s1)
      (bindR (acceptor_handle_read True env (srv_acceptor s)) (\<lambda>(calls, fd, a).
           case fd of None \<Rightarrow> Inr ([], s\<lparr>srv_acceptor := a\<rparr>)
           | Some fd \<Rightarrow> new_connection (srv_owner s) fd (s\<lparr>srv_acceptor := a\<rparr>)))"
    proof (rule ensures_bindR [OF handle_read_calls [OF leg [unfolded Srv_accept]]])
      fix z :: "accept_call list \<times> int option \<times> acceptor"
      assume z: "case z of (calls, fd, a') \<Rightarrow> acc_listen a' = acc_listen (srv_acceptor s)"
      obtain calls fd a where zz: "z = (calls, fd, a)" by (cases z)
      let ?s = "s\<lparr>srv_acceptor := a\<rparr>"
      have "srv_inv ?s"
        by (rule srv_inv_static [OF inv]) (use srv_invD [OF inv] z zz in \<open>simp_all add: srv_pool_ok_def\<close>)
      then have "ensures srv_tolerated (\<lambda>(es, s1). srv_inv s1) (new_connection (srv_owner s) fd' ?s)" for fd'
        using new_connection_ok [of ?s fd'] st by simp
      with \<open>srv_inv ?s\<close> show "ensures srv_tolerated (\<lambda>(es, s1). srv_inv s1) (case z of (calls, fd, a) \<Rightarrow>
           case fd of None \<Rightarrow> Inr ([], s\<lparr>srv_acceptor := a\<rparr>)
           | Some fd \<Rightarrow> new_connection (srv_owner s) fd (s\<lparr>srv_acceptor := a\<rparr>))"
        by (simp add: zz split: option.split)
    qed
    then show ?thesis using Srv_accept True by simp
  qed (use Srv_accept inv in simp)
next
  case (Srv_conn r op)
  then show ?thesis using conn_act_ok [OF inv] leg inv by (simp split: option.split)
next
  case (Srv_run l)
  show ?thesis
  proof (cases "queues s l")
    case (Cons t ts)
    with run_task_ok [OF inv Cons] Srv_run show ?thesis by auto
  qed (use Srv_run inv in simp)
qed

interpretation srv: step_invariant srv_inv srv_step legal_srv_op srv_tolerated
proof
  fix s x f
  assume "srv_inv s" "legal_srv_op x" "srv_step s x = Inl f"
  then show "srv_tolerated f" using srv_step_ok [of s x] by simp
next
  fix s x r s'
  assume "srv_inv s" "legal_srv_op x" "srv_step s x = Inr (r, s')"
  then show "srv_inv s'" using srv_step_ok [of s x] by simp
qed

lemma make_server_inv: "make_tcp_server owner name ip_port fd idle wcb = Inr s \<Longrightarrow> srv_inv s"
  by (auto simp: make_tcp_server_def srv_initialize_def new_tcp_server_def new_event_loop_pool_def new_acceptor_def srv_inv_def
      srv_pool_ok_def conn_rec_ok_def waiting_def entries_def fun_eq_iff)

lemma waiting_memI:
  assumes "waiting s r l = [t]"
  shows "t \<in> set (queues s l)"
proof -
  have "t \<in> set (waiting s r l)" using assms by simp
  then show ?thesis by (simp add: waiting_def)
qed

lemma phase_listed:
  assumes "phase_ok s r x"
  shows "if conn_state (sc x) = kConnecting
    then (sc_name x, r) \<in> set (connections s) \<and> Established_task r \<in> set (queues s (sc_loop x))
    else if conn_state (sc x) = kDisconnected
    then (sc_name x, r) \<in> set (connections s) \<and> Remove_task r \<in> set (queues s (srv_owner s))
         \<or> (sc_name x, r) \<notin> set (connections s) \<and> Destroyed_task r \<in> set (queues s (sc_loop x))
    else (sc_name x, r) \<in> set (connections s)"
proof -
  have en: "(sc_name x, r) \<in> set (connections s) \<longleftrightarrow> sc_name x \<in> entries s r" by (simp add: entries_def)
  from assms consider
      (new) "waiting s r (sc_loop x) = [Established_task r]" "fresh_conn (sc x)" "entries s r = {sc_name x}"
    | (live) "conn_inv (sc x)" "is_open (sc x)" "entries s r = {sc_name x}"
    | (closed) "waiting s r (srv_owner s) = [Remove_task r]" "conn_state (sc x) = kDisconnected" "entries s r = {sc_name x}"
    | (removed) "waiting s r (sc_loop x) = [Destroyed_task r]" "conn_state (sc x) = kDisconnected" "entries s r = {}"
    unfolding phase_ok_def by fastforce
  then show ?thesis
    using fresh_connecting by cases (auto simp: en is_open_def intro: waiting_memI)
qed

section \<open>Destroying the server\<close>

lemma listed_conn:
  assumes inv: "srv_inv s" and mem: "(k, r) \<in> set (connections s)"
  shows "\<exists>x. heap s r = Some x \<and> sc_name x = k \<and> k = conn_name s r"
proof -
  have en: "k \<in> entries s r" using mem by (simp add: entries_def)
  then obtain x where x: "heap s r = Some x"
    using srv_invD(1) [OF inv, of r] by (cases "heap s r") (auto simp: conn_rec_ok_def)
  have "entries s r \<subseteq> {sc_name x}" using conn_recD(5) [OF inv x] by (auto simp: phase_ok_def)
  with en conn_recD(3) [OF inv x] x show ?thesis by auto
qed

lemma listed_distinct:
  assumes "srv_inv s"
  shows "distinct (map snd (connections s))"
proof -
  have "fst e = conn_name s (snd e)" if "e \<in> set (connections s)" for e
    using listed_conn [OF assms, of "fst e" "snd e"] that by auto
  then have "map fst (connections s) = map (conn_name s) (map snd (connections s))" by simp
  with srv_invD(2) [OF assms] show ?thesis by (metis distinct_map)
qed

lemma run_destroyed_ok:
  assumes "heap s r = Some x" and "sc_loop x = cur" and "conn_base (sc x)"
  shows "if conn_state (sc x) = kDisconnecting then run_destroyed cur r s = Inl Check_failed
    else \<exists>es. run_destroyed cur r s = Inr (es, s\<lparr>heap := (heap s)(r := None)\<rparr>)"
  using assms destroyed_ok [OF assms(3)]
  by (cases "conn_state (sc x) = kDisconnecting") (fastforce simp: run_destroyed_def with_conn_def)+

definition closing_listed :: "(string \<times> int) list \<Rightarrow> tcp_server \<Rightarrow> bool" where
  "closing_listed m s \<longleftrightarrow> (\<exists>(k, r) \<in> set m. \<exists>x. heap s r = Some x \<and> conn_state (sc x) = kDisconnecting)"

lemma destroy_each_ok:
  assumes "distinct (map snd m)" and "\<And>k r. (k, r) \<in> set m \<Longrightarrow> \<exists>x. heap s r = Some x \<and> sc_loop x = cur \<and> conn_base (sc x)"
  shows "if closing_listed m s
    then destroy_each cur m s = Inl Check_failed
    else \<exists>es s'. destroy_each cur m s = Inr (es, s') \<and> (\<forall>(k, r) \<in> set m. heap s' r = None)
      \<and> (\<forall>r. r \<notin> snd ` set m \<longrightarrow> heap s' r = heap s r)"
  using assms
proof (induction m arbitrary: s)
  case (Cons e m)
  obtain k r where e: "e = (k, r)" by (cases e)
  obtain x where x: "heap s r = Some x" "sc_loop x = cur" "conn_base (sc x)" using Cons.prems(2) e by auto
  have r: "r \<notin> snd ` set m" "distinct (map snd m)" using Cons.prems(1) e by auto
  let ?s1 = "s\<lparr>heap := (heap s)(r := None)\<rparr>"
  have same: "heap ?s1 r' = heap s r'" if "(k', r') \<in> set m" for k' r'
    using r(1) that by (auto simp: image_iff)
  show ?case
  proof (cases "conn_state (sc x) = kDisconnecting")
    case True
    then show ?thesis using run_destroyed_ok [OF x] x e by (auto simp: with_conn_def closing_listed_def)
  next
    case False
    then obtain es where step: "run_destroyed cur r s = Inr (es, ?s1)" using run_destroyed_ok [OF x] by auto
    have eq: "destroy_each cur (e # m) s = bindR (destroy_each cur m ?s1) (\<lambda>(es', s2). Inr (es @ es', s2))"
      using x step e by (simp add: with_conn_def)
    have prem: "\<exists>x. heap ?s1 r' = Some x \<and> sc_loop x = cur \<and> conn_base (sc x)" if "(k', r') \<in> set m" for k' r'
      using Cons.prems(2) [of k' r'] that unfolding same [OF that] by simp
    have ih: "if closing_listed m ?s1 then destroy_each cur m ?s1 = Inl Check_failed
      else \<exists>es s'. destroy_each cur m ?s1 = Inr (es, s') \<and> (\<forall>(k, r) \<in> set m. heap s' r = None)
        \<and> (\<forall>r. r \<notin> snd ` set m \<longrightarrow> heap s' r = heap ?s1 r)"
      by (rule Cons.IH [OF r(2)]) (rule prem)
    have bad: "closing_listed m ?s1 \<longleftrightarrow> closing_listed (e # m) s"
      using same x(1) False e unfolding closing_listed_def by fastforce
    show ?thesis
    proof (cases "closing_listed (e # m) s")
      case True
      with ih bad eq show ?thesis by (simp del: destroy_each.simps)
    next
      case no: False
      with ih bad obtain es' s' where s': "destroy_each cur m ?s1 = Inr (es', s')" "\<forall>(k, r) \<in> set m. heap s' r = None"
        "\<forall>r. r \<notin> snd ` set m \<longrightarrow> heap s' r = heap ?s1 r" by (metis (no_types, lifting))
      have "destroy_each cur (e # m) s = Inr (es @ es', s')" using eq s'(1) by simp
      moreover have "\<forall>(k, r) \<in> set (e # m). heap s' r = None" using s'(2,3) r(1) e by auto
      moreover have "\<forall>r. r \<notin> snd ` set (e # m) \<longrightarrow> heap s' r = heap s r" using s'(3) e by auto
      ultimately show ?thesis using no by (simp del: destroy_each.simps)
    qed
  qed
qed (simp add: closing_listed_def)

section \<open>Properties\<close>


lemma server_made:
  "\<exists>s. make_tcp_server owner name ip_port fd idle wcb = Inr s"
  by (simp add: make_tcp_server_def srv_initialize_def new_tcp_server_def)


text \<open>Connections are spread evenly. Over every run of the server, the connection with number \<open>r\<close> is served by
  the loop at position \<open>r - 1\<close> modulo the number of loops, or by the loop of the server when the pool has no threads,
  and the position of the pool stays inside the list of loops.\<close>

theorem server_round_robin:
  assumes "make_tcp_server owner name ip_port fd idle wcb = Inr s0" and "list_all legal_srv_op ops"
    and "run_steps srv_step s0 ops = Inr (outs, s)"
  shows "(\<forall>r x. heap s r = Some x \<longrightarrow>
      sc_loop x = (if loops (workers s) = [] then srv_owner s
                   else loops (workers s) ! nat ((r - 1) mod int (length (loops (workers s))))))
    \<and> 0 \<le> pool_next (workers s) \<and> pool_next (workers s) \<le> int (length (loops (workers s)) - 1)"
proof -
  have inv: "srv_inv s" using srv.run_inv [OF make_server_inv [OF assms(1)] assms(2,3)] .
  have spread: "\<forall>r x. heap s r = Some x \<longrightarrow>
      sc_loop x = (if loops (workers s) = [] then srv_owner s
                   else loops (workers s) ! nat ((r - 1) mod int (length (loops (workers s)))))"
    using conn_recD(4) [OF inv] by (auto simp: worker_of_def)
  define n where "n = int (length (loops (workers s)))"
  have "0 \<le> pool_next (workers s) \<and> pool_next (workers s) \<le> int (length (loops (workers s)) - 1)"
  proof (cases "loops (workers s) = []")
    case False
    then have n: "0 < n" "int (length (loops (workers s)) - 1) = n - 1" by (simp_all add: n_def of_nat_diff Suc_le_eq)
    have "pool_next (workers s) = (next_conn_id s - 1) mod n"
      using srv_invD(3) [OF inv] False by (simp add: srv_pool_ok_def n_def)
    with n show ?thesis by simp
  qed (use srv_invD(3) [OF inv] in \<open>simp add: srv_pool_ok_def\<close>)
  with spread show ?thesis by blast
qed

theorem server_round_robin_witness:
  "\<exists>s0 s. make_tcp_server 0 ''srv'' ''[::]:80'' 3 4 True = Inr s0
     \<and> run_steps srv_step s0 [Srv_set_thread_num 2, Srv_listen Suc] = Inr ([[], []], s)
     \<and> loops (workers s) = [1, 2] \<and> 0 \<le> pool_next (workers s) \<and> pool_next (workers s) \<le> 1"
proof -
  obtain s0 where s0: "make_tcp_server 0 ''srv'' ''[::]:80'' 3 4 True = Inr s0" using server_made by blast
  have leg: "list_all legal_srv_op [Srv_set_thread_num 2, Srv_listen Suc]" by simp
  have "s0 = (new_tcp_server 0 ''srv'' ''[::]:80'' 3 4 True)\<lparr>srv_initilize := True\<rparr>"
    using s0 by (auto simp: make_tcp_server_def srv_initialize_def)
  then obtain s where s: "run_steps srv_step s0 [Srv_set_thread_num 2, Srv_listen Suc] = Inr ([[], []], s)" "loops (workers s) = [1, 2]"
    by (simp add: set_thread_num_def srv_listen_def pool_start_def acceptor_listen_def channel_do_def new_tcp_server_def
        new_event_loop_pool_def new_acceptor_def upt_rec)
  from server_round_robin [OF s0 leg s(1)] s s0 show ?thesis by auto
qed

text \<open>C37: Destroying the server. For a server without threads, in every reachable state, the destructor destroys
  every listed connection, unless one of them is in the middle of a shutdown: then it aborts.\<close>

theorem server_destroy_result:
  assumes "make_tcp_server owner name ip_port fd idle wcb = Inr s0" and "list_all legal_srv_op ops"
    and "run_steps srv_step s0 ops = Inr (outs, s)" and "loops (workers s) = []"
  shows "if \<exists>r x. heap s r = Some x \<and> conn_state (sc x) = kDisconnecting
    then tcp_server_destroy (srv_owner s) s = Inl Check_failed
    else \<exists>es s'. tcp_server_destroy (srv_owner s) s = Inr (es, s') \<and> (\<forall>(k, r) \<in> set (connections s). heap s' r = None)"
proof -
  have inv: "srv_inv s" using srv.run_inv [OF make_server_inv [OF assms(1)] assms(2,3)] .
  have own: "sc_loop x = srv_owner s" "conn_base (sc x)" if "heap s r = Some x" for r x
    using conn_recD(4,5) [OF inv that] assms(4) by (auto simp: worker_of_def phase_ok_def dest: conn_invD)
  have pre: "\<exists>x. heap s r = Some x \<and> sc_loop x = srv_owner s \<and> conn_base (sc x)" if "(k, r) \<in> set (connections s)" for k r
    using listed_conn [OF inv that] own by blast
  have each: "if closing_listed (connections s) s then destroy_each (srv_owner s) (connections s) s = Inl Check_failed
    else \<exists>es s'. destroy_each (srv_owner s) (connections s) s = Inr (es, s') \<and> (\<forall>(k, r) \<in> set (connections s). heap s' r = None)
      \<and> (\<forall>r. r \<notin> snd ` set (connections s) \<longrightarrow> heap s' r = heap s r)"
    by (rule destroy_each_ok [OF listed_distinct [OF inv]]) (rule pre)
  have listed: "(sc_name x, r) \<in> set (connections s)" if "heap s r = Some x" "conn_state (sc x) = kDisconnecting" for r x
    using phase_listed [OF conn_recD(5) [OF inv that(1)]] that(2) by simp
  then have "closing_listed (connections s) s \<longleftrightarrow> (\<exists>r x. heap s r = Some x \<and> conn_state (sc x) = kDisconnecting)"
    unfolding closing_listed_def by blast
  with each srv_invD(5) [OF inv] show ?thesis by (fastforce simp: tcp_server_destroy_def)
qed

theorem server_destroy_result_witness:
  "\<exists>s0 s. make_tcp_server 0 ''srv'' ''[::]:80'' 3 4 True = Inr s0
     \<and> run_steps srv_step s0 [Srv_listen Suc] = Inr ([[]], s) \<and> loops (workers s) = []
     \<and> (\<exists>es s'. tcp_server_destroy (srv_owner s) s = Inr (es, s'))"
proof -
  obtain s0 where s0: "make_tcp_server 0 ''srv'' ''[::]:80'' 3 4 True = Inr s0" using server_made by blast
  have leg: "list_all legal_srv_op [Srv_listen Suc]" by simp
  have "s0 = (new_tcp_server 0 ''srv'' ''[::]:80'' 3 4 True)\<lparr>srv_initilize := True\<rparr>"
    using s0 by (auto simp: make_tcp_server_def srv_initialize_def)
  then obtain s where s: "run_steps srv_step s0 [Srv_listen Suc] = Inr ([[]], s)" "loops (workers s) = []" "heap s = Map.empty"
    by (simp add: srv_listen_def pool_start_def acceptor_listen_def channel_do_def new_tcp_server_def
        new_event_loop_pool_def new_acceptor_def)
  from server_destroy_result [OF s0 leg s(1,2)] s s0 show ?thesis by auto
qed

end
