(* ===== verification/Tcp_Client.thy ===== *)
theory Tcp_Client
  imports Tcp_Connection
begin

text \<open>
  The client side: the connector (src/Connector.h, src/Connector.cc) and the client (include/TcpClient.h,
  src/TcpClient.cc), which live in one loop.

  \<^item> \<open>cn_tasks\<close> are the functions both queued in the loop, in order; \<open>timers_due\<close> are the pending timers that will
    call \<^verbatim>\<open>start_in_own_loop\<close>. A member function called in the thread of the loop (\<open>own\<close>) runs its part in the loop at
    once, otherwise it queues it.
  \<^item> A socket object is a number; \<open>freed\<close> are those whose owner deleted them. The channel keeps a pointer to the socket it was made for.
  \<^item> \<open>dc\<close> is \<^verbatim>\<open>DCHECK_IS_ON()\<close> for the destructor of the channel, which looks the descriptor of its socket up only then; \<open>dangling\<close> is set
    when a channel is deleted that the poller still knows.
  \<^item> \<open>ans\<close> is the value of \<^verbatim>\<open>errno\<close> after \<^verbatim>\<open>connect(2)\<close>, \<open>err\<close> the result of \<^verbatim>\<open>get_sock_error\<close>. A socket can be created.
\<close>

section \<open>Connector\<close>

datatype connector_state = Disconnected | Connecting | Connected

datatype connector_task =
    Start_task
  | Stop_task
  | Retry_in_loop_task
  | Reset_channel_task
  | Cancel_task nat
  | Connector_retry_task
  | Conn_destroyed_task

datatype connector_event = New_connect nat | Error_connect | Run_after int

record connector =
  cn_connect :: bool
  cn_state :: connector_state
  retry_delay_ms :: int
  time_id :: "nat option"
  connect_socket :: "nat option"
  cn_channel :: "(channel \<times> nat) option"
  cn_tasks :: "connector_task list"
  timers_due :: "nat list"
  next_timer :: nat
  next_socket :: nat
  freed :: "nat list"
  dangling :: bool

type_synonym connector_result = "(connector_event list \<times> connector) res"

definition kInitRetryDelayMs :: int where "kInitRetryDelayMs = 500"
definition kMaxRetryDelayMs :: int where "kMaxRetryDelayMs = 30 * 1000"

definition new_connector :: connector where
  "new_connector = \<lparr>cn_connect = False, cn_state = Disconnected, retry_delay_ms = kInitRetryDelayMs, time_id = None,
     connect_socket = None, cn_channel = None, cn_tasks = [], timers_due = [], next_timer = 0, next_socket = 0, freed = [], dangling = False\<rparr>"

definition connector_destroy :: "connector \<Rightarrow> unit res" where
  "connector_destroy c = check (connect_socket c = None) (check (cn_channel c = None) (Inr ()))"

definition cn_queue :: "connector_task \<Rightarrow> connector \<Rightarrow> connector" where
  "cn_queue t c = c\<lparr>cn_tasks := cn_tasks c @ [t]\<rparr>"

definition reset_socket :: "connector \<Rightarrow> connector" where
  "reset_socket c = (case connect_socket c of None \<Rightarrow> c | Some k \<Rightarrow> c\<lparr>connect_socket := None, freed := k # freed c\<rparr>)"

text \<open>An operation of the channel reads the descriptor through the pointer to the socket.\<close>

definition cn_channel_do :: "chan_op \<Rightarrow> channel \<times> nat \<Rightarrow> connector \<Rightarrow> connector res" where
  "cn_channel_do x chk c =
     (if snd chk \<in> set (freed c) then Inl Out_of_bounds
      else bindR (channel_do x (fst chk)) (\<lambda>ch. Inr (c\<lparr>cn_channel := Some (ch, snd chk)\<rparr>)))"

definition remove_and_reset_channel :: "connector \<Rightarrow> connector res" where
  "remove_and_reset_channel c =
     bindR (case cn_channel c of
              None \<Rightarrow> Inr c
            | Some (ch, k) \<Rightarrow>
                if \<not> is_none_event ch
                then bindR (cn_channel_do Op_disable_all (ch, k) c) (\<lambda>c1. cn_channel_do Op_remove (the (cn_channel c1)) c1)
                else Inr c) (\<lambda>c1.
     Inr (cn_queue Reset_channel_task c1))"

definition reset_channel :: "bool \<Rightarrow> connector \<Rightarrow> connector res" where
  "reset_channel dc c =
     (case cn_channel c of
        None \<Rightarrow> Inr c
      | Some (ch, k) \<Rightarrow>
          bindR (if dc then check (\<not> handling_event ch) (check (\<not> added_to_loop ch)
                   (if k \<in> set (freed c) then Inl Out_of_bounds else check (status ch = kChannelPollInit) (Inr ())))
                 else Inr ()) (\<lambda>_.
          Inr (c\<lparr>cn_channel := None, dangling := (dangling c \<or> status ch \<noteq> kChannelPollInit)\<rparr>)))"

definition in_connect :: "connector \<Rightarrow> connector res" where
  "in_connect c =
     (case connect_socket c of
        None \<Rightarrow> Inl Check_failed
      | Some k \<Rightarrow> check (cn_channel c = None)
          (cn_channel_do Op_enable_write ((new_channel (int k))\<lparr>has_error_cb := True, has_write_cb := True\<rparr>, k)
             (c\<lparr>cn_state := Connecting\<rparr>)))"

definition retry_in_own_loop :: "connector \<Rightarrow> connector_event list \<times> connector" where
  "retry_in_own_loop c =
     (let c1 = reset_socket (c\<lparr>cn_state := Disconnected\<rparr>)
      in if cn_connect c1
         then ([Run_after (retry_delay_ms c1)],
               c1\<lparr>time_id := Some (next_timer c1), timers_due := timers_due c1 @ [next_timer c1], next_timer := next_timer c1 + 1,
                  retry_delay_ms := min (retry_delay_ms c1 * 2) kMaxRetryDelayMs\<rparr>)
         else ([], c1))"

definition do_connect :: "int \<Rightarrow> connector \<Rightarrow> connector_result" where
  "do_connect ans c =
     check (connect_socket c = None)
     (let c1 = c\<lparr>connect_socket := Some (next_socket c), next_socket := next_socket c + 1\<rparr>
      in if ans \<in> {0, 4, 106, 115} then bindR (in_connect c1) (\<lambda>c2. Inr ([], c2))
         else if ans \<in> {11, 99, 98, 101, 111} then Inr (retry_in_own_loop c1)
         else Inr ([], reset_socket c1))"

definition start_in_own_loop :: "int \<Rightarrow> connector \<Rightarrow> connector_result" where
  "start_in_own_loop ans c =
     check (cn_state c = Disconnected) (if cn_connect c then do_connect ans c else Inr ([], c))"

definition stop_in_own_loop :: "connector \<Rightarrow> connector res" where
  "stop_in_own_loop c =
     bindR (remove_and_reset_channel (c\<lparr>cn_state := Disconnected\<rparr>)) (\<lambda>c1. Inr (reset_socket c1))"

definition connector_start :: "bool \<Rightarrow> int \<Rightarrow> connector \<Rightarrow> connector_result" where
  "connector_start own ans c =
     (if \<not> cn_connect c
      then let c1 = c\<lparr>cn_connect := True\<rparr> in if own then start_in_own_loop ans c1 else Inr ([], cn_queue Start_task c1)
      else Inr ([], c))"

definition cancel_timer_id :: "nat \<Rightarrow> connector \<Rightarrow> connector" where
  "cancel_timer_id n c = c\<lparr>timers_due := filter (\<lambda>m. m \<noteq> n) (timers_due c)\<rparr>"

definition connector_stop :: "bool \<Rightarrow> connector \<Rightarrow> connector res" where
  "connector_stop own c =
     (if cn_connect c
      then let c1 = c\<lparr>cn_connect := False\<rparr>
           in bindR (if own then stop_in_own_loop c1 else Inr (cn_queue Stop_task c1)) (\<lambda>c2.
              Inr (case time_id c2 of
                     None \<Rightarrow> c2
                   | Some n \<Rightarrow> if own then cancel_timer_id n c2 else cn_queue (Cancel_task n) c2))
      else Inr c)"

definition connector_retry :: "bool \<Rightarrow> connector \<Rightarrow> connector_event list \<times> connector" where
  "connector_retry own c =
     (let c1 = c\<lparr>cn_connect := True\<rparr> in if own then retry_in_own_loop c1 else ([], cn_queue Retry_in_loop_task c1))"

definition connector_restart :: "bool \<Rightarrow> int \<Rightarrow> connector \<Rightarrow> connector_result" where
  "connector_restart own ans c =
     (let c1 = c\<lparr>retry_delay_ms := kInitRetryDelayMs, cn_state := Disconnected, cn_connect := True\<rparr>
      in if own then start_in_own_loop ans c1 else Inr ([], cn_queue Start_task c1))"

text \<open>The handlers of the channel. The new connection takes the socket over.\<close>

definition cn_handle_write :: "int \<Rightarrow> connector \<Rightarrow> connector_result" where
  "cn_handle_write err c =
     (if cn_state c = Connecting
      then check (connect_socket c \<noteq> None)
        (bindR (remove_and_reset_channel c) (\<lambda>c1.
         if err \<noteq> 0 then Inr ([Error_connect], (reset_socket c1)\<lparr>cn_state := Disconnected\<rparr>)
         else let c2 = c1\<lparr>cn_state := Connected\<rparr>
              in if cn_connect c2 then Inr ([New_connect (the (connect_socket c2))], c2\<lparr>connect_socket := None\<rparr>)
                 else Inr ([], reset_socket c2)))
      else check (cn_state c = Disconnected) (Inr ([], c)))"

definition cn_handle_error :: "int \<Rightarrow> connector \<Rightarrow> connector_result" where
  "cn_handle_error err c =
     (if cn_state c = Connecting
      then check (connect_socket c \<noteq> None)
        (bindR (remove_and_reset_channel c) (\<lambda>c1.
         Inr (if err \<noteq> 0 then [Error_connect] else [], (reset_socket c1)\<lparr>cn_state := Disconnected\<rparr>)))
      else Inr ([], c))"

fun cn_callbacks :: "int \<Rightarrow> channel_cb list \<Rightarrow> connector \<Rightarrow> connector_result" where
  "cn_callbacks err [] c = Inr ([], c)"
| "cn_callbacks err (cb # cbs) c =
     bindR (case cb of Error_cb \<Rightarrow> cn_handle_error err c | Write_cb \<Rightarrow> cn_handle_write err c | _ \<Rightarrow> Inr ([], c)) (\<lambda>(es, c1).
     bindR (cn_callbacks err cbs c1) (\<lambda>(es', c2). Inr (es @ es', c2)))"

definition cn_event :: "32 word \<Rightarrow> int \<Rightarrow> connector \<Rightarrow> connector_result" where
  "cn_event r err c =
     (case cn_channel c of
        None \<Rightarrow> Inr ([], c)
      | Some (ch, k) \<Rightarrow>
          if reported r ch then bindR (handle_event True (ch\<lparr>revents := r\<rparr>)) (\<lambda>cbs. cn_callbacks err cbs c) else Inr ([], c))"

section \<open>TcpClient\<close>

text \<open>\<open>connection\<close> is the connection the client holds, \<open>dying\<close> are those for which \<^verbatim>\<open>connect_destroyed\<close> is queued. \<open>hooked\<close>: the close callback of
  the connection was replaced by one that queues \<^verbatim>\<open>connect_destroyed\<close>. \<open>stopped\<close> is a ghost field: \<^verbatim>\<open>stop\<close> was called.\<close>

record tcp_client =
  cl_initilize :: bool
  cl_connect :: bool
  cl_retry :: bool
  cl_connector :: connector
  cl_next_conn_id :: int
  connection :: "tcp_connection option"
  dying :: "tcp_connection list"
  cl_write_complete_cb :: bool
  hooked :: bool
  stopped :: bool

definition new_tcp_client :: "bool \<Rightarrow> tcp_client" where
  "new_tcp_client wcb = \<lparr>cl_initilize = False, cl_connect = False, cl_retry = False, cl_connector = new_connector, cl_next_conn_id = 1, connection = None,
     dying = [], cl_write_complete_cb = wcb, hooked = False, stopped = False\<rparr>"

definition cl_initialize :: "tcp_client \<Rightarrow> tcp_client res" where
  "cl_initialize s = check (\<not> cl_initilize s) (Inr (s\<lparr>cl_initilize := True\<rparr>))"

definition make_tcp_client :: "bool \<Rightarrow> tcp_client res" where
  "make_tcp_client wcb = cl_initialize (new_tcp_client wcb)"

type_synonym client_result = "(connector_event list \<times> tcp_client) res"

text \<open>The callbacks of the connector. \<open>unique\<close>: the client holds the only pointer to the connection.\<close>

definition client_connect_destroyed :: "bool \<Rightarrow> tcp_client \<Rightarrow> tcp_client res" where
  "client_connect_destroyed unique s =
     check (cl_initilize s)
     (case connection s of
        None \<Rightarrow> Inr s
      | Some x \<Rightarrow>
          let s1 = s\<lparr>hooked := True\<rparr>
          in if unique then bindR (force_close x) (\<lambda>(_, y). Inr (s1\<lparr>connection := Some y\<rparr>)) else Inr s1)"

definition handle_retry :: "bool \<Rightarrow> tcp_client \<Rightarrow> tcp_client res" where
  "handle_retry unique s =
     check (cl_initilize s)
     (bindR (client_connect_destroyed unique s) (\<lambda>s1.
      Inr (if cl_retry s1 \<and> cl_connect s1
           then s1\<lparr>cl_connector := cn_queue Connector_retry_task (cl_connector s1)\<rparr> else s1)))"

definition client_new_connection :: "nat \<Rightarrow> tcp_client \<Rightarrow> tcp_client res" where
  "client_new_connection k s =
     (if cl_next_conn_id s = 2 ^ 31 - 1 then Inl Signed_overflow
      else bindR (make_tcp_connection (int k) (cl_write_complete_cb s) False) (\<lambda>x.
           bindR (connect_established x) (\<lambda>(_, y).
           Inr (s\<lparr>cl_next_conn_id := cl_next_conn_id s + 1, connection := Some y\<rparr>))))"

fun client_callbacks :: "bool \<Rightarrow> connector_event list \<Rightarrow> tcp_client \<Rightarrow> tcp_client res" where
  "client_callbacks unique [] s = Inr s"
| "client_callbacks unique (New_connect k # es) s = bindR (client_new_connection k s) (client_callbacks unique es)"
| "client_callbacks unique (Error_connect # es) s = bindR (handle_retry unique s) (client_callbacks unique es)"
| "client_callbacks unique (Run_after d # es) s = client_callbacks unique es s"

text \<open>A step of the connector, and what its callbacks do.\<close>

definition with_connector :: "bool \<Rightarrow> connector_result \<Rightarrow> tcp_client \<Rightarrow> client_result" where
  "with_connector unique m s =
     bindR m (\<lambda>(es, c). bindR (client_callbacks unique es (s\<lparr>cl_connector := c\<rparr>)) (\<lambda>s1. Inr (es, s1)))"

definition client_connect :: "bool \<Rightarrow> int \<Rightarrow> tcp_client \<Rightarrow> client_result" where
  "client_connect own ans s =
     check (cl_initilize s)
     (if \<not> cl_connect s
      then with_connector True (connector_start own ans (cl_connector s)) (s\<lparr>cl_connect := True\<rparr>)
      else Inr ([], s))"

definition shutdown_connection :: "bool \<Rightarrow> tcp_client \<Rightarrow> tcp_client res" where
  "shutdown_connection own s =
     (case connection s of
        None \<Rightarrow> Inr s
      | Some x \<Rightarrow> bindR (shutdown own x) (\<lambda>(_, y). Inr (s\<lparr>connection := Some y\<rparr>)))"

definition client_disconnect :: "bool \<Rightarrow> tcp_client \<Rightarrow> tcp_client res" where
  "client_disconnect own s =
     check (cl_initilize s) (if cl_connect s then shutdown_connection own (s\<lparr>cl_connect := False\<rparr>) else Inr s)"

definition client_stop :: "bool \<Rightarrow> tcp_client \<Rightarrow> tcp_client res" where
  "client_stop own s =
     check (cl_initilize s)
     (if cl_connect s
      then bindR (shutdown_connection own (s\<lparr>cl_connect := False\<rparr>)) (\<lambda>s1.
           bindR (connector_stop own (cl_connector s1)) (\<lambda>c.
           Inr (s1\<lparr>cl_connector := c, stopped := True\<rparr>)))
      else Inr s)"

definition client_remove_connection :: "int \<Rightarrow> tcp_client \<Rightarrow> client_result" where
  "client_remove_connection ans s =
     (case connection s of
        None \<Rightarrow> Inl Check_failed
      | Some x \<Rightarrow>
          let s1 = s\<lparr>connection := None, dying := dying s @ [x], cl_connector := cn_queue Conn_destroyed_task (cl_connector s)\<rparr>
          in if cl_retry s1 \<and> cl_connect s1 then with_connector True (connector_restart True ans (cl_connector s1)) s1
             else Inr ([], s1))"

text \<open>The destructor. Without a connection it stops the connector; the pointer to it that the timer of one second keeps
  delays the deletion of the connector.\<close>

definition tcp_client_destroy :: "bool \<Rightarrow> bool \<Rightarrow> tcp_client \<Rightarrow> tcp_client res" where
  "tcp_client_destroy own unique s =
     check (cl_initilize s)
     (case connection s of
        Some x \<Rightarrow> client_connect_destroyed unique s
      | None \<Rightarrow> bindR (connector_stop own (cl_connector s)) (\<lambda>c. Inr (s\<lparr>cl_connector := c\<rparr>)))"

section \<open>Steps\<close>

fun client_finish :: "int \<Rightarrow> conn_event list \<Rightarrow> tcp_client \<Rightarrow> client_result" where
  "client_finish ans [] s = Inr ([], s)"
| "client_finish ans (e # es) s =
     bindR (if e = Finish_callback then client_remove_connection ans s
            else if e = Close_callback \<and> hooked s
            then Inr ([], s\<lparr>dying := dying s @ (case connection s of None \<Rightarrow> [] | Some x \<Rightarrow> [x]),
                            cl_connector := cn_queue Conn_destroyed_task (cl_connector s)\<rparr>)
            else Inr ([], s)) (\<lambda>(out, s1).
     bindR (client_finish ans es s1) (\<lambda>(out', s2). Inr (out @ out', s2)))"

definition client_conn_act :: "conn_op \<Rightarrow> int \<Rightarrow> tcp_client \<Rightarrow> client_result" where
  "client_conn_act x ans s =
     (case connection s of
        None \<Rightarrow> Inr ([], s)
      | Some y \<Rightarrow> bindR (conn_step y x) (\<lambda>(es, z). client_finish ans es (s\<lparr>connection := Some z\<rparr>)))"

fun run_client_task :: "bool \<Rightarrow> int \<Rightarrow> connector_task \<Rightarrow> tcp_client \<Rightarrow> client_result" where
  "run_client_task dc ans Start_task s = with_connector True (start_in_own_loop ans (cl_connector s)) s"
| "run_client_task dc ans Stop_task s = with_connector True (bindR (stop_in_own_loop (cl_connector s)) (\<lambda>c. Inr ([], c))) s"
| "run_client_task dc ans Retry_in_loop_task s = with_connector True (Inr (retry_in_own_loop (cl_connector s))) s"
| "run_client_task dc ans Reset_channel_task s = with_connector True (bindR (reset_channel dc (cl_connector s)) (\<lambda>c. Inr ([], c))) s"
| "run_client_task dc ans (Cancel_task n) s = Inr ([], s\<lparr>cl_connector := cancel_timer_id n (cl_connector s)\<rparr>)"
| "run_client_task dc ans Connector_retry_task s = with_connector True (Inr (connector_retry True (cl_connector s))) s"
| "run_client_task dc ans Conn_destroyed_task s =
     (case dying s of
        [] \<Rightarrow> Inl Out_of_bounds
      | x # xs \<Rightarrow> bindR (connect_destroyed x) (\<lambda>(_, y). bindR (conn_destroy y) (\<lambda>_. Inr ([], s\<lparr>dying := xs\<rparr>))))"

datatype client_op =
    Cl_connect bool int
  | Cl_disconnect bool
  | Cl_stop bool
  | Cl_set_retry bool
  | Cl_conn conn_op int
  | Cl_task int
  | Cl_timer int
  | Cl_event "32 word" int

fun client_step :: "bool \<Rightarrow> tcp_client \<Rightarrow> client_op \<Rightarrow> client_result" where
  "client_step dc s (Cl_connect own ans) = client_connect own ans s"
| "client_step dc s (Cl_disconnect own) = bindR (client_disconnect own s) (\<lambda>s1. Inr ([], s1))"
| "client_step dc s (Cl_stop own) = bindR (client_stop own s) (\<lambda>s1. Inr ([], s1))"
| "client_step dc s (Cl_set_retry b) = Inr ([], s\<lparr>cl_retry := b\<rparr>)"
| "client_step dc s (Cl_conn x ans) = client_conn_act x ans s"
| "client_step dc s (Cl_task ans) =
     (case cn_tasks (cl_connector s) of
        [] \<Rightarrow> Inr ([], s)
      | t # ts \<Rightarrow> run_client_task dc ans t (s\<lparr>cl_connector := (cl_connector s)\<lparr>cn_tasks := ts\<rparr>\<rparr>))"
| "client_step dc s (Cl_timer ans) =
     (case timers_due (cl_connector s) of
        [] \<Rightarrow> Inr ([], s)
      | n # ns \<Rightarrow> with_connector True (start_in_own_loop ans ((cl_connector s)\<lparr>timers_due := ns\<rparr>)) s)"
| "client_step dc s (Cl_event r err) = with_connector True (cn_event r err (cl_connector s)) s"

text \<open>The use of a client: it is not connected again after it was stopped, and not stopped while a retry is queued (what goes wrong then
  is shown below). The loop gets to the tasks and events of a connection after it has run what was queued when the
  connection was established.\<close>

fun permitted :: "tcp_client \<Rightarrow> client_op \<Rightarrow> bool" where
  "permitted s (Cl_connect own ans) \<longleftrightarrow> \<not> stopped s"
| "permitted s (Cl_stop own) \<longleftrightarrow> Connector_retry_task \<notin> set (cn_tasks (cl_connector s))"
| "permitted s (Cl_conn x ans) \<longleftrightarrow> legal_conn_op x
     \<and> (stopped s \<or> Reset_channel_task \<notin> set (cn_tasks (cl_connector s))
        \<or> (case x of Op_run_task w \<Rightarrow> False | Op_event r rv w \<Rightarrow> False | _ \<Rightarrow> True))"
| "permitted s _ \<longleftrightarrow> True"

inductive client_reach :: "bool \<Rightarrow> tcp_client \<Rightarrow> bool" for dc where
  made: "make_tcp_client wcb = Inr s \<Longrightarrow> client_reach dc s"
| stepped: "client_reach dc s \<Longrightarrow> permitted s x \<Longrightarrow> client_step dc s x = Inr (es, s') \<Longrightarrow> client_reach dc s'"

section \<open>Invariant of an attempt\<close>

definition attempt_tasks :: "connector \<Rightarrow> connector_task list" where
  "attempt_tasks c = filter (\<lambda>t. case t of Conn_destroyed_task \<Rightarrow> False | Cancel_task n \<Rightarrow> False | _ \<Rightarrow> True) (cn_tasks c)"

definition registered_ch :: "channel \<Rightarrow> bool" where
  "registered_ch ch \<longleftrightarrow> status ch = kChannelPollAdded \<and> events ch = kWriteEvent
     \<and> has_error_cb ch \<and> has_write_cb ch \<and> \<not> has_read_cb ch \<and> \<not> has_close_cb ch"

definition removed_ch :: "channel \<Rightarrow> bool" where
  "removed_ch ch \<longleftrightarrow> status ch = kChannelPollInit \<and> events ch = kNoneEvent"

definition cn_base :: "connector \<Rightarrow> bool" where
  "cn_base c \<longleftrightarrow> \<not> dangling c \<and> kInitRetryDelayMs \<le> retry_delay_ms c \<and> retry_delay_ms c \<le> kMaxRetryDelayMs
     \<and> (\<forall>k \<in> set (freed c). k < next_socket c)"

definition open_socket :: "connector \<Rightarrow> bool" where
  "open_socket c \<longleftrightarrow> (\<exists>k ch. connect_socket c = Some k \<and> cn_channel c = Some (ch, k) \<and> registered_ch ch
     \<and> k \<notin> set (freed c) \<and> k < next_socket c)"

definition channel_removed :: "connector \<Rightarrow> bool" where
  "channel_removed c \<longleftrightarrow> (\<exists>ch k. cn_channel c = Some (ch, k) \<and> removed_ch ch)"

text \<open>Before \<^verbatim>\<open>stop\<close>, at most one attempt is under way: a start or a retry that is queued, a timer, or a socket in the poller; the
  channel of a finished attempt is deleted before the next one starts.\<close>

fun attempt_ok :: "connector_state \<Rightarrow> connector \<Rightarrow> bool" where
  "attempt_ok Connecting c \<longleftrightarrow> open_socket c \<and> attempt_tasks c = [] \<and> timers_due c = []"
| "attempt_ok Connected c \<longleftrightarrow> connect_socket c = None \<and> timers_due c = []
     \<and> (cn_channel c = None \<and> attempt_tasks c = [] \<or> channel_removed c \<and> attempt_tasks c = [Reset_channel_task])"
| "attempt_ok Disconnected c \<longleftrightarrow> connect_socket c = None
     \<and> (cn_channel c = None \<and> attempt_tasks c \<in> {[], [Start_task], [Connector_retry_task]} \<and> timers_due c = []
      \<or> cn_channel c = None \<and> attempt_tasks c = [] \<and> (\<exists>n. timers_due c = [n] \<and> time_id c = Some n)
      \<or> channel_removed c \<and> attempt_tasks c \<in> {[Reset_channel_task], [Reset_channel_task, Connector_retry_task]} \<and> timers_due c = [])"

definition running_ok :: "connector \<Rightarrow> bool" where
  "running_ok c \<longleftrightarrow> attempt_ok (cn_state c) c
     \<and> (\<not> cn_connect c \<longrightarrow> cn_state c = Disconnected \<and> cn_channel c = None \<and> attempt_tasks c = [] \<and> timers_due c = [])"

text \<open>After \<^verbatim>\<open>stop\<close>, what is left only goes away.\<close>

definition stopping_ok :: "connector \<Rightarrow> bool" where
  "stopping_ok c \<longleftrightarrow> \<not> cn_connect c \<and> Connector_retry_task \<notin> set (cn_tasks c) \<and> Retry_in_loop_task \<notin> set (cn_tasks c)
     \<and> (if cn_state c = Connecting then open_socket c \<and> attempt_tasks c = [Stop_task] \<and> timers_due c = []
        else connect_socket c = None \<and> (cn_channel c = None \<or> channel_removed c \<and> Reset_channel_task \<in> set (cn_tasks c)))
     \<and> (Start_task \<in> set (cn_tasks c) \<longrightarrow> cn_state c = Disconnected)
     \<and> (timers_due c \<noteq> [] \<longrightarrow> cn_state c = Disconnected \<and> (\<exists>n. timers_due c = [n] \<and> Cancel_task n \<in> set (cn_tasks c)))"

definition client_inv :: "tcp_client \<Rightarrow> bool" where
  "client_inv s \<longleftrightarrow> cl_initilize s \<and> \<not> hooked s \<and> cn_base (cl_connector s)
     \<and> length (dying s) = count_list (cn_tasks (cl_connector s)) Conn_destroyed_task
     \<and> (\<forall>x \<in> set (dying s). conn_inv x \<and> conn_state x = kDisconnected)
     \<and> (\<forall>x. connection s = Some x \<longrightarrow> conn_inv x \<and> is_open x)
     \<and> (if stopped s then \<not> cl_connect s \<and> stopping_ok (cl_connector s) \<and> (cn_state (cl_connector s) = Connecting \<longrightarrow> connection s = None)
        else running_ok (cl_connector s) \<and> (cl_connect s \<longrightarrow> cn_connect (cl_connector s))
          \<and> (connection s \<noteq> None \<longrightarrow> cn_state (cl_connector s) = Connected \<and> cn_connect (cl_connector s)))"

section \<open>Steps of the connector\<close>

lemma attempt_tasks_queue [simp]:
  "attempt_tasks (cn_queue t c) =
     attempt_tasks c @ (case t of Conn_destroyed_task \<Rightarrow> [] | Cancel_task n \<Rightarrow> [] | _ \<Rightarrow> [t])"
  by (cases t) (simp_all add: attempt_tasks_def cn_queue_def)

lemma attempt_tasks_cong: "cn_tasks c' = cn_tasks c \<Longrightarrow> attempt_tasks c' = attempt_tasks c"
  by (simp add: attempt_tasks_def)

lemma cn_queue_frame [simp]:
  "cn_connect (cn_queue t c) = cn_connect c" "cn_state (cn_queue t c) = cn_state c" "retry_delay_ms (cn_queue t c) = retry_delay_ms c"
  "time_id (cn_queue t c) = time_id c" "connect_socket (cn_queue t c) = connect_socket c" "cn_channel (cn_queue t c) = cn_channel c"
  "timers_due (cn_queue t c) = timers_due c" "next_socket (cn_queue t c) = next_socket c" "freed (cn_queue t c) = freed c"
  "dangling (cn_queue t c) = dangling c" "cn_tasks (cn_queue t c) = cn_tasks c @ [t]"
  by (simp_all add: cn_queue_def)

lemma removed_from_poller:
  "registered_ch ch \<Longrightarrow> removed_ch (removed (updated kNoneEvent ch))"
  by (simp add: registered_ch_def removed_ch_def removed_def updated_def)

lemma remove_open:
  assumes "open_socket c"
  shows "\<exists>ch k. connect_socket c = Some k \<and> removed_ch ch \<and> k \<notin> set (freed c) \<and> k < next_socket c
    \<and> remove_and_reset_channel c = Inr (cn_queue Reset_channel_task (c\<lparr>cn_channel := Some (ch, k)\<rparr>))"
proof -
  obtain k ch where k: "connect_socket c = Some k" "cn_channel c = Some (ch, k)" "registered_ch ch" "k \<notin> set (freed c)" "k < next_socket c"
    using assms by (auto simp: open_socket_def)
  then have "\<not> is_none_event ch" by (simp add: registered_ch_def is_none_event_def event_bits)
  moreover have "status (updated kNoneEvent ch) \<noteq> kChannelPollInit" "is_none_event (updated kNoneEvent ch)"
    by (simp_all add: updated_def is_none_event_def)
  ultimately have "remove_and_reset_channel c
      = Inr (cn_queue Reset_channel_task (c\<lparr>cn_channel := Some (removed (updated kNoneEvent ch), k)\<rparr>))"
    using k by (simp add: remove_and_reset_channel_def cn_channel_do_def channel_do_def)
  with k removed_from_poller show ?thesis by blast
qed

lemma remove_closed:
  assumes "cn_channel c = None \<or> channel_removed c"
  shows "remove_and_reset_channel c = Inr (cn_queue Reset_channel_task c)"
  using assms by (auto simp: remove_and_reset_channel_def channel_removed_def removed_ch_def is_none_event_def)

text \<open>Starting an attempt when none is under way.\<close>

definition idle :: "connector \<Rightarrow> bool" where
  "idle c \<longleftrightarrow> cn_state c = Disconnected \<and> connect_socket c = None \<and> cn_channel c = None \<and> attempt_tasks c = [] \<and> timers_due c = []"

lemma retry_delay_next:
  "kInitRetryDelayMs \<le> d \<Longrightarrow> d \<le> kMaxRetryDelayMs \<Longrightarrow> kInitRetryDelayMs \<le> min (d * 2) kMaxRetryDelayMs"
  by (simp add: kInitRetryDelayMs_def kMaxRetryDelayMs_def)

lemma retry_idle:
  assumes "cn_base c" and "cn_connect c" and "cn_channel c = None" and "attempt_tasks c = []" and "timers_due c = []"
    and "connect_socket c = None \<or> (\<exists>k. connect_socket c = Some k \<and> k < next_socket c)"
  shows "\<exists>d c'. retry_in_own_loop c = ([Run_after d], c') \<and> cn_base c' \<and> running_ok c' \<and> cn_connect c' \<and> cn_state c' = Disconnected
    \<and> cn_tasks c' = cn_tasks c"
  using assms retry_delay_next
  by (auto simp: retry_in_own_loop_def reset_socket_def cn_base_def running_ok_def attempt_tasks_def Let_def)

lemma start_idle:
  assumes base: "cn_base c" and idle: "idle c" and con: "cn_connect c"
  shows "\<exists>es c'. start_in_own_loop ans c = Inr (es, c') \<and> cn_base c' \<and> running_ok c' \<and> cn_connect c' \<and> cn_state c' \<noteq> Connected
    \<and> cn_tasks c' = cn_tasks c \<and> set es \<subseteq> range Run_after"
proof -
  let ?c1 = "c\<lparr>connect_socket := Some (next_socket c), next_socket := next_socket c + 1\<rparr>"
  note i = idle [unfolded idle_def]
  have start: "start_in_own_loop ans c = (if ans \<in> {0, 4, 106, 115} then bindR (in_connect ?c1) (\<lambda>c2. Inr ([], c2))
         else if ans \<in> {11, 99, 98, 101, 111} then Inr (retry_in_own_loop ?c1)
         else Inr ([], reset_socket ?c1))"
    using i con by (simp add: start_in_own_loop_def do_connect_def)
  have fresh: "next_socket c \<notin> set (freed c)" using base by (auto simp: cn_base_def)
  have base1: "cn_base ?c1" using base by (auto simp: cn_base_def)
  have tk: "attempt_tasks ?c1 = []" using i by (simp add: attempt_tasks_def)
  consider (conn) "ans \<in> {0, 4, 106, 115}" | (retry) "ans \<notin> {0, 4, 106, 115}" "ans \<in> {11, 99, 98, 101, 111}"
    | (fail) "ans \<notin> {0, 4, 106, 115}" "ans \<notin> {11, 99, 98, 101, 111}" by blast
  then show ?thesis
  proof cases
    case conn
    let ?ch = "updated kWriteEvent ((new_channel (int (next_socket c)))\<lparr>has_error_cb := True, has_write_cb := True\<rparr>)"
    let ?c2 = "?c1\<lparr>cn_state := Connecting, cn_channel := Some (?ch, next_socket c)\<rparr>"
    have "in_connect ?c1 = Inr ?c2"
      using i fresh by (simp add: in_connect_def cn_channel_do_def channel_do_def new_channel_def)
    moreover have "registered_ch ?ch" by (simp add: registered_ch_def updated_def new_channel_def poll_status_defs)
    then have "open_socket ?c2" using fresh by (simp add: open_socket_def)
    then have "running_ok ?c2" using i con by (simp add: running_ok_def attempt_tasks_def)
    moreover have "cn_base ?c2" using base1 by (simp add: cn_base_def)
    ultimately show ?thesis using start conn con by auto
  next
    case retry
    obtain d c' where "retry_in_own_loop ?c1 = ([Run_after d], c')" "cn_base c'" "running_ok c'" "cn_connect c'"
        "cn_state c' = Disconnected" "cn_tasks c' = cn_tasks c"
      using retry_idle [OF base1] i con tk by auto
    with start retry show ?thesis by (simp del: insert_iff)
  next
    case fail
    let ?c2 = "reset_socket ?c1"
    have "cn_base ?c2" "running_ok ?c2" using base i con by (auto simp: cn_base_def reset_socket_def running_ok_def attempt_tasks_def)
    moreover have "cn_connect ?c2" "cn_state ?c2 = Disconnected" "cn_tasks ?c2 = cn_tasks c" using i con by (simp_all add: reset_socket_def)
    ultimately show ?thesis using start fail by (simp del: insert_iff)
  qed
qed

text \<open>An event on the socket of an attempt ends it.\<close>

definition finished :: "connector \<Rightarrow> connector_event list \<times> connector \<Rightarrow> bool" where
  "finished c r \<longleftrightarrow> (\<exists>ch k fr st. connect_socket c = Some k \<and> removed_ch ch \<and> set fr \<subseteq> insert k (set (freed c))
     \<and> snd r = (cn_queue Reset_channel_task c)\<lparr>cn_channel := Some (ch, k), connect_socket := None, freed := fr, cn_state := st\<rparr>
     \<and> (st = Disconnected \<and> fst r \<in> {[], [Error_connect]}
        \<or> st = Connected \<and> fst r = (if cn_connect c then [New_connect k] else [])))"

lemma finishedI:
  assumes "connect_socket c = Some k" and "removed_ch ch" and "set fr \<subseteq> insert k (set (freed c))"
    and "st = Disconnected \<and> es \<in> {[], [Error_connect]} \<or> st = Connected \<and> es = (if cn_connect c then [New_connect k] else [])"
    and "c' = (cn_queue Reset_channel_task c)\<lparr>cn_channel := Some (ch, k), connect_socket := None, freed := fr, cn_state := st\<rparr>"
  shows "finished c (es, c')"
  unfolding finished_def using assms by (intro exI [of _ ch] exI [of _ k] exI [of _ fr] exI [of _ st]) simp

lemma handle_write_finished:
  assumes "open_socket c" and "cn_state c = Connecting"
  shows "\<exists>r. cn_handle_write err c = Inr r \<and> finished c r"
proof -
  obtain ch k where k: "connect_socket c = Some k" "removed_ch ch"
    "remove_and_reset_channel c = Inr (cn_queue Reset_channel_task (c\<lparr>cn_channel := Some (ch, k)\<rparr>))"
    using remove_open [OF assms(1)] by blast
  let ?c1 = "cn_queue Reset_channel_task (c\<lparr>cn_channel := Some (ch, k)\<rparr>)"
  consider (err) "err \<noteq> 0" | (new) "err = 0" "cn_connect c" | (drop) "err = 0" "\<not> cn_connect c" by blast
  then show ?thesis
  proof cases
    case err
    have "cn_handle_write err c = Inr ([Error_connect], (reset_socket ?c1)\<lparr>cn_state := Disconnected\<rparr>)"
      using err k assms(2) by (simp add: cn_handle_write_def)
    moreover have "finished c ([Error_connect], (reset_socket ?c1)\<lparr>cn_state := Disconnected\<rparr>)"
      by (rule finishedI [OF k(1,2), where fr = "k # freed c"]) (use k(1) in \<open>auto simp: reset_socket_def cn_queue_def\<close>)
    ultimately show ?thesis by blast
  next
    case new
    have "cn_handle_write err c = Inr ([New_connect k], ?c1\<lparr>cn_state := Connected, connect_socket := None\<rparr>)"
      using new k assms(2) by (simp add: cn_handle_write_def)
    moreover have "finished c ([New_connect k], ?c1\<lparr>cn_state := Connected, connect_socket := None\<rparr>)"
      by (rule finishedI [OF k(1,2), where fr = "freed c"]) (use new k(1) in \<open>auto simp: cn_queue_def\<close>)
    ultimately show ?thesis by blast
  next
    case drop
    have "cn_handle_write err c = Inr ([], reset_socket (?c1\<lparr>cn_state := Connected\<rparr>))"
      using drop k assms(2) by (simp add: cn_handle_write_def)
    moreover have "finished c ([], reset_socket (?c1\<lparr>cn_state := Connected\<rparr>))"
      by (rule finishedI [OF k(1,2), where fr = "k # freed c" and st = Connected]) (use drop k(1) in \<open>auto simp: reset_socket_def cn_queue_def\<close>)
    ultimately show ?thesis by blast
  qed
qed

lemma handle_error_finished:
  assumes "open_socket c" and "cn_state c = Connecting"
  shows "\<exists>r. cn_handle_error err c = Inr r \<and> finished c r \<and> cn_state (snd r) = Disconnected"
proof -
  obtain ch k where k: "connect_socket c = Some k" "removed_ch ch"
    "remove_and_reset_channel c = Inr (cn_queue Reset_channel_task (c\<lparr>cn_channel := Some (ch, k)\<rparr>))"
    using remove_open [OF assms(1)] by blast
  let ?c1 = "(reset_socket (cn_queue Reset_channel_task (c\<lparr>cn_channel := Some (ch, k)\<rparr>)))\<lparr>cn_state := Disconnected\<rparr>"
  have "cn_handle_error err c = Inr (if err \<noteq> 0 then [Error_connect] else [], ?c1)"
    using k assms(2) by (simp add: cn_handle_error_def)
  moreover have "finished c (if err \<noteq> 0 then [Error_connect] else [], ?c1)"
    by (rule finishedI [OF k(1,2), where fr = "k # freed c"]) (use k(1) in \<open>auto simp: reset_socket_def cn_queue_def\<close>)
  ultimately show ?thesis by auto
qed

lemma event_finished:
  assumes "open_socket c" and "cn_state c = Connecting"
  shows "\<exists>r. cn_event rv err c = Inr r \<and> (r = ([], c) \<or> finished c r)"
proof -
  obtain k ch where ch: "cn_channel c = Some (ch, k)" "registered_ch ch" using assms(1) by (auto simp: open_socket_def)
  have "\<exists>cbs. handle_event True (ch\<lparr>revents := rv\<rparr>) = Inr cbs \<and> cbs \<in> {[], [Error_cb], [Write_cb], [Error_cb, Write_cb]}"
    using ch(2) by (simp add: handle_event_def registered_ch_def)
  then obtain cbs where cbs: "handle_event True (ch\<lparr>revents := rv\<rparr>) = Inr cbs" "cbs \<in> {[], [Error_cb], [Write_cb], [Error_cb, Write_cb]}"
    by blast
  obtain rw where rw: "cn_handle_write err c = Inr rw" "finished c rw" using handle_write_finished [OF assms] by blast
  obtain re where re: "cn_handle_error err c = Inr re" "finished c re" "cn_state (snd re) = Disconnected"
    using handle_error_finished [OF assms] by blast
  have again: "cn_handle_write err (snd re) = Inr ([], snd re)" using re(3) by (simp add: cn_handle_write_def)
  have "\<exists>r. cn_callbacks err cbs c = Inr r \<and> (r = ([], c) \<or> finished c r)"
    using cbs(2) rw re again by (cases rw; cases re) auto
  with ch cbs(1) show ?thesis by (simp add: cn_event_def)
qed

section \<open>Steps of the client\<close>

abbreviation cl_tolerated :: "fault \<Rightarrow> bool" where
  "cl_tolerated f \<equiv> f \<in> {Length_error, Signed_overflow}"

abbreviation client_ok :: "client_result \<Rightarrow> bool" where
  "client_ok m \<equiv> ensures cl_tolerated (\<lambda>(es, s). client_inv s) m"

definition conns_ok :: "tcp_client \<Rightarrow> bool" where
  "conns_ok s \<longleftrightarrow> cl_initilize s \<and> \<not> hooked s
     \<and> length (dying s) = count_list (cn_tasks (cl_connector s)) Conn_destroyed_task
     \<and> (\<forall>x \<in> set (dying s). conn_inv x \<and> conn_state x = kDisconnected)
     \<and> (\<forall>x. connection s = Some x \<longrightarrow> conn_inv x \<and> is_open x)"

lemma client_inv_running:
  "\<not> stopped s \<Longrightarrow> client_inv s \<longleftrightarrow> conns_ok s \<and> cn_base (cl_connector s) \<and> running_ok (cl_connector s)
     \<and> (cl_connect s \<longrightarrow> cn_connect (cl_connector s))
     \<and> (connection s \<noteq> None \<longrightarrow> cn_state (cl_connector s) = Connected \<and> cn_connect (cl_connector s))"
  unfolding client_inv_def conns_ok_def by auto

lemma client_inv_stopped:
  "stopped s \<Longrightarrow> client_inv s \<longleftrightarrow> conns_ok s \<and> cn_base (cl_connector s) \<and> stopping_ok (cl_connector s)
     \<and> \<not> cl_connect s \<and> (cn_state (cl_connector s) = Connecting \<longrightarrow> connection s = None)"
  unfolding client_inv_def conns_ok_def by auto

lemma client_inv_parts:
  assumes "client_inv s"
  shows "conns_ok s" "cn_base (cl_connector s)" "cl_initilize s"
  using assms by (simp_all add: client_inv_def conns_ok_def)

lemma no_callbacks [simp]: "client_callbacks u [] = Inr"
  by (simp add: fun_eq_iff)

lemma quiet_callbacks: "set es \<subseteq> range Run_after \<Longrightarrow> client_callbacks u es s = Inr s"
  by (induction es) auto

lemma conns_ok_connector:
  "conns_ok s \<Longrightarrow> count_list (cn_tasks c) Conn_destroyed_task = count_list (cn_tasks (cl_connector s)) Conn_destroyed_task \<Longrightarrow>
     conns_ok (s\<lparr>cl_connector := c\<rparr>)"
  by (simp add: conns_ok_def)

text \<open>An attempt that starts from an idle connector.\<close>

lemma start_client:
  assumes "conns_ok s" and "\<not> stopped s" and "connection s = None"
    and "cn_base c" and "idle c" and "cn_connect c" and "cn_tasks c = cn_tasks (cl_connector s)"
  shows "client_ok (with_connector u (start_in_own_loop ans c) s)"
proof -
  obtain es c' where c': "start_in_own_loop ans c = Inr (es, c')" "cn_base c'" "running_ok c'" "cn_connect c'"
    "cn_tasks c' = cn_tasks c" "set es \<subseteq> range Run_after"
    using start_idle [OF assms(4-6)] by blast
  have "client_inv (s\<lparr>cl_connector := c'\<rparr>)"
    using assms c' conns_ok_connector [OF assms(1), of c'] by (simp add: client_inv_running)
  then show ?thesis using c' by (simp add: with_connector_def quiet_callbacks)
qed

lemma running_idle:
  "running_ok c \<Longrightarrow> \<not> cn_connect c \<Longrightarrow> idle c"
  by (cases "cn_state c") (auto simp: running_ok_def idle_def channel_removed_def)

lemma idle_frame [simp]: "idle (c\<lparr>cn_connect := b\<rparr>) = idle c"
  by (simp add: idle_def attempt_tasks_def)

lemma cn_base_frame [simp]:
  "cn_base (c\<lparr>cn_connect := b\<rparr>) = cn_base c" "cn_base (c\<lparr>cn_state := st\<rparr>) = cn_base c" "cn_base (c\<lparr>cn_tasks := ts\<rparr>) = cn_base c"
  "cn_base (c\<lparr>timers_due := ns\<rparr>) = cn_base c" "cn_base (cn_queue t c) = cn_base c" "cn_base (c\<lparr>cn_channel := x\<rparr>) = cn_base c"
  by (simp_all add: cn_base_def)

lemma connect_ok:
  assumes inv: "client_inv s" and st: "\<not> stopped s"
  shows "client_ok (client_connect own ans s)"
proof -
  let ?c = "cl_connector s"
  let ?s = "s\<lparr>cl_connect := True\<rparr>"
  note i = inv [unfolded client_inv_running [OF st]]
  have cs: "conns_ok ?s" using i by (simp add: conns_ok_def)
  consider (already) "cl_connect s" | (started) "\<not> cl_connect s" "cn_connect ?c" | (idle) "\<not> cl_connect s" "\<not> cn_connect ?c" by blast
  then show ?thesis
  proof cases
    case already
    then show ?thesis using inv client_inv_parts(3) [OF inv] by (simp add: client_connect_def)
  next
    case started
    have "client_inv ?s" using i st cs started by (simp add: client_inv_running)
    then show ?thesis using started client_inv_parts(3) [OF inv]
      by (simp add: client_connect_def connector_start_def with_connector_def)
  next
    case idle
    then have ii: "idle ?c" using running_idle i by blast
    have none: "connection ?s = None" using idle i by auto
    show ?thesis
    proof (cases own)
      case True
      have "client_ok (with_connector True (start_in_own_loop ans (?c\<lparr>cn_connect := True\<rparr>)) ?s)"
        by (rule start_client [OF cs]) (use st none ii i in simp_all)
      with True idle show ?thesis using client_inv_parts(3) [OF inv] by (simp add: client_connect_def connector_start_def)
    next
      case False
      let ?c' = "cn_queue Start_task (?c\<lparr>cn_connect := True\<rparr>)"
      have "running_ok ?c'" using ii by (simp add: running_ok_def idle_def attempt_tasks_def)
      then have "client_inv (?s\<lparr>cl_connector := ?c'\<rparr>)"
        using st none i cs conns_ok_connector [OF cs, of ?c'] by (simp add: client_inv_running)
      with False idle show ?thesis using client_inv_parts(3) [OF inv]
        by (simp add: client_connect_def connector_start_def with_connector_def)
    qed
  qed
qed

lemma shutdown_open:
  assumes "conn_inv x" and "is_open x"
  shows "\<exists>es y. shutdown own x = Inr (es, y) \<and> conn_inv y \<and> is_open y"
proof -
  have leg: "legal_conn_op (Op_shutdown own)" by simp
  have ini: "initilize x" using assms(1) by (simp add: conn_inv_def conn_base_def)
  have "\<exists>es y. shutdown own x = Inr (es, y) \<and> is_open y"
    using ini assms(2) by (auto simp: shutdown_def is_open_def queue_task_def shutdown_in_loop_def Let_def)
  then obtain es y where y: "shutdown own x = Inr (es, y)" "is_open y" by blast
  moreover have "conn_inv y" using ensures_value [OF conn_step_good [OF assms(1) leg]] y(1) by (auto simp: good_def)
  ultimately show ?thesis by blast
qed

lemma shutdown_connection_ok:
  assumes "conns_ok s"
  shows "\<exists>z. shutdown_connection own s = Inr (s\<lparr>connection := z\<rparr>) \<and> conns_ok (s\<lparr>connection := z\<rparr>) \<and> (z = None \<longleftrightarrow> connection s = None)"
proof (cases "connection s")
  case None
  then show ?thesis using assms by (intro exI [of _ None]) (simp add: shutdown_connection_def conns_ok_def)
next
  case (Some x)
  then obtain es y where y: "shutdown own x = Inr (es, y)" "conn_inv y" "is_open y"
    using shutdown_open assms by (fastforce simp: conns_ok_def)
  then show ?thesis using assms Some by (intro exI [of _ "Some y"]) (simp add: shutdown_connection_def conns_ok_def)
qed

lemma disconnect_ok:
  assumes inv: "client_inv s"
  shows "client_ok (bindR (client_disconnect own s) (\<lambda>s1. Inr ([], s1)))"
proof (cases "cl_connect s")
  case True
  then have st: "\<not> stopped s" using inv by (auto simp: client_inv_def)
  have "conns_ok (s\<lparr>cl_connect := False\<rparr>)" using client_inv_parts(1) [OF inv] by (simp add: conns_ok_def)
  then obtain z where z: "shutdown_connection own (s\<lparr>cl_connect := False\<rparr>) = Inr (s\<lparr>cl_connect := False, connection := z\<rparr>)"
    "conns_ok (s\<lparr>cl_connect := False, connection := z\<rparr>)" "z = None \<longleftrightarrow> connection s = None"
    using shutdown_connection_ok by fastforce
  then have "client_inv (s\<lparr>cl_connect := False, connection := z\<rparr>)" using inv st by (simp add: client_inv_running)
  with z(1) True client_inv_parts(3) [OF inv] show ?thesis by (simp add: client_disconnect_def)
qed (use inv client_inv_parts(3) [OF inv] in \<open>simp add: client_disconnect_def\<close>)

lemma attempt_mem:
  "Start_task \<in> set (cn_tasks c) \<longleftrightarrow> Start_task \<in> set (attempt_tasks c)"
  "Stop_task \<in> set (cn_tasks c) \<longleftrightarrow> Stop_task \<in> set (attempt_tasks c)"
  "Reset_channel_task \<in> set (cn_tasks c) \<longleftrightarrow> Reset_channel_task \<in> set (attempt_tasks c)"
  "Connector_retry_task \<in> set (cn_tasks c) \<longleftrightarrow> Connector_retry_task \<in> set (attempt_tasks c)"
  "Retry_in_loop_task \<in> set (cn_tasks c) \<longleftrightarrow> Retry_in_loop_task \<in> set (attempt_tasks c)"
  by (auto simp: attempt_tasks_def)

lemma running_tasks:
  assumes "running_ok c"
  shows "Retry_in_loop_task \<notin> set (cn_tasks c)" and "Start_task \<in> set (cn_tasks c) \<Longrightarrow> cn_state c = Disconnected"
    and "timers_due c \<noteq> [] \<Longrightarrow> cn_state c = Disconnected \<and> (\<exists>n. timers_due c = [n] \<and> time_id c = Some n)"
    and "cn_state c \<noteq> Connecting \<Longrightarrow> connect_socket c = None \<and> (cn_channel c = None \<or> channel_removed c)"
    and "cn_state c = Connecting \<Longrightarrow> open_socket c \<and> attempt_tasks c = [] \<and> timers_due c = []"
  using assms by (cases "cn_state c"; force simp: running_ok_def attempt_mem)+

lemma stop_in_loop_ok:
  assumes run: "running_ok c" and base: "cn_base c" and noretry: "Connector_retry_task \<notin> set (cn_tasks c)"
  shows "\<exists>c'. stop_in_own_loop (c\<lparr>cn_connect := False\<rparr>) = Inr c' \<and> cn_base c' \<and> \<not> cn_connect c' \<and> cn_state c' = Disconnected
    \<and> connect_socket c' = None \<and> (cn_channel c' = None \<or> channel_removed c') \<and> cn_tasks c' = cn_tasks c @ [Reset_channel_task]
    \<and> timers_due c' = timers_due c \<and> time_id c' = time_id c"
proof (cases "cn_state c = Connecting")
  case True
  let ?c1 = "c\<lparr>cn_connect := False, cn_state := Disconnected\<rparr>"
  have "open_socket ?c1" using running_tasks(5) [OF run True] by (simp add: open_socket_def)
  then obtain ch k where k: "connect_socket c = Some k" "removed_ch ch" "k < next_socket c"
    "remove_and_reset_channel ?c1 = Inr (cn_queue Reset_channel_task (?c1\<lparr>cn_channel := Some (ch, k)\<rparr>))"
    using remove_open [of ?c1] by auto
  then show ?thesis using base by (simp add: stop_in_own_loop_def reset_socket_def channel_removed_def cn_base_def)
next
  case False
  let ?c1 = "c\<lparr>cn_connect := False, cn_state := Disconnected\<rparr>"
  have cl: "connect_socket c = None" "cn_channel ?c1 = None \<or> channel_removed ?c1"
    using running_tasks(4) [OF run False] by (simp_all add: channel_removed_def)
  then show ?thesis using base remove_closed [OF cl(2)] by (simp add: stop_in_own_loop_def reset_socket_def channel_removed_def)
qed

lemma connector_stop_ok:
  assumes run: "running_ok c" and base: "cn_base c" and con: "cn_connect c"
    and noretry: "Connector_retry_task \<notin> set (cn_tasks c)"
  shows "\<exists>c'. connector_stop own c = Inr c' \<and> cn_base c' \<and> stopping_ok c' \<and> (cn_state c' = Connecting \<longrightarrow> cn_state c = Connecting)
    \<and> count_list (cn_tasks c') Conn_destroyed_task = count_list (cn_tasks c) Conn_destroyed_task"
proof (cases own)
  case True
  obtain c1 where c1: "stop_in_own_loop (c\<lparr>cn_connect := False\<rparr>) = Inr c1" "cn_base c1" "\<not> cn_connect c1" "cn_state c1 = Disconnected"
    "connect_socket c1 = None" "cn_channel c1 = None \<or> channel_removed c1" "cn_tasks c1 = cn_tasks c @ [Reset_channel_task]"
    "timers_due c1 = timers_due c" "time_id c1 = time_id c"
    using stop_in_loop_ok [OF run base noretry] by blast
  define c' where "c' = (case time_id c1 of None \<Rightarrow> c1 | Some n \<Rightarrow> cancel_timer_id n c1)"
  have "connector_stop own c = Inr c'" using True con c1(1) by (simp add: connector_stop_def c'_def cong: option.case_cong)
  moreover have due: "timers_due c' = []"
    using running_tasks(3) [OF run] c1(8,9)
    by (cases "timers_due c = []") (auto simp: c'_def cancel_timer_id_def split: option.splits)
  moreover have fr: "cn_connect c' = cn_connect c1" "cn_state c' = cn_state c1" "connect_socket c' = connect_socket c1"
    "cn_channel c' = cn_channel c1" "cn_tasks c' = cn_tasks c1" "cn_base c' = cn_base c1"
    by (simp_all add: c'_def cancel_timer_id_def split: option.split)
  moreover have "stopping_ok c'"
    using c1 fr due noretry running_tasks(1,2) [OF run] by (auto simp: stopping_ok_def channel_removed_def)
  ultimately show ?thesis using c1 by simp
next
  case False
  let ?c1 = "cn_queue Stop_task (c\<lparr>cn_connect := False\<rparr>)"
  define c' where "c' = (case time_id ?c1 of None \<Rightarrow> ?c1 | Some n \<Rightarrow> cn_queue (Cancel_task n) ?c1)"
  have "connector_stop own c = Inr c'" using False con by (simp add: connector_stop_def c'_def Let_def split: option.split)
  moreover have fr: "cn_connect c' = False" "cn_state c' = cn_state c" "connect_socket c' = connect_socket c"
    "cn_channel c' = cn_channel c" "timers_due c' = timers_due c" "cn_base c' = cn_base c" "freed c' = freed c" "next_socket c' = next_socket c"
    "attempt_tasks c' = attempt_tasks c @ [Stop_task]"
    by (simp_all add: c'_def attempt_tasks_def split: option.split)
  moreover have tk: "set (cn_tasks c') = set (cn_tasks c) \<union> {Stop_task} \<union> (case time_id c of None \<Rightarrow> {} | Some n \<Rightarrow> {Cancel_task n})"
    by (auto simp: c'_def split: option.split)
  moreover have "stopping_ok c'"
  proof -
    have "Reset_channel_task \<in> set (cn_tasks c)" if "cn_state c \<noteq> Connecting" "cn_channel c \<noteq> None"
      using run that by (cases "cn_state c") (auto simp: running_ok_def attempt_mem)
    then have "if cn_state c' = Connecting then open_socket c' \<and> attempt_tasks c' = [Stop_task] \<and> timers_due c' = []
        else connect_socket c' = None \<and> (cn_channel c' = None \<or> channel_removed c' \<and> Reset_channel_task \<in> set (cn_tasks c'))"
      using fr tk running_tasks(4,5) [OF run] by (auto simp: open_socket_def channel_removed_def)
    moreover have "timers_due c' \<noteq> [] \<longrightarrow> cn_state c' = Disconnected \<and> (\<exists>n. timers_due c' = [n] \<and> Cancel_task n \<in> set (cn_tasks c'))"
      using fr tk running_tasks(3) [OF run] by auto
    moreover have "Connector_retry_task \<notin> set (cn_tasks c')" "Retry_in_loop_task \<notin> set (cn_tasks c')"
      "Start_task \<in> set (cn_tasks c') \<Longrightarrow> Start_task \<in> set (cn_tasks c)"
      using tk noretry running_tasks(1) [OF run] by (auto split: option.splits)
    moreover have "Start_task \<in> set (cn_tasks c') \<longrightarrow> cn_state c' = Disconnected"
      using calculation(5) running_tasks(2) [OF run] fr(2) by simp
    ultimately show ?thesis unfolding stopping_ok_def using fr(1) by (intro conjI) simp_all
  qed
  moreover have "count_list (cn_tasks c') Conn_destroyed_task = count_list (cn_tasks c) Conn_destroyed_task"
    by (simp add: c'_def split: option.split)
  ultimately show ?thesis using base by simp
qed

lemma stop_ok:
  assumes inv: "client_inv s" and noretry: "Connector_retry_task \<notin> set (cn_tasks (cl_connector s))"
  shows "client_ok (bindR (client_stop own s) (\<lambda>s1. Inr ([], s1)))"
proof (cases "cl_connect s")
  case True
  then have st: "\<not> stopped s" using inv by (auto simp: client_inv_def)
  note i = inv [unfolded client_inv_running [OF st]]
  have "conns_ok (s\<lparr>cl_connect := False\<rparr>)" using i by (simp add: conns_ok_def)
  then obtain z where z: "shutdown_connection own (s\<lparr>cl_connect := False\<rparr>) = Inr (s\<lparr>cl_connect := False, connection := z\<rparr>)"
    "conns_ok (s\<lparr>cl_connect := False, connection := z\<rparr>)" "z = None \<longleftrightarrow> connection s = None"
    using shutdown_connection_ok by fastforce
  obtain c' where c': "connector_stop own (cl_connector s) = Inr c'" "cn_base c'" "stopping_ok c'"
    "cn_state c' = Connecting \<longrightarrow> cn_state (cl_connector s) = Connecting"
    "count_list (cn_tasks c') Conn_destroyed_task = count_list (cn_tasks (cl_connector s)) Conn_destroyed_task"
    using connector_stop_ok [of "cl_connector s"] i True noretry by blast
  let ?s' = "s\<lparr>cl_connect := False, connection := z, cl_connector := c', stopped := True\<rparr>"
  have "conns_ok ?s'" using z(2) c'(5) by (simp add: conns_ok_def)
  then have "client_inv ?s'" using c' z(3) i by (auto simp: client_inv_stopped)
  then show ?thesis using True z(1) c'(1) client_inv_parts(3) [OF inv] by (simp add: client_stop_def)
qed (use inv client_inv_parts(3) [OF inv] in \<open>simp add: client_stop_def\<close>)

text \<open>Only a task or an event closes a connection.\<close>

lemma closing_ops:
  assumes "conn_inv y" and "is_open y" and "legal_conn_op x" and "conn_step y x = Inr (es, z)" and "conn_state z = kDisconnected"
  shows "\<not> (case x of Op_run_task w \<Rightarrow> False | Op_event r rv w \<Rightarrow> False | _ \<Rightarrow> True)"
proof
  assume other: "case x of Op_run_task w \<Rightarrow> False | Op_event r rv w \<Rightarrow> False | _ \<Rightarrow> True"
  have "count_list es Finish_callback = 0"
    using other assms(4)
    by (cases x) (auto simp: shutdown_def shutdown_in_loop_def force_close_def force_close_with_delay_def Let_def split: if_splits)
  moreover have "closed y + count_list es Finish_callback = closed z"
    using ensures_value [OF conn_step_good [OF assms(1,3)] assms(4)] by (simp add: good_def)
  ultimately show False using assms(2,5) by (auto simp: closed_def is_open_def split: if_splits)
qed

text \<open>Events of the connection. When it is finished, the client drops it and may start over.\<close>

lemma finish_none:
  "count_list es Finish_callback = 0 \<Longrightarrow> \<not> hooked s \<Longrightarrow> client_finish ans es s = Inr ([], s)"
  by (induction es) (auto split: if_splits)

lemma finish_once:
  assumes "count_list es Finish_callback = 1" and "\<not> hooked s"
    and "client_ok (client_remove_connection ans s)"
  shows "client_ok (client_finish ans es s)"
  using assms(1)
proof (induction es)
  case (Cons e es)
  show ?case
  proof (cases "e = Finish_callback")
    case True
    with Cons.prems have no: "count_list es Finish_callback = 0" by simp
    have "client_ok (bindR (client_remove_connection ans s) (\<lambda>(out, s1).
        bindR (client_finish ans es s1) (\<lambda>(out', s2). Inr (out @ out', s2))))"
    proof (rule ensures_bindR [OF assms(3)])
      fix z :: "connector_event list \<times> tcp_client"
      assume z: "case z of (es, s) \<Rightarrow> client_inv s"
      then have "\<not> hooked (snd z)" by (cases z) (auto simp: client_inv_def)
      with z no show "client_ok (case z of (out, s1) \<Rightarrow> bindR (client_finish ans es s1) (\<lambda>(out', s2). Inr (out @ out', s2)))"
        by (cases z) (simp add: finish_none)
    qed
    with True show ?thesis by simp
  next
    case False
    with Cons have "client_ok (client_finish ans es s)" by simp
    then have "client_ok (bindR (client_finish ans es s) (\<lambda>(out', s2). Inr (out', s2)))" by simp
    with False assms(2) show ?thesis by simp
  qed
qed simp

lemma remove_connection_ok:
  assumes inv: "client_inv s" and x: "connection s = Some y" and z: "conn_inv z" "conn_state z = kDisconnected"
    and reset: "stopped s \<or> Reset_channel_task \<notin> set (cn_tasks (cl_connector s))"
  shows "client_ok (client_remove_connection ans (s\<lparr>connection := Some z\<rparr>))"
proof -
  let ?c = "cn_queue Conn_destroyed_task (cl_connector s)"
  let ?s1 = "s\<lparr>connection := None, dying := dying s @ [z], cl_connector := ?c\<rparr>"
  have cs: "conns_ok ?s1" using client_inv_parts(1) [OF inv] z by (auto simp: conns_ok_def)
  have rm: "client_remove_connection ans (s\<lparr>connection := Some z\<rparr>)
      = (if cl_retry s \<and> cl_connect s then with_connector True (connector_restart True ans ?c) ?s1 else Inr ([], ?s1))"
    by (simp add: client_remove_connection_def Let_def)
  show ?thesis
  proof (cases "stopped s")
    case True
    note i = inv [unfolded client_inv_stopped [OF True]]
    have "stopping_ok ?c" using i by (auto simp: stopping_ok_def open_socket_def channel_removed_def)
    then have "client_inv ?s1" using True i cs by (simp add: client_inv_stopped)
    with rm i show ?thesis by simp
  next
    case False
    note i = inv [unfolded client_inv_running [OF False]]
    have st: "cn_state (cl_connector s) = Connected" "cn_connect (cl_connector s)" using i x by auto
    have run: "running_ok ?c" using i st by (auto simp: running_ok_def channel_removed_def)
    show ?thesis
    proof (cases "cl_retry s \<and> cl_connect s")
      case True
      let ?c1 = "?c\<lparr>retry_delay_ms := kInitRetryDelayMs, cn_state := Disconnected, cn_connect := True\<rparr>"
      have "attempt_ok Connected (cl_connector s)" using i st by (simp add: running_ok_def)
      then have "connect_socket ?c1 = None \<and> timers_due ?c1 = [] \<and> cn_channel ?c1 = None \<and> attempt_tasks (cl_connector s) = []"
        using reset False by (auto simp: attempt_mem)
      moreover have "attempt_tasks ?c1 = attempt_tasks (cl_connector s)" by (simp add: attempt_tasks_def)
      ultimately have "idle ?c1" by (simp add: idle_def)
      moreover have "cn_base ?c1" using i by (simp add: cn_base_def kInitRetryDelayMs_def kMaxRetryDelayMs_def)
      ultimately have "client_ok (with_connector True (start_in_own_loop ans ?c1) ?s1)"
        by (intro start_client [OF cs]) (use False in simp_all)
      with rm True show ?thesis by (simp add: connector_restart_def Let_def)
    next
      case no: False
      have "client_inv ?s1" using False i st run cs by (simp add: client_inv_running)
      with rm no show ?thesis by simp
    qed
  qed
qed

lemma conn_act_client_ok:
  assumes inv: "client_inv s" and perm: "permitted s (Cl_conn x ans)"
  shows "client_ok (client_conn_act x ans s)"
proof (cases "connection s")
  case None
  then show ?thesis using inv by (simp add: client_conn_act_def)
next
  case (Some y)
  have y: "conn_inv y" "is_open y" "\<not> hooked s" using client_inv_parts(1) [OF inv] Some by (simp_all add: conns_ok_def)
  have leg: "legal_conn_op x" using perm by simp
  show ?thesis
  proof (cases "conn_step y x")
    case (Inl f)
    with conn_step_good [OF y(1) leg] Some show ?thesis by (simp add: client_conn_act_def)
  next
    case (Inr r)
    obtain es z where r: "r = (es, z)" by (cases r)
    have g: "conn_inv z" "closed y + count_list es Finish_callback = closed z"
      using ensures_value [OF conn_step_good [OF y(1) leg] Inr [unfolded r]] by (simp_all add: good_def)
    have act: "client_conn_act x ans s = client_finish ans es (s\<lparr>connection := Some z\<rparr>)"
      using Some Inr r by (simp add: client_conn_act_def)
    have stz: "is_open z \<or> conn_state z = kDisconnected"
      using conn_invD [OF g(1)] by (cases "conn_state z") (simp_all add: is_open_def conn_base_def)
    show ?thesis
    proof (cases "is_open z")
      case True
      then have "count_list es Finish_callback = 0" using g(2) by (auto simp: closed_def is_open_def split: if_splits)
      moreover have "conns_ok (s\<lparr>connection := Some z\<rparr>)" using client_inv_parts(1) [OF inv] g(1) True by (simp add: conns_ok_def)
      then have "client_inv (s\<lparr>connection := Some z\<rparr>)"
        using inv Some by (cases "stopped s") (auto simp: client_inv_stopped client_inv_running)
      ultimately show ?thesis using act y(3) by (simp add: finish_none)
    next
      case False
      then have dis: "conn_state z = kDisconnected" using stz by blast
      then have one: "count_list es Finish_callback = 1" using g(2) y(2) by (auto simp: closed_def is_open_def split: if_splits)
      have "stopped s \<or> Reset_channel_task \<notin> set (cn_tasks (cl_connector s))"
        using perm closing_ops [OF y(1,2) leg Inr [unfolded r] dis] by auto
      then have "client_ok (client_remove_connection ans (s\<lparr>connection := Some z\<rparr>))"
        by (rule remove_connection_ok [OF inv Some g(1) dis])
      then show ?thesis using act finish_once [OF one, of "s\<lparr>connection := Some z\<rparr>"] y(3) by simp
    qed
  qed
qed

text \<open>The timer of a retry, and events of the socket of an attempt.\<close>

lemma timer_ok:
  assumes inv: "client_inv s" and due: "timers_due (cl_connector s) = n # ns"
  shows "client_ok (with_connector True (start_in_own_loop ans ((cl_connector s)\<lparr>timers_due := ns\<rparr>)) s)"
proof (cases "stopped s")
  case True
  note i = inv [unfolded client_inv_stopped [OF True]]
  let ?c = "(cl_connector s)\<lparr>timers_due := ns\<rparr>"
  have c: "cn_state ?c = Disconnected" "\<not> cn_connect ?c" "ns = []" using i due by (auto simp: stopping_ok_def)
  then have "stopping_ok ?c" using i by (auto simp: stopping_ok_def channel_removed_def)
  then have "client_inv (s\<lparr>cl_connector := ?c\<rparr>)" using True i c conns_ok_connector [of s ?c] by (simp add: client_inv_stopped)
  with c show ?thesis by (simp add: start_in_own_loop_def with_connector_def)
next
  case False
  note i = inv [unfolded client_inv_running [OF False]]
  let ?c = "(cl_connector s)\<lparr>timers_due := ns\<rparr>"
  have run: "running_ok (cl_connector s)" using i by blast
  have st: "cn_state (cl_connector s) = Disconnected" "ns = []" using running_tasks(3) [OF run] due by auto
  have "attempt_ok Disconnected (cl_connector s)" using run st by (simp add: running_ok_def)
  then have "idle ?c" using st due by (auto simp: idle_def attempt_tasks_def)
  moreover have "cn_connect ?c" using run due by (auto simp: running_ok_def)
  moreover have "connection s = None" using i st by auto
  ultimately show ?thesis using i False by (intro start_client) simp_all
qed

lemma finished_frame:
  assumes "finished c (es, c')" and "cn_base c" and "open_socket c"
  shows "cn_base c'" and "cn_tasks c' = cn_tasks c @ [Reset_channel_task]" and "channel_removed c'" and "connect_socket c' = None"
    and "timers_due c' = timers_due c" and "cn_connect c' = cn_connect c" and "attempt_tasks c' = attempt_tasks c @ [Reset_channel_task]"
    and "cn_state c' = Disconnected \<and> es \<in> {[], [Error_connect]}
      \<or> cn_state c' = Connected \<and> (if cn_connect c then \<exists>k. es = [New_connect k] else es = [])"
proof -
  obtain ch k fr st where f: "connect_socket c = Some k" "removed_ch ch" "set fr \<subseteq> insert k (set (freed c))"
    "c' = (cn_queue Reset_channel_task c)\<lparr>cn_channel := Some (ch, k), connect_socket := None, freed := fr, cn_state := st\<rparr>"
    "st = Disconnected \<and> es \<in> {[], [Error_connect]} \<or> st = Connected \<and> es = (if cn_connect c then [New_connect k] else [])"
    using assms(1) by (auto simp: finished_def)
  have "k < next_socket c" using assms(3) f(1) by (auto simp: open_socket_def)
  then show "cn_base c'" using assms(2) f(3,4) by (auto simp: cn_base_def)
  show "cn_tasks c' = cn_tasks c @ [Reset_channel_task]" "channel_removed c'" "connect_socket c' = None" "timers_due c' = timers_due c"
    "cn_connect c' = cn_connect c" "attempt_tasks c' = attempt_tasks c @ [Reset_channel_task]"
    using f(2,4) by (simp_all add: channel_removed_def attempt_tasks_def)
  show "cn_state c' = Disconnected \<and> es \<in> {[], [Error_connect]}
      \<or> cn_state c' = Connected \<and> (if cn_connect c then \<exists>k. es = [New_connect k] else es = [])"
    using f(4,5) by auto
qed

lemma handle_retry_eq:
  assumes "cl_initilize s" and "connection s = None"
  shows "handle_retry u s = Inr (if cl_retry s \<and> cl_connect s
      then s\<lparr>cl_connector := cn_queue Connector_retry_task (cl_connector s)\<rparr> else s)"
  using assms by (simp add: handle_retry_def client_connect_destroyed_def)

lemma new_connection_client:
  assumes "conns_ok s"
  shows "ensures cl_tolerated (\<lambda>s1. \<exists>i y. s1 = s\<lparr>cl_next_conn_id := i, connection := Some y\<rparr> \<and> conns_ok s1) (client_new_connection k s)"
proof -
  obtain y where y: "established (int k) (cl_write_complete_cb s) False = Inr ([Connect_callback], y)" using established_ok by blast
  then obtain x where x: "make_tcp_connection (int k) (cl_write_complete_cb s) False = Inr x" "connect_established x = Inr ([Connect_callback], y)"
    by (auto simp: established_def)
  have "conn_inv y" "is_open y" using established_inv [OF y] by (simp_all add: is_open_def)
  then show ?thesis using x assms by (auto simp: client_new_connection_def conns_ok_def)
qed

lemma event_ok:
  assumes inv: "client_inv s"
  shows "client_ok (with_connector True (cn_event r err (cl_connector s)) s)"
proof (cases "cn_state (cl_connector s) = Connecting")
  case False
  have "cn_channel (cl_connector s) = None \<or> channel_removed (cl_connector s)"
    using inv False running_tasks(4) by (cases "stopped s") (auto simp: client_inv_stopped client_inv_running stopping_ok_def)
  then have "cn_event r err (cl_connector s) = Inr ([], cl_connector s)"
    by (auto simp: cn_event_def channel_removed_def removed_ch_def reported_def poll_status_defs)
  then show ?thesis using inv by (simp add: with_connector_def)
next
  case conn: True
  let ?c = "cl_connector s"
  have op: "open_socket ?c" "timers_due ?c = []" "connection s = None"
    using inv conn running_tasks(5) by (cases "stopped s"; auto simp: client_inv_stopped client_inv_running stopping_ok_def)+
  note base = client_inv_parts(1,2) [OF inv]
  obtain es c' where ev: "cn_event r err ?c = Inr (es, c')" "(es, c') = ([], ?c) \<or> finished ?c (es, c')"
    using event_finished [OF op(1) conn, of r err] by fastforce
  show ?thesis
  proof (cases "finished ?c (es, c')")
    case False
    then show ?thesis using ev inv by (auto simp: with_connector_def)
  next
    case fin: True
    note f = finished_frame [OF fin base(2) op(1)]
    let ?s1 = "s\<lparr>cl_connector := c'\<rparr>"
    have cs: "conns_ok ?s1" using conns_ok_connector [OF base(1), of c'] f(2) by simp
    show ?thesis
    proof (cases "stopped s")
      case True
      note i = inv [unfolded client_inv_stopped [OF True]]
      have "attempt_tasks c' = [Stop_task, Reset_channel_task]" using i conn f(7) by (simp add: stopping_ok_def)
      then have "Start_task \<notin> set (cn_tasks c')" by (simp add: attempt_mem)
      moreover have "cn_state c' \<noteq> Connecting" using f(8) by auto
      ultimately have "stopping_ok c'" using i f(2-6) op(2) by (simp add: stopping_ok_def)
      then have inv1: "client_inv ?s1" using True i f cs by (auto simp: client_inv_stopped)
      have "\<not> cn_connect ?c" using i by (simp add: stopping_ok_def)
      then have "es \<in> {[], [Error_connect]}" using f(8) by auto
      moreover have "handle_retry True ?s1 = Inr ?s1" using handle_retry_eq [of ?s1] i cs op(3) by (simp add: conns_ok_def)
      ultimately show ?thesis using ev(1) inv1 by (auto simp: with_connector_def)
    next
      case False
      note i = inv [unfolded client_inv_running [OF False]]
      have tk: "attempt_tasks ?c = []" using running_tasks(5) i conn by blast
      have con: "cn_connect ?c" using i conn by (auto simp: running_ok_def)
      consider (lost) "es = []" "cn_state c' = Disconnected" | (err) "es = [Error_connect]" "cn_state c' = Disconnected"
        | (new) k where "es = [New_connect k]" "cn_state c' = Connected" using f(8) con by auto
      then show ?thesis
      proof cases
        case lost
        then have "running_ok c'" using f tk con op(2) by (simp add: running_ok_def)
        then have "client_inv ?s1" using False i cs f con op(3) lost by (simp add: client_inv_running)
        then show ?thesis using ev(1) lost by (simp add: with_connector_def)
      next
        case err
        let ?c2 = "if cl_retry s \<and> cl_connect s then cn_queue Connector_retry_task c' else c'"
        have "running_ok ?c2" using err f tk con op(2) by (auto simp: running_ok_def channel_removed_def)
        moreover have "conns_ok (s\<lparr>cl_connector := ?c2\<rparr>)" using conns_ok_connector [OF base(1), of ?c2] f(2) by simp
        ultimately have "client_inv (s\<lparr>cl_connector := ?c2\<rparr>)" using False i f con op(3) by (simp add: client_inv_running)
        moreover have "handle_retry True ?s1 = Inr (s\<lparr>cl_connector := ?c2\<rparr>)"
          using handle_retry_eq [of ?s1] op(3) cs by (simp add: conns_ok_def)
        ultimately show ?thesis using ev(1) err by (simp add: with_connector_def)
      next
        case new
        have run: "running_ok c'" using new f tk con op(2) by (simp add: running_ok_def)
        have "ensures cl_tolerated client_inv (client_new_connection k ?s1)"
          by (rule ensures_mono [OF new_connection_client [OF cs]])
             (use False i run f con new in \<open>auto simp: client_inv_running\<close>)
        then have "client_ok (bindR (bindR (client_new_connection k ?s1) Inr) (\<lambda>s1. Inr (es, s1)))"
          by (intro ensures_bindR [where P = client_inv]) simp_all
        then show ?thesis using ev(1) new by (simp add: with_connector_def)
      qed
    qed
  qed
qed

lemma stopping_stop:
  assumes "stopping_ok c" and "cn_base c"
  shows "\<exists>c'. stop_in_own_loop (c\<lparr>cn_tasks := ts\<rparr>) = Inr c' \<and> cn_base c' \<and> \<not> cn_connect c' \<and> cn_state c' = Disconnected
    \<and> connect_socket c' = None \<and> (cn_channel c' = None \<or> channel_removed c') \<and> cn_tasks c' = ts @ [Reset_channel_task]
    \<and> timers_due c' = timers_due c"
proof -
  let ?c1 = "c\<lparr>cn_tasks := ts, cn_state := Disconnected\<rparr>"
  have con: "\<not> cn_connect c" using assms(1) by (simp add: stopping_ok_def)
  show ?thesis
  proof (cases "cn_state c = Connecting")
    case True
    have "open_socket ?c1" using assms(1) True by (simp add: stopping_ok_def open_socket_def)
    then obtain ch k where k: "connect_socket c = Some k" "removed_ch ch" "k < next_socket c"
      "remove_and_reset_channel ?c1 = Inr (cn_queue Reset_channel_task (?c1\<lparr>cn_channel := Some (ch, k)\<rparr>))"
      using remove_open [of ?c1] by auto
    then show ?thesis using con assms(2) by (simp add: stop_in_own_loop_def reset_socket_def channel_removed_def cn_base_def)
  next
    case False
    have cl: "connect_socket c = None" "cn_channel ?c1 = None \<or> channel_removed ?c1"
      using assms(1) False by (auto simp: stopping_ok_def channel_removed_def)
    then show ?thesis
      using con assms(2) remove_closed [OF cl(2)] by (simp add: stop_in_own_loop_def reset_socket_def channel_removed_def)
  qed
qed

text \<open>The queue of the loop.\<close>

lemma attempt_tasks_pop:
  "cn_tasks c = t # ts \<Longrightarrow> t \<in> {Start_task, Stop_task, Retry_in_loop_task, Reset_channel_task, Connector_retry_task} \<Longrightarrow>
     attempt_tasks c = t # attempt_tasks (c\<lparr>cn_tasks := ts\<rparr>)"
  by (auto simp: attempt_tasks_def)

lemma reset_channel_removed:
  "cn_channel c = None \<or> channel_removed c \<Longrightarrow>
     reset_channel False c = Inr (c\<lparr>cn_channel := None\<rparr>)"
  by (auto simp: reset_channel_def channel_removed_def removed_ch_def)

lemma running_queued:
  assumes run: "running_ok c" and t: "cn_tasks c = t # ts" and rel: "attempt_tasks c = t # attempt_tasks (c\<lparr>cn_tasks := ts\<rparr>)"
  shows "t = Start_task \<and> idle (c\<lparr>cn_tasks := ts\<rparr>) \<and> cn_connect c
    \<or> t = Connector_retry_task \<and> idle (c\<lparr>cn_tasks := ts\<rparr>) \<and> cn_connect c
    \<or> t = Reset_channel_task \<and> channel_removed c \<and> connect_socket c = None \<and> timers_due c = [] \<and> cn_connect c
      \<and> (cn_state c = Connected \<and> attempt_tasks (c\<lparr>cn_tasks := ts\<rparr>) = []
         \<or> cn_state c = Disconnected \<and> attempt_tasks (c\<lparr>cn_tasks := ts\<rparr>) \<in> {[], [Connector_retry_task]})"
proof (cases "cn_state c")
  case Disconnected
  with run rel show ?thesis by (auto simp: running_ok_def idle_def)
next
  case Connecting
  with run rel show ?thesis by (simp add: running_ok_def)
next
  case Connected
  with run rel show ?thesis by (auto simp: running_ok_def)
qed

lemma running_task_ok:
  assumes inv: "client_inv s" and st: "\<not> stopped s" and t: "cn_tasks (cl_connector s) = t # ts"
    and rel: "t \<in> {Start_task, Stop_task, Retry_in_loop_task, Reset_channel_task, Connector_retry_task}"
  shows "client_ok (run_client_task False ans t (s\<lparr>cl_connector := (cl_connector s)\<lparr>cn_tasks := ts\<rparr>\<rparr>))"
proof -
  let ?c = "cl_connector s"
  let ?pop = "?c\<lparr>cn_tasks := ts\<rparr>"
  let ?spop = "s\<lparr>cl_connector := ?pop\<rparr>"
  note i = inv [unfolded client_inv_running [OF st]]
  have cs: "conns_ok ?spop" using i t rel by (auto simp: conns_ok_def)
  have tk: "attempt_tasks ?c = t # attempt_tasks ?pop" by (rule attempt_tasks_pop [OF t rel])
  have none: "connection s = None" if "cn_state ?c = Disconnected" using i that by auto
  consider (start) "t = Start_task" "idle ?pop" "cn_connect ?c" | (retry) "t = Connector_retry_task" "idle ?pop" "cn_connect ?c"
    | (reset) "t = Reset_channel_task" "channel_removed ?c" "connect_socket ?c = None" "timers_due ?c = []" "cn_connect ?c"
        "cn_state ?c = Connected \<and> attempt_tasks ?pop = []
         \<or> cn_state ?c = Disconnected \<and> attempt_tasks ?pop \<in> {[], [Connector_retry_task]}"
    using running_queued [OF _ t tk] i by argo
  then show ?thesis
  proof cases
    case start
    have "connection ?spop = None" using none start(2) by (simp add: idle_def)
    then have "client_ok (with_connector True (start_in_own_loop ans ?pop) ?spop)"
      using cs st i start by (intro start_client) simp_all
    then show ?thesis using start(1) by simp
  next
    case retry
    have d: "connection s = None" using none retry(2) by (simp add: idle_def)
    have same: "?pop\<lparr>cn_connect := True\<rparr> = ?pop" using retry(3) by simp
    obtain d c' where c': "retry_in_own_loop ?pop = ([Run_after d], c')" "cn_base c'" "running_ok c'" "cn_connect c'" "cn_tasks c' = ts"
      using retry_idle [of ?pop] retry i by (auto simp: idle_def)
    have "client_inv (s\<lparr>cl_connector := c'\<rparr>)"
      using st i c' d conns_ok_connector [OF cs, of c'] by (simp add: client_inv_running)
    then show ?thesis using retry(1) c'(1) same by (simp add: with_connector_def connector_retry_def)
  next
    case reset
    let ?c1 = "?pop\<lparr>cn_channel := None\<rparr>"
    have "reset_channel False ?pop = Inr ?c1" using reset_channel_removed [of ?pop] reset(2) by (simp add: channel_removed_def)
    moreover have "attempt_tasks ?c1 = attempt_tasks ?pop" by (simp add: attempt_tasks_def)
    then have "running_ok ?c1" using reset by (auto simp: running_ok_def)
    then have "client_inv (s\<lparr>cl_connector := ?c1\<rparr>)"
      using st i reset(5) conns_ok_connector [OF cs, of ?c1] by (simp add: client_inv_running)
    ultimately show ?thesis using reset(1) by (simp add: with_connector_def)
  qed
qed

lemma stopping_task_ok:
  assumes inv: "client_inv s" and st: "stopped s" and t: "cn_tasks (cl_connector s) = t # ts"
    and rel: "t \<in> {Start_task, Stop_task, Retry_in_loop_task, Reset_channel_task, Connector_retry_task}"
  shows "client_ok (run_client_task False ans t (s\<lparr>cl_connector := (cl_connector s)\<lparr>cn_tasks := ts\<rparr>\<rparr>))"
proof -
  let ?c = "cl_connector s"
  let ?pop = "?c\<lparr>cn_tasks := ts\<rparr>"
  let ?spop = "s\<lparr>cl_connector := ?pop\<rparr>"
  note i = inv [unfolded client_inv_stopped [OF st]]
  have stop: "stopping_ok ?c" using i by blast
  have cs: "conns_ok ?spop" using i t rel by (auto simp: conns_ok_def)
  have ext: "client_inv (s\<lparr>cl_connector := c'\<rparr>)" if "stopping_ok c'" "cn_base c'" "cn_state c' \<noteq> Connecting"
      "count_list (cn_tasks c') Conn_destroyed_task = count_list ts Conn_destroyed_task" for c'
    using st i that conns_ok_connector [OF cs, of c'] by (simp add: client_inv_stopped)
  have tk: "attempt_tasks ?c = t # attempt_tasks ?pop" by (rule attempt_tasks_pop [OF t rel])
  have due: "timers_due ?c = [] \<or> (\<exists>n. timers_due ?c = [n] \<and> Cancel_task n \<in> set ts)" using stop t rel by (auto simp: stopping_ok_def)
  have nr: "\<not> cn_connect ?c" "Connector_retry_task \<notin> set ts" "Retry_in_loop_task \<notin> set ts"
    "t \<noteq> Connector_retry_task" "t \<noteq> Retry_in_loop_task" using stop t by (auto simp: stopping_ok_def)
  consider (start) "t = Start_task" | (stop) "t = Stop_task" | (reset) "t = Reset_channel_task"
    using nr(4,5) rel by blast
  then show ?thesis
  proof cases
    case start
    have d: "cn_state ?c = Disconnected" using stop start t by (auto simp: stopping_ok_def)
    then have "stopping_ok ?pop" using stop start t due by (auto simp: stopping_ok_def channel_removed_def)
    then have "client_inv ?spop" using ext [of ?pop] i d by simp
    then show ?thesis using start d nr(1) by (simp add: with_connector_def start_in_own_loop_def)
  next
    case reset
    have d: "cn_state ?c \<noteq> Connecting" using stop tk reset by (auto simp: stopping_ok_def)
    then have cl: "connect_socket ?c = None" "cn_channel ?pop = None \<or> channel_removed ?pop"
      using stop by (auto simp: stopping_ok_def channel_removed_def)
    let ?c1 = "?pop\<lparr>cn_channel := None\<rparr>"
    have "reset_channel False ?pop = Inr ?c1" using reset_channel_removed [OF cl(2)] by simp
    moreover have "stopping_ok ?c1" using stop reset t d cl(1) due by (auto simp: stopping_ok_def)
    then have "client_inv (s\<lparr>cl_connector := ?c1\<rparr>)" using ext [of ?c1] i d by simp
    ultimately show ?thesis using reset by (simp add: with_connector_def)
  next
    case stop': stop
    obtain c' where c': "stop_in_own_loop ?pop = Inr c'" "cn_base c'" "\<not> cn_connect c'" "cn_state c' = Disconnected"
      "connect_socket c' = None" "cn_channel c' = None \<or> channel_removed c'" "cn_tasks c' = ts @ [Reset_channel_task]" "timers_due c' = timers_due ?c"
      using stopping_stop [OF stop] i nr(1) by auto
    have "stopping_ok c'" using c' nr due by (auto simp: stopping_ok_def)
    then have "client_inv (s\<lparr>cl_connector := c'\<rparr>)" using ext [of c'] c' by simp
    then show ?thesis using stop' c'(1) by (simp add: with_connector_def)
  qed
qed

lemma destroyed_task_ok:
  assumes inv: "client_inv s" and t: "cn_tasks (cl_connector s) = Conn_destroyed_task # ts"
  shows "client_ok (run_client_task dc ans Conn_destroyed_task (s\<lparr>cl_connector := (cl_connector s)\<lparr>cn_tasks := ts\<rparr>\<rparr>))"
proof -
  let ?pop = "(cl_connector s)\<lparr>cn_tasks := ts\<rparr>"
  have cs: "conns_ok s" by (rule client_inv_parts(1) [OF inv])
  then obtain x xs where d: "dying s = x # xs" using t by (cases "dying s") (auto simp: conns_ok_def)
  have "conn_base x" "conn_state x = kDisconnected" using cs d by (auto simp: conns_ok_def dest: conn_invD)
  then obtain y where y: "connect_destroyed x = Inr ([], y)" "conn_destroy y = Inr ()" using destroyed_ok(2) [of x] by auto
  let ?s1 = "s\<lparr>cl_connector := ?pop, dying := xs\<rparr>"
  have "conns_ok ?s1" using cs d t by (auto simp: conns_ok_def)
  moreover have tk: "attempt_tasks ?pop = attempt_tasks (cl_connector s)" using t by (simp add: attempt_tasks_def)
  have "attempt_ok st ?pop = attempt_ok st (cl_connector s)" for st
    using tk by (cases st) (simp_all add: open_socket_def channel_removed_def)
  then have "running_ok ?pop = running_ok (cl_connector s)" using tk by (simp add: running_ok_def)
  moreover have "stopping_ok ?pop = stopping_ok (cl_connector s)"
    using t tk by (simp add: stopping_ok_def open_socket_def channel_removed_def)
  ultimately have "client_inv ?s1"
    using inv by (cases "stopped s") (simp_all add: client_inv_stopped client_inv_running)
  then show ?thesis using d y by simp
qed

lemma cancel_task_ok:
  assumes inv: "client_inv s" and t: "cn_tasks (cl_connector s) = Cancel_task n # ts"
  shows "client_ok (run_client_task dc ans (Cancel_task n) (s\<lparr>cl_connector := (cl_connector s)\<lparr>cn_tasks := ts\<rparr>\<rparr>))"
proof -
  let ?c = "cl_connector s"
  let ?d = "cancel_timer_id n (?c\<lparr>cn_tasks := ts\<rparr>)"
  have tk: "attempt_tasks ?d = attempt_tasks ?c" using t by (simp add: attempt_tasks_def cancel_timer_id_def)
  have fr: "cn_state ?d = cn_state ?c" "cn_connect ?d = cn_connect ?c" "connect_socket ?d = connect_socket ?c" "cn_channel ?d = cn_channel ?c"
    "time_id ?d = time_id ?c" "cn_base ?d = cn_base ?c" "open_socket ?d = open_socket ?c" "channel_removed ?d = channel_removed ?c" "cn_tasks ?d = ts"
    "timers_due ?d = filter (\<lambda>m. m \<noteq> n) (timers_due ?c)"
    by (simp_all add: cancel_timer_id_def open_socket_def channel_removed_def)
  have cs: "conns_ok (s\<lparr>cl_connector := ?d\<rparr>)" using conns_ok_connector [OF client_inv_parts(1) [OF inv], of ?d] t fr by simp
  have "client_inv (s\<lparr>cl_connector := ?d\<rparr>)"
  proof (cases "stopped s")
    case True
    note i = inv [unfolded client_inv_stopped [OF True]]
    have due: "filter (\<lambda>m. m \<noteq> n) (timers_due ?c) \<noteq> [] \<longrightarrow>
        cn_state ?c = Disconnected \<and> (\<exists>m. filter (\<lambda>m. m \<noteq> n) (timers_due ?c) = [m] \<and> Cancel_task m \<in> set ts)"
      using i t by (auto simp: stopping_ok_def)
    have parts: "\<not> cn_connect ?c" "Connector_retry_task \<notin> set ts" "Retry_in_loop_task \<notin> set ts"
      "Start_task \<in> set ts \<longrightarrow> cn_state ?c = Disconnected"
      using i t by (auto simp: stopping_ok_def)
    have "if cn_state ?c = Connecting then open_socket ?c \<and> attempt_tasks ?c = [Stop_task] \<and> timers_due ?c = []
        else connect_socket ?c = None \<and> (cn_channel ?c = None \<or> channel_removed ?c \<and> Reset_channel_task \<in> set ts)"
      using i t by (cases "cn_state ?c = Connecting") (auto simp: stopping_ok_def)
    then have "if cn_state ?c = Connecting then open_socket ?c \<and> attempt_tasks ?c = [Stop_task] \<and> filter (\<lambda>m. m \<noteq> n) (timers_due ?c) = []
        else connect_socket ?c = None \<and> (cn_channel ?c = None \<or> channel_removed ?c \<and> Reset_channel_task \<in> set ts)"
      by (cases "cn_state ?c = Connecting") simp_all
    with parts due have "stopping_ok ?d" unfolding stopping_ok_def fr tk by (intro conjI)
    then show ?thesis using True i cs fr by (simp add: client_inv_stopped)
  next
    case False
    note i = inv [unfolded client_inv_running [OF False]]
    have "attempt_ok (cn_state ?c) ?c" using i by (simp add: running_ok_def)
    then have "attempt_ok (cn_state ?c) ?d" using fr tk by (cases "cn_state ?c") auto
    then have "running_ok ?d" using i fr tk by (simp add: running_ok_def)
    then show ?thesis using False i cs fr by (simp add: client_inv_running)
  qed
  then show ?thesis by simp
qed

lemma client_step_ok:
  assumes inv: "client_inv s" and perm: "permitted s x"
  shows "client_ok (client_step False s x)"
proof (cases x)
  case (Cl_connect own ans)
  then show ?thesis using connect_ok [OF inv] perm by simp
next
  case (Cl_disconnect own)
  then show ?thesis using disconnect_ok [OF inv] by simp
next
  case (Cl_stop own)
  then show ?thesis using stop_ok [OF inv] perm by simp
next
  case (Cl_set_retry b)
  have "conns_ok (s\<lparr>cl_retry := b\<rparr>) = conns_ok s" by (simp add: conns_ok_def)
  then have "client_inv (s\<lparr>cl_retry := b\<rparr>)"
    using inv by (cases "stopped s") (simp_all add: client_inv_stopped client_inv_running)
  then show ?thesis using Cl_set_retry by simp
next
  case (Cl_conn op ans)
  then show ?thesis using conn_act_client_ok [OF inv] perm by simp
next
  case (Cl_task ans)
  show ?thesis
  proof (cases "cn_tasks (cl_connector s)")
    case (Cons t ts)
    consider "t = Conn_destroyed_task" | n where "t = Cancel_task n"
      | "t \<in> {Start_task, Stop_task, Retry_in_loop_task, Reset_channel_task, Connector_retry_task}" by (cases t) auto
    then have "client_ok (run_client_task False ans t (s\<lparr>cl_connector := (cl_connector s)\<lparr>cn_tasks := ts\<rparr>\<rparr>))"
      using destroyed_task_ok [OF inv] cancel_task_ok [OF inv] running_task_ok [OF inv _ Cons] stopping_task_ok [OF inv _ Cons] Cons
      by cases blast+
    then show ?thesis using Cl_task Cons by simp
  qed (use Cl_task inv in simp)
next
  case (Cl_timer ans)
  then show ?thesis using timer_ok [OF inv] inv by (simp split: list.split)
next
  case (Cl_event r err)
  then show ?thesis using event_ok [OF inv] by simp
qed

lemma made_inv: "make_tcp_client wcb = Inr s \<Longrightarrow> client_inv s"
  by (auto simp: make_tcp_client_def cl_initialize_def new_tcp_client_def new_connector_def client_inv_def cn_base_def running_ok_def
      attempt_tasks_def kInitRetryDelayMs_def kMaxRetryDelayMs_def)

lemma client_reach_inv: "client_reach False s \<Longrightarrow> client_inv s"
proof (induction rule: client_reach.induct)
  case (made wcb s)
  then show ?case by (rule made_inv)
next
  case (stepped s x es s')
  then show ?case using client_step_ok [of s x] by simp
qed

section \<open>Properties\<close>

definition attempts :: "tcp_client \<Rightarrow> nat" where
  "attempts s = length (filter (\<lambda>t. t \<in> {Start_task, Connector_retry_task}) (cn_tasks (cl_connector s)))
     + length (timers_due (cl_connector s)) + (if connect_socket (cl_connector s) = None then 0 else 1)
     + (if connection s = None then 0 else 1)"

lemma start_or_retry: "filter (\<lambda>t. t \<in> {Start_task, Connector_retry_task}) (cn_tasks c)
    = filter (\<lambda>t. t \<in> {Start_task, Connector_retry_task}) (attempt_tasks c)"
  by (auto simp: attempt_tasks_def intro: filter_cong)

lemma running_attempts:
  assumes inv: "client_inv s" and st: "\<not> stopped s"
  shows "attempts s \<le> 1"
proof -
  note i = inv [unfolded client_inv_running [OF st]]
  have run: "attempt_ok (cn_state (cl_connector s)) (cl_connector s)" using i by (simp add: running_ok_def)
  then show ?thesis
    using i unfolding attempts_def start_or_retry
    by (cases "cn_state (cl_connector s)") auto
qed


lemmas client_eval = make_tcp_client_def cl_initialize_def new_tcp_client_def new_connector_def client_connect_def connector_start_def
  start_in_own_loop_def do_connect_def in_connect_def cn_channel_do_def channel_do_def with_connector_def


lemma finish_stopped:
  "client_finish ans es s = Inr (out, s') \<Longrightarrow> \<not> cl_connect s \<Longrightarrow>
     connect_socket (cl_connector s') = connect_socket (cl_connector s) \<and> \<not> cl_connect s'"
proof (induction es arbitrary: s out)
  case (Cons e es)
  from Cons.prems(1) obtain out1 s1 out2 where s1: "client_finish ans es s1 = Inr (out2, s')"
    "(if e = Finish_callback then client_remove_connection ans s
      else if e = Close_callback \<and> hooked s
      then Inr ([], s\<lparr>dying := dying s @ (case connection s of None \<Rightarrow> [] | Some x \<Rightarrow> [x]),
                      cl_connector := cn_queue Conn_destroyed_task (cl_connector s)\<rparr>)
      else Inr ([], s)) = Inr (out1, s1)"
    by (auto split: prod.splits)
  have "connect_socket (cl_connector s1) = connect_socket (cl_connector s) \<and> \<not> cl_connect s1"
    using s1(2) Cons.prems(2) by (auto simp: client_remove_connection_def Let_def split: if_splits option.splits)
  with Cons.IH [OF s1(1)] show ?case by simp
qed simp



text \<open>C40: A failed attempt reads a deleted socket. In a build that keeps its checks, after any attempt that the system starts and that then
  fails, the queued \<^verbatim>\<open>reset_channel\<close> destroys a channel whose socket is deleted already, and the destructor looks the descriptor up through the
  pointer to it. A build without these checks goes on.\<close>

theorem failed_attempt_reads_freed:
  assumes "cn_state c = Disconnected" and "cn_connect c" and "connect_socket c = None" and "cn_channel c = None"
    and "next_socket c \<notin> set (freed c)" and "err \<noteq> 0"
  shows "\<exists>c1 c2. start_in_own_loop 115 c = Inr ([], c1) \<and> cn_handle_write err c1 = Inr ([Error_connect], c2)
    \<and> reset_channel True c2 = Inl Out_of_bounds \<and> reset_channel False c2 = Inr (c2\<lparr>cn_channel := None\<rparr>)"
proof -
  let ?ch = "updated kWriteEvent ((new_channel (int (next_socket c)))\<lparr>has_error_cb := True, has_write_cb := True\<rparr>)"
  define c1 where "c1 = c\<lparr>connect_socket := Some (next_socket c), next_socket := next_socket c + 1, cn_state := Connecting,
    cn_channel := Some (?ch, next_socket c)\<rparr>"
  have reg: "registered_ch ?ch" by (simp add: registered_ch_def updated_def new_channel_def poll_status_defs)
  have start: "start_in_own_loop 115 c = Inr ([], c1)"
    using assms by (simp add: client_eval c1_def new_channel_def)
  have some: "\<not> is_none_event ?ch" using reg by (simp add: registered_ch_def is_none_event_def event_bits)
  let ?d = "removed (updated kNoneEvent ?ch)"
  have d: "status ?d = kChannelPollInit" "\<not> added_to_loop ?d" "\<not> handling_event ?d"
    by (simp_all add: removed_def updated_def new_channel_def)
  have "status (updated kNoneEvent ?ch) \<noteq> kChannelPollInit" "is_none_event (updated kNoneEvent ?ch)"
    by (simp_all add: updated_def is_none_event_def)
  then have rm: "remove_and_reset_channel c1 = Inr (cn_queue Reset_channel_task (c1\<lparr>cn_channel := Some (?d, next_socket c)\<rparr>))"
    using assms(5) some by (simp add: remove_and_reset_channel_def cn_channel_do_def channel_do_def c1_def)
  define c2 where "c2 = (reset_socket (cn_queue Reset_channel_task (c1\<lparr>cn_channel := Some (?d, next_socket c)\<rparr>)))\<lparr>cn_state := Disconnected\<rparr>"
  have hw: "cn_handle_write err c1 = Inr ([Error_connect], c2)"
    using rm assms(6) by (simp add: cn_handle_write_def c2_def c1_def)
  have ch: "cn_channel c2 = Some (?d, next_socket c)" "next_socket c \<in> set (freed c2)"
    by (simp_all add: c2_def c1_def reset_socket_def)
  have "reset_channel True c2 = Inl Out_of_bounds" using ch d by (simp add: reset_channel_def)
  moreover have "reset_channel False c2 = Inr (c2\<lparr>cn_channel := None\<rparr>)" using ch d by (simp add: reset_channel_def)
  ultimately show ?thesis using start hw by blast
qed

theorem failed_attempt_reads_freed_witness:
  "\<exists>c1 c2. start_in_own_loop 115 (new_connector\<lparr>cn_connect := True\<rparr>) = Inr ([], c1)
     \<and> cn_handle_write 111 c1 = Inr ([Error_connect], c2) \<and> reset_channel True c2 = Inl Out_of_bounds"
  using failed_attempt_reads_freed [of "new_connector\<lparr>cn_connect := True\<rparr>" 111] by (auto simp: new_connector_def)

section \<open>What goes wrong otherwise\<close>

text \<open>Stopping and starting again in the thread of the loop while the socket connects: the channel of the stopped attempt is still there.\<close>

lemma stop_start_aborts:
  assumes "running_ok c" and "cn_base c" and "cn_state c = Connecting" and "cn_tasks c = []"
  shows "bindR (connector_stop True c) (connector_start True 115) = Inl Check_failed"
proof -
  have op: "open_socket c" and due: "timers_due c = []" using running_tasks(5) [OF assms(1,3)] by simp_all
  have con: "cn_connect c" using assms(1,3) by (auto simp: running_ok_def)
  let ?c1 = "c\<lparr>cn_connect := False, cn_state := Disconnected\<rparr>"
  have "open_socket ?c1" using op by (simp add: open_socket_def)
  then obtain ch k where k: "connect_socket c = Some k"
    "remove_and_reset_channel ?c1 = Inr (cn_queue Reset_channel_task (?c1\<lparr>cn_channel := Some (ch, k)\<rparr>))"
    using remove_open [of ?c1] by auto
  have "connector_stop True c = Inr (case time_id c of
      None \<Rightarrow> reset_socket (cn_queue Reset_channel_task (?c1\<lparr>cn_channel := Some (ch, k)\<rparr>))
    | Some n \<Rightarrow> cancel_timer_id n (reset_socket (cn_queue Reset_channel_task (?c1\<lparr>cn_channel := Some (ch, k)\<rparr>))))"
    using con k by (simp add: connector_stop_def stop_in_own_loop_def reset_socket_def split: option.split)
  then show ?thesis
    using k(1) by (cases "time_id c") (simp_all add: client_eval reset_socket_def cancel_timer_id_def check_def)
qed

text \<open>A retry that is queued when the client is stopped connects again.\<close>

lemma retry_after_stop:
  "\<exists>c'. connector_retry True c = ([Run_after (retry_delay_ms c)], c') \<and> cn_connect c'"
  by (auto simp: connector_retry_def retry_in_own_loop_def reset_socket_def Let_def split: option.split)

text \<open>After \<^verbatim>\<open>disconnect\<close> the connector still counts as started, and \<^verbatim>\<open>connect\<close> does nothing.\<close>

lemma reconnect_ignored:
  assumes "client_inv s" and "\<not> stopped s" and "connection s = Some x" and "cl_connect s"
    and "client_disconnect own s = Inr s1" and "client_connect own' ans s1 = Inr (es, s2)"
  shows "es = [] \<and> cl_connector s2 = cl_connector s"
proof -
  have con: "cn_connect (cl_connector s)" using assms(1-3) by (simp add: client_inv_running)
  have "cl_connector s1 = cl_connector s" "\<not> cl_connect s1"
    using assms(3-5) by (auto simp: client_disconnect_def shutdown_connection_def)
  with con assms(6) show ?thesis by (auto simp: client_connect_def connector_start_def with_connector_def)
qed

end
