(* ===== verification/Blocking_Queue.thy ===== *)
theory Blocking_Queue
  imports Annety_Prelude
begin

text \<open>
  The blocking queues (include/synchronization/BlockingQueue.h, both traits) and the latch
  (include/synchronization/CountDownLatch.h, src/CountDownLatch.cc) under any schedule of their threads.

  The code between two waits runs under the lock and is one step. A thread in \<^verbatim>\<open>wait\<close> of a condition variable is asleep; \<^verbatim>\<open>signal\<close>
  wakes one of the sleeping threads, if there is any, and a wake-up may come without a signal; a woken thread evaluates its
  loop condition again when it gets the lock. \<open>i\<close> is the choice of the system among the sleeping threads. The ghost fields \<open>pushed\<close> and \<open>popped\<close> are the
  elements that went in and out.
\<close>

section \<open>The queue\<close>

text \<open>\<open>bounded\<close> tells \<^verbatim>\<open>BoundedBlockingTrait\<close> from \<^verbatim>\<open>UnBoundedBlockingTrait\<close>; \<open>bq_max\<close> is \<^verbatim>\<open>max_size_\<close> of the one and \<^verbatim>\<open>queue_.max_size()\<close> of the other.\<close>

record 'a blocking_queue =
  bounded :: bool
  bq_max :: nat
  bq_queue :: "'a list"
  pop_asleep :: nat
  pop_woken :: nat
  push_asleep :: "'a list"
  push_woken :: "'a list"
  pushed :: "'a list"
  popped :: "'a list"

definition new_blocking_queue :: "bool \<Rightarrow> nat \<Rightarrow> 'a blocking_queue" where
  "new_blocking_queue b m = \<lparr>bounded = b, bq_max = m, bq_queue = [], pop_asleep = 0, pop_woken = 0, push_asleep = [], push_woken = [],
     pushed = [], popped = []\<rparr>"

definition size_with_locked :: "'a blocking_queue \<Rightarrow> nat" where
  "size_with_locked q = length (bq_queue q)"

definition empty_with_locked :: "'a blocking_queue \<Rightarrow> bool" where
  "empty_with_locked q \<longleftrightarrow> bq_queue q = []"

definition full_with_locked :: "'a blocking_queue \<Rightarrow> bool" where
  "full_with_locked q \<longleftrightarrow> length (bq_queue q) \<ge> bq_max q"

definition capacity_with_locked :: "'a blocking_queue \<Rightarrow> nat" where
  "capacity_with_locked q = size_sub (bq_max q) (length (bq_queue q))"

definition signal_empty :: "'a blocking_queue \<Rightarrow> 'a blocking_queue" where
  "signal_empty q = (if pop_asleep q = 0 then q else q\<lparr>pop_asleep := pop_asleep q - 1, pop_woken := pop_woken q + 1\<rparr>)"

definition signal_full :: "nat \<Rightarrow> 'a blocking_queue \<Rightarrow> 'a blocking_queue" where
  "signal_full i q =
     (let n = length (push_asleep q) in
      if n = 0 then q
      else q\<lparr>push_asleep := remove_nth (i mod n) (push_asleep q), push_woken := push_woken q @ [push_asleep q ! (i mod n)]\<rparr>)"

text \<open>\<^verbatim>\<open>push\<close> and \<^verbatim>\<open>pop\<close> from the acquired lock to the end or to the next wait.\<close>

definition push_locked :: "'a \<Rightarrow> 'a blocking_queue \<Rightarrow> 'a blocking_queue res" where
  "push_locked x q =
     (if bounded q \<and> full_with_locked q then Inr (q\<lparr>push_asleep := push_asleep q @ [x]\<rparr>)
      else check (bounded q \<longrightarrow> \<not> full_with_locked q)
        (Inr (signal_empty (q\<lparr>bq_queue := bq_queue q @ [x], pushed := pushed q @ [x]\<rparr>))))"

definition pop_locked :: "nat \<Rightarrow> 'a blocking_queue \<Rightarrow> ('a option \<times> 'a blocking_queue) res" where
  "pop_locked i q =
     (case bq_queue q of
        [] \<Rightarrow> Inr (None, q\<lparr>pop_asleep := pop_asleep q + 1\<rparr>)
      | x # xs \<Rightarrow>
          check (\<not> empty_with_locked q)
          (let q1 = q\<lparr>bq_queue := xs, popped := popped q @ [x]\<rparr>
           in Inr (Some x, if bounded q then signal_full i q1 else q1)))"

section \<open>Steps\<close>

datatype 'a bq_op =
    Push 'a
  | Push_again nat
  | Pop nat
  | Pop_again nat
  | Wake_pop
  | Wake_push nat

fun bq_step :: "'a blocking_queue \<Rightarrow> 'a bq_op \<Rightarrow> ('a option \<times> 'a blocking_queue) res" where
  "bq_step q (Push x) = bindR (push_locked x q) (\<lambda>q1. Inr (None, q1))"
| "bq_step q (Push_again k) =
     (if k < length (push_woken q)
      then bindR (push_locked (push_woken q ! k) (q\<lparr>push_woken := remove_nth k (push_woken q)\<rparr>)) (\<lambda>q1. Inr (None, q1))
      else Inr (None, q))"
| "bq_step q (Pop i) = pop_locked i q"
| "bq_step q (Pop_again i) =
     (if pop_woken q > 0 then pop_locked i (q\<lparr>pop_woken := pop_woken q - 1\<rparr>) else Inr (None, q))"
| "bq_step q Wake_pop = Inr (None, signal_empty q)"
| "bq_step q (Wake_push i) = Inr (None, signal_full i q)"

text \<open>While consumers sleep, each element has a woken consumer to take it; while producers sleep, each free place has a woken producer.\<close>

definition bq_inv :: "'a blocking_queue \<Rightarrow> bool" where
  "bq_inv q \<longleftrightarrow> popped q @ bq_queue q = pushed q \<and> (bounded q \<longrightarrow> length (bq_queue q) \<le> bq_max q)
     \<and> (pop_asleep q > 0 \<longrightarrow> length (bq_queue q) \<le> pop_woken q)
     \<and> (push_asleep q \<noteq> [] \<longrightarrow> bounded q \<and> bq_max q \<le> length (bq_queue q) + length (push_woken q))"

lemma push_locked_inv:
  assumes "popped q @ bq_queue q = pushed q" and "bounded q \<longrightarrow> length (bq_queue q) \<le> bq_max q"
    and "pop_asleep q > 0 \<longrightarrow> length (bq_queue q) \<le> pop_woken q"
    and "push_asleep q \<noteq> [] \<longrightarrow> bounded q \<and> bq_max q \<le> length (bq_queue q) + length (push_woken q) + 1"
  shows "\<exists>q'. push_locked x q = Inr q' \<and> bq_inv q'"
  using assms by (auto simp: push_locked_def full_with_locked_def signal_empty_def bq_inv_def)

lemma pop_locked_inv:
  assumes "popped q @ bq_queue q = pushed q" and "bounded q \<longrightarrow> length (bq_queue q) \<le> bq_max q"
    and "pop_asleep q > 0 \<longrightarrow> length (bq_queue q) \<le> pop_woken q + 1"
    and "push_asleep q \<noteq> [] \<longrightarrow> bounded q \<and> bq_max q \<le> length (bq_queue q) + length (push_woken q)"
  shows "\<exists>r q'. pop_locked i q = Inr (r, q') \<and> bq_inv q'"
proof (cases "bq_queue q")
  case Nil
  with assms show ?thesis by (simp add: pop_locked_def bq_inv_def)
next
  case (Cons x xs)
  have "i mod length (push_asleep q) < length (push_asleep q)" if "push_asleep q \<noteq> []" using that by simp
  with Cons assms show ?thesis
    by (cases "push_asleep q = []") (auto simp: pop_locked_def bq_inv_def signal_full_def empty_with_locked_def Let_def)
qed

lemma bq_step_inv:
  assumes inv: "bq_inv q"
  shows "\<exists>r q'. bq_step q x = Inr (r, q') \<and> bq_inv q'"
proof (cases x)
  case (Push y)
  then show ?thesis using push_locked_inv [of q y] inv by (fastforce simp: bq_inv_def)
next
  case (Push_again k)
  show ?thesis
  proof (cases "k < length (push_woken q)")
    case True
    then show ?thesis
      using push_locked_inv [of "q\<lparr>push_woken := remove_nth k (push_woken q)\<rparr>" "push_woken q ! k"] inv Push_again
      by (fastforce simp: bq_inv_def)
  qed (use inv Push_again in simp)
next
  case (Pop i)
  then show ?thesis using pop_locked_inv [of q i] inv by (auto simp: bq_inv_def)
next
  case (Pop_again i)
  then show ?thesis
    using pop_locked_inv [of "q\<lparr>pop_woken := pop_woken q - 1\<rparr>" i] inv by (cases "pop_woken q > 0") (auto simp: bq_inv_def)
next
  case Wake_pop
  then show ?thesis using inv by (auto simp: signal_empty_def bq_inv_def)
next
  case (Wake_push i)
  have "i mod length (push_asleep q) < length (push_asleep q)" if "push_asleep q \<noteq> []" using that by simp
  with Wake_push inv show ?thesis by (cases "push_asleep q = []") (auto simp: signal_full_def bq_inv_def Let_def)
qed

interpretation bq: step_invariant bq_inv bq_step "\<lambda>_. True" "\<lambda>_. False"
proof
  fix q :: "'a blocking_queue" and x f
  assume "bq_inv q" "bq_step q x = Inl f"
  then show False using bq_step_inv [of q x] by auto
next
  fix q :: "'a blocking_queue" and x r q'
  assume "bq_inv q" "bq_step q x = Inr (r, q')"
  then show "bq_inv q'" using bq_step_inv [of q x] by auto
qed

lemma bq_outputs:
  "run_steps bq_step q ops = Inr (outs, q') \<Longrightarrow> popped q' = popped q @ somes outs"
proof (induction ops arbitrary: q outs)
  case (Cons x ops)
  from Cons.prems obtain r q1 outs' where st: "bq_step q x = Inr (r, q1)" "run_steps bq_step q1 ops = Inr (outs', q')" "outs = r # outs'"
    by (auto simp del: bq_step.simps)
  have "popped q1 = popped q @ somes [r]"
    using st(1)
    by (cases x) (auto simp: push_locked_def pop_locked_def signal_empty_def signal_full_def Let_def split: if_splits list.splits)
  with Cons.IH [OF st(2)] st(3) show ?case by (cases r) simp_all
qed simp

section \<open>CountDownLatch\<close>

record count_down_latch =
  latch_count :: int
  latch_asleep :: nat
  latch_woken :: nat

definition new_latch :: "int \<Rightarrow> count_down_latch res" where
  "new_latch n = check (n > 0) (Inr \<lparr>latch_count = n, latch_asleep = 0, latch_woken = 0\<rparr>)"

definition count_down :: "count_down_latch \<Rightarrow> count_down_latch res" where
  "count_down l =
     (if latch_count l = - (2 ^ 31) then Inl Signed_overflow
      else let l1 = l\<lparr>latch_count := latch_count l - 1\<rparr>
           in Inr (if latch_count l1 = 0 then l1\<lparr>latch_asleep := 0, latch_woken := latch_woken l1 + latch_asleep l1\<rparr> else l1))"

text \<open>\<^verbatim>\<open>wait\<close> up to its return or the next sleep; the variant with a time limit differs in that time wakes it up too.\<close>

definition latch_wait :: "count_down_latch \<Rightarrow> bool \<times> count_down_latch" where
  "latch_wait l = (if latch_count l > 0 then (False, l\<lparr>latch_asleep := latch_asleep l + 1\<rparr>) else (True, l))"

definition latch_timeout :: "count_down_latch \<Rightarrow> count_down_latch" where
  "latch_timeout l = (if latch_asleep l > 0 then l\<lparr>latch_asleep := latch_asleep l - 1, latch_woken := latch_woken l + 1\<rparr> else l)"

datatype latch_op = Latch_wait | Latch_again | Latch_timeout | Latch_count_down

fun latch_step :: "count_down_latch \<Rightarrow> latch_op \<Rightarrow> (bool \<times> count_down_latch) res" where
  "latch_step l Latch_wait = Inr (latch_wait l)"
| "latch_step l Latch_again = Inr (if latch_woken l > 0 then latch_wait (l\<lparr>latch_woken := latch_woken l - 1\<rparr>) else (False, l))"
| "latch_step l Latch_timeout = Inr (False, latch_timeout l)"
| "latch_step l Latch_count_down = bindR (count_down l) (\<lambda>l1. Inr (False, l1))"

definition latch_inv :: "count_down_latch \<Rightarrow> bool" where
  "latch_inv l \<longleftrightarrow> (latch_asleep l > 0 \<longrightarrow> latch_count l > 0)"

interpretation latch: step_invariant latch_inv latch_step "\<lambda>_. True" "\<lambda>f. f = Signed_overflow"
proof
  fix l x f
  assume "latch_inv l" "latch_step l x = Inl f"
  then show "f = Signed_overflow" by (cases x) (auto simp: count_down_def Let_def split: if_splits)
next
  fix l x r l'
  assume "latch_inv l" "latch_step l x = Inr (r, l')"
  then show "latch_inv l'"
    by (cases x) (auto simp: latch_inv_def count_down_def latch_wait_def latch_timeout_def Let_def split: if_splits)
qed

text \<open>A waiting thread returns only once the count is down to zero, whether or not its time is over.\<close>

lemma latch_returns: "fst (latch_wait l) \<longleftrightarrow> latch_count l \<le> 0"
  by (auto simp: latch_wait_def)

section \<open>Properties\<close>

text \<open>C13: A blocking queue is a queue and loses no wake-up. Under every schedule of producers and consumers, no check fails; the elements
  come out in the order they went in, each once; a bounded queue never holds more than its bound; and no thread sleeps
  for nothing: when a consumer sleeps there are as many woken consumers as elements, and when a producer sleeps there are as many
  woken producers as free places.\<close>

theorem blocking_queue_fifo:
  "\<exists>outs q'. run_steps bq_step (new_blocking_queue b m) ops = Inr (outs, q')
     \<and> somes outs @ bq_queue q' = pushed q'
     \<and> (bounded q' \<longrightarrow> length (bq_queue q') \<le> bq_max q')
     \<and> (pop_asleep q' > 0 \<longrightarrow> length (bq_queue q') \<le> pop_woken q')
     \<and> (push_asleep q' \<noteq> [] \<longrightarrow> bq_max q' \<le> length (bq_queue q') + length (push_woken q'))"
proof -
  have inv0: "bq_inv (new_blocking_queue b m)" by (simp add: new_blocking_queue_def bq_inv_def)
  have leg: "list_all (\<lambda>_. True) ops" by (simp add: list_all_iff)
  obtain outs q' where run: "run_steps bq_step (new_blocking_queue b m) ops = Inr (outs, q')"
    using bq.run_fault [OF inv0 leg] by (cases "run_steps bq_step (new_blocking_queue b m) ops") auto
  have "bq_inv q'" by (rule bq.run_inv [OF inv0 leg run])
  moreover have "popped q' = somes outs"
    using bq_outputs [OF run] by (simp add: new_blocking_queue_def)
  ultimately show ?thesis using run by (auto simp: bq_inv_def)
qed

theorem blocking_queue_fifo_witness:
  "\<exists>outs q'. run_steps bq_step (new_blocking_queue True 1) [Pop 0, Pop 0, Push (7 :: nat), Push 8] = Inr (outs, q')
     \<and> bounded q' \<and> pop_asleep q' = 1 \<and> push_asleep q' = [8]
     \<and> length (bq_queue q') \<le> bq_max q' \<and> length (bq_queue q') \<le> pop_woken q'
     \<and> bq_max q' \<le> length (bq_queue q') + length (push_woken q')"
proof -
  obtain outs q' where run: "run_steps bq_step (new_blocking_queue True 1) [Pop 0, Pop 0, Push (7 :: nat), Push 8] = Inr (outs, q')"
      and ok: "bounded q' \<longrightarrow> length (bq_queue q') \<le> bq_max q'" "pop_asleep q' > 0 \<longrightarrow> length (bq_queue q') \<le> pop_woken q'"
        "push_asleep q' \<noteq> [] \<longrightarrow> bq_max q' \<le> length (bq_queue q') + length (push_woken q')"
    using blocking_queue_fifo [of True 1 "[Pop 0, Pop 0, Push (7 :: nat), Push 8]"] by (elim exE conjE) (rule that)
  from run have "bounded q'" "pop_asleep q' = 1" "push_asleep q' = [8]"
    by (auto simp: new_blocking_queue_def pop_locked_def push_locked_def full_with_locked_def signal_empty_def)
  with ok have "bounded q' \<and> pop_asleep q' = 1 \<and> push_asleep q' = [8] \<and> length (bq_queue q') \<le> bq_max q'
      \<and> length (bq_queue q') \<le> pop_woken q' \<and> bq_max q' \<le> length (bq_queue q') + length (push_woken q')" by simp
  with run show ?thesis by (intro exI) (rule conjI)
qed

end
