(* ===== verification/Thread_Pool.thy ===== *)
theory Thread_Pool
  imports Annety_Prelude "HOL-Library.Multiset"
begin

text \<open>
  The pool of worker threads (include/threading/ThreadPool.h, src/ThreadPool.cc) under any schedule of its workers, of the threads that
  submit tasks and of its owner.

  What a thread does between acquiring the lock and releasing or waiting is one step. \<^verbatim>\<open>empty_cv_\<close> is where idle workers sleep, \<^verbatim>\<open>full_cv_\<close>
  where submitting threads sleep; the number that goes with a step is the choice of the system among the sleeping threads.
  A callback is a value of the type \<open>'a\<close>, \<^verbatim>\<open>nullptr\<close> is \<^const>\<open>None\<close>; running it is recorded in \<open>tp_executed\<close>.
  The ghost fields \<open>submitted\<close> and \<open>tp_taken\<close> are the tasks that went into and out of the queue; what \<^verbatim>\<open>stop\<close> discards is moved to \<open>tp_dropped\<close>.
\<close>

section \<open>State\<close>

text \<open>Where a worker is in \<^verbatim>\<open>loop\<close>: before the initial callback, at the test of the outer loop, at the lock or at the test of the wait loop,
  asleep, about to run the task it took, at the end.\<close>

datatype 'a worker = W_start | W_head | W_lock | W_asleep | W_task "'a option" | W_exited

text \<open>The owner's thread: outside the pool, submitting the null tasks of \<^verbatim>\<open>joinall\<close>, in the joins of \<^verbatim>\<open>joinall\<close>, in the joins of \<^verbatim>\<open>stop\<close>.\<close>

datatype owner_pc = Owner_free | Owner_pushing | Owner_joinall | Owner_stop

text \<open>A thread in \<^verbatim>\<open>run_task\<close>: the callback, how many copies are still to push, whether \<^verbatim>\<open>joinall\<close> called it.\<close>

type_synonym 'a producer = "'a option \<times> nat \<times> bool"

record 'a thread_pool =
  tp_num_threads :: int
  max_task_size :: nat
  tp_running :: bool
  thread_init_cb :: bool
  thread_main_cbs :: "'a option list"
  threads :: "'a worker list"
  full_asleep :: "'a producer list"
  full_woken :: "'a producer list"
  owner :: owner_pc
  init_calls :: nat
  submitted :: "'a option list"
  tp_taken :: "'a option list"
  tp_executed :: "'a list"
  tp_dropped :: "'a option list"

definition new_thread_pool :: "int \<Rightarrow> nat \<Rightarrow> bool \<Rightarrow> 'a thread_pool" where
  "new_thread_pool n m ini = \<lparr>tp_num_threads = n, max_task_size = m, tp_running = False, thread_init_cb = ini, thread_main_cbs = [], threads = [],
     full_asleep = [], full_woken = [], owner = Owner_free, init_calls = 0, submitted = [], tp_taken = [], tp_executed = [], tp_dropped = []\<rparr>"

definition destroy_thread_pool :: "'a thread_pool \<Rightarrow> unit res" where
  "destroy_thread_pool p = check (threads p = []) (check (thread_main_cbs p = []) (Inr ()))"

definition get_task_size :: "'a thread_pool \<Rightarrow> nat" where
  "get_task_size p = length (thread_main_cbs p)"

definition pool_full :: "'a thread_pool \<Rightarrow> bool" where
  "pool_full p \<longleftrightarrow> max_task_size p > 0 \<and> max_task_size p \<le> length (thread_main_cbs p)"

section \<open>Condition variables\<close>

definition sleeping :: "'a worker list \<Rightarrow> nat list" where
  "sleeping ws = filter (\<lambda>i. ws ! i = W_asleep) [0..<length ws]"

definition wake_worker :: "nat \<Rightarrow> 'a worker list \<Rightarrow> 'a worker list" where
  "wake_worker c ws = (let is = sleeping ws in if is = [] then ws else ws[is ! (c mod length is) := W_lock])"

definition signal_empty_cv :: "nat \<Rightarrow> 'a thread_pool \<Rightarrow> 'a thread_pool" where
  "signal_empty_cv c p = p\<lparr>threads := wake_worker c (threads p)\<rparr>"

definition broadcast_empty_cv :: "'a thread_pool \<Rightarrow> 'a thread_pool" where
  "broadcast_empty_cv p = p\<lparr>threads := map (\<lambda>w. if w = W_asleep then W_lock else w) (threads p)\<rparr>"

definition signal_full_cv :: "nat \<Rightarrow> 'a thread_pool \<Rightarrow> 'a thread_pool" where
  "signal_full_cv c p =
     (let n = length (full_asleep p) in
      if n = 0 then p
      else p\<lparr>full_asleep := remove_nth (c mod n) (full_asleep p), full_woken := full_woken p @ [full_asleep p ! (c mod n)]\<rparr>)"

section \<open>Operations\<close>

definition start_pool :: "'a thread_pool \<Rightarrow> 'a thread_pool res" where
  "start_pool p =
     check (threads p = [] \<and> \<not> tp_running p)
     (let p1 = p\<lparr>tp_running := True\<rparr> in
      if tp_num_threads p < 0 then Inl Length_error
      else
        let p2 = p1\<lparr>threads := replicate (nat (tp_num_threads p)) W_start\<rparr>
        in Inr (if tp_num_threads p = 0 \<and> thread_init_cb p then p2\<lparr>init_calls := init_calls p2 + 1\<rparr> else p2))"

text \<open>The loop of \<^verbatim>\<open>run_task\<close> under the lock: until the last copy is in, or until the queue is full.\<close>

fun push_tasks :: "nat \<Rightarrow> 'a option \<Rightarrow> nat \<Rightarrow> bool \<Rightarrow> 'a thread_pool \<Rightarrow> 'a thread_pool res" where
  "push_tasks c cb 0 j p = Inr ((signal_empty_cv c p)\<lparr>owner := (if j then Owner_joinall else owner p)\<rparr>)"
| "push_tasks c cb (Suc n) j p =
     (if pool_full p
      then Inr (p\<lparr>full_asleep := full_asleep p @ [(cb, Suc n, j)]\<rparr>)
      else check (\<not> pool_full p)
        (push_tasks c cb n j (p\<lparr>thread_main_cbs := thread_main_cbs p @ [cb], submitted := submitted p @ [cb]\<rparr>)))"

definition run_inline :: "'a option \<Rightarrow> nat \<Rightarrow> bool \<Rightarrow> 'a thread_pool \<Rightarrow> 'a thread_pool" where
  "run_inline cb n j p =
     (let p1 = (case cb of None \<Rightarrow> p
                | Some f \<Rightarrow> p\<lparr>submitted := submitted p @ replicate n cb, tp_taken := tp_taken p @ replicate n cb, tp_executed := tp_executed p @ replicate n f\<rparr>)
      in p1\<lparr>owner := (if j then Owner_joinall else owner p)\<rparr>)"

definition pool_run_task :: "nat \<Rightarrow> 'a option \<Rightarrow> int \<Rightarrow> bool \<Rightarrow> 'a thread_pool \<Rightarrow> 'a thread_pool res" where
  "pool_run_task c cb repeat_count j p =
     check (tp_running p)
     (if threads p = [] then Inr (run_inline cb (nat repeat_count) j p) else push_tasks c cb (nat repeat_count) j p)"

definition stop_pool :: "'a thread_pool \<Rightarrow> 'a thread_pool res" where
  "stop_pool p = check (tp_running p) (Inr (broadcast_empty_cv (p\<lparr>tp_running := False, owner := Owner_stop\<rparr>)))"

definition joinall :: "nat \<Rightarrow> 'a thread_pool \<Rightarrow> 'a thread_pool res" where
  "joinall c p = check (tp_running p) (pool_run_task c None (tp_num_threads p) True (p\<lparr>owner := Owner_pushing\<rparr>))"

text \<open>The end of \<^verbatim>\<open>stop\<close> and of \<^verbatim>\<open>joinall\<close>, once every worker has returned.\<close>

definition join_threads :: "'a thread_pool \<Rightarrow> 'a thread_pool res" where
  "join_threads p =
     (if list_all (\<lambda>w. w = W_exited) (threads p) then
        (case owner p of
           Owner_stop \<Rightarrow> Inr (p\<lparr>threads := [], thread_main_cbs := [], tp_dropped := tp_dropped p @ thread_main_cbs p, submitted := tp_taken p, owner := Owner_free\<rparr>)
         | Owner_joinall \<Rightarrow> check (thread_main_cbs p = []) (Inr (p\<lparr>threads := [], tp_running := False, owner := Owner_free\<rparr>))
         | _ \<Rightarrow> Inr p)
      else Inr p)"

text \<open>One step of the worker \<open>i\<close>.\<close>

definition set_worker :: "nat \<Rightarrow> 'a worker \<Rightarrow> 'a thread_pool \<Rightarrow> 'a thread_pool" where
  "set_worker i w p = p\<lparr>threads := (threads p)[i := w]\<rparr>"

definition take_task :: "nat \<Rightarrow> nat \<Rightarrow> 'a thread_pool \<Rightarrow> 'a thread_pool res" where
  "take_task c i p =
     (if thread_main_cbs p = [] \<and> tp_running p then Inr (set_worker i W_asleep p)
      else if \<not> tp_running p then Inr (set_worker i W_exited p)
      else check (thread_main_cbs p \<noteq> [])
        (let task = hd (thread_main_cbs p);
             p1 = p\<lparr>thread_main_cbs := tl (thread_main_cbs p), tp_taken := tp_taken p @ [task]\<rparr>;
             p2 = (if max_task_size p > 0 then signal_full_cv c p1 else p1)
         in Inr (set_worker i (W_task task) p2)))"

definition worker_step :: "nat \<Rightarrow> nat \<Rightarrow> 'a thread_pool \<Rightarrow> 'a thread_pool res" where
  "worker_step c i p =
     (if i < length (threads p) then
        (case threads p ! i of
           W_start \<Rightarrow> Inr (set_worker i W_head (if thread_init_cb p then p\<lparr>init_calls := init_calls p + 1\<rparr> else p))
         | W_head \<Rightarrow> Inr (set_worker i (if tp_running p then W_lock else W_exited) p)
         | W_lock \<Rightarrow> take_task c i p
         | W_task None \<Rightarrow> Inr (set_worker i W_exited (signal_empty_cv c p))
         | W_task (Some f) \<Rightarrow> Inr (set_worker i W_head (p\<lparr>tp_executed := tp_executed p @ [f]\<rparr>))
         | _ \<Rightarrow> Inr p)
      else Inr p)"

definition run_task_again :: "nat \<Rightarrow> nat \<Rightarrow> 'a thread_pool \<Rightarrow> 'a thread_pool res" where
  "run_task_again c k p =
     (if k < length (full_woken p) then
        (case full_woken p ! k of (cb, n, j) \<Rightarrow> push_tasks c cb n j (p\<lparr>full_woken := remove_nth k (full_woken p)\<rparr>))
      else Inr p)"

datatype 'a tpool_op =
    Pool_start
  | Pool_run_task nat "'a option" int
  | Pool_producer nat nat
  | Pool_worker nat nat
  | Pool_wake_worker nat
  | Pool_wake_producer nat
  | Pool_stop
  | Pool_joinall nat
  | Pool_join

fun tpool_next :: "'a thread_pool \<Rightarrow> 'a tpool_op \<Rightarrow> 'a thread_pool res" where
  "tpool_next p Pool_start = start_pool p"
| "tpool_next p (Pool_run_task c cb n) = pool_run_task c cb n False p"
| "tpool_next p (Pool_producer c k) = run_task_again c k p"
| "tpool_next p (Pool_worker c i) = worker_step c i p"
| "tpool_next p (Pool_wake_worker c) = Inr (signal_empty_cv c p)"
| "tpool_next p (Pool_wake_producer c) = Inr (signal_full_cv c p)"
| "tpool_next p Pool_stop = stop_pool p"
| "tpool_next p (Pool_joinall c) = joinall c p"
| "tpool_next p Pool_join = join_threads p"

definition tpool_step :: "'a thread_pool \<Rightarrow> 'a tpool_op \<Rightarrow> (unit \<times> 'a thread_pool) res" where
  "tpool_step p x = bindR (tpool_next p x) (\<lambda>p1. Inr ((), p1))"

section \<open>Counting workers\<close>

fun job :: "'a worker \<Rightarrow> 'a list" where
  "job (W_task (Some f)) = [f]"
| "job _ = []"

fun quitting :: "'a worker \<Rightarrow> nat" where
  "quitting (W_task None) = 1"
| "quitting W_exited = 1"
| "quitting _ = 0"

definition jobs :: "'a worker list \<Rightarrow> 'a list" where
  "jobs ws = concat (map job ws)"

definition quits :: "'a worker list \<Rightarrow> nat" where
  "quits ws = sum_list (map quitting ws)"

definition alive :: "'a worker \<Rightarrow> bool" where
  "alive w \<longleftrightarrow> w \<noteq> W_asleep \<and> w \<noteq> W_exited"

lemma jobs_Nil [simp]: "jobs [] = []"
  by (simp add: jobs_def)

lemma jobs_update:
  "i < length ws \<Longrightarrow> mset (jobs (ws[i := w])) + mset (job (ws ! i)) = mset (jobs ws) + mset (job w)"
proof (induction ws arbitrary: i)
  case (Cons v ws)
  then show ?case by (cases i) (auto simp: jobs_def ac_simps)
qed simp

lemma quits_update: "i < length ws \<Longrightarrow> quits (ws[i := w]) + quitting (ws ! i) = quits ws + quitting w"
proof (induction ws arbitrary: i)
  case (Cons v ws)
  show ?case
  proof (cases i)
    case (Suc k)
    then show ?thesis using Cons.IH [of k] Cons.prems by (simp add: quits_def)
  qed (simp add: quits_def)
qed simp

lemma quits_le: "quits ws \<le> length ws"
proof (induction ws)
  case (Cons w ws)
  then show ?case by (cases w rule: quitting.cases) (simp_all add: quits_def)
qed (simp add: quits_def)

lemma quits_zero: "quits ws = 0 \<longleftrightarrow> W_exited \<notin> set ws \<and> W_task None \<notin> set ws"
proof (induction ws)
  case (Cons w ws)
  then show ?case by (cases w rule: quitting.cases) (auto simp: quits_def)
qed (simp add: quits_def)

lemma all_exited: "list_all (\<lambda>w. w = W_exited) ws \<Longrightarrow> quits ws = length ws \<and> jobs ws = []"
  by (induction ws) (simp_all add: quits_def jobs_def)

lemma quits_less: "quits ws < length ws \<Longrightarrow> \<exists>w \<in> set ws. w \<noteq> W_exited"
proof (rule ccontr)
  assume less: "quits ws < length ws" and "\<not> (\<exists>w \<in> set ws. w \<noteq> W_exited)"
  then have "list_all (\<lambda>w. w = W_exited) ws" by (simp add: list_all_iff)
  from all_exited [OF this] less show False by simp
qed

lemma wake_worker_cases:
  obtains (none) "wake_worker c ws = ws" "W_asleep \<notin> set ws"
  | (one) i where "i < length ws" "ws ! i = W_asleep" "wake_worker c ws = ws[i := W_lock]"
proof (cases "sleeping ws = []")
  case True
  have "W_asleep \<notin> set ws"
  proof
    assume "W_asleep \<in> set ws"
    then obtain i where "i < length ws" "ws ! i = W_asleep" by (auto simp: in_set_conv_nth)
    then have "i \<in> set (sleeping ws)" by (simp add: sleeping_def)
    with True show False by simp
  qed
  with True show thesis by (intro none) (simp_all add: wake_worker_def)
next
  case False
  let ?i = "sleeping ws ! (c mod length (sleeping ws))"
  have "?i \<in> set (sleeping ws)" using False by (intro nth_mem) simp
  then have "?i < length ws" "ws ! ?i = W_asleep" by (simp_all add: sleeping_def)
  then show thesis using False by (intro one [of ?i]) (simp_all add: wake_worker_def Let_def)
qed

lemma length_wake_worker [simp]: "length (wake_worker c ws) = length ws"
  by (cases rule: wake_worker_cases [of c ws]) simp_all

lemma wake_worker_Nil [simp]: "wake_worker c ws = [] \<longleftrightarrow> ws = []"
  using length_wake_worker [of c ws] by (metis length_0_conv)

lemma quits_wake_worker [simp]: "quits (wake_worker c ws) = quits ws"
proof (cases rule: wake_worker_cases [of c ws])
  case (one i)
  then show ?thesis using quits_update [of i ws W_lock] by simp
qed simp

lemma jobs_wake_worker [simp]: "mset (jobs (wake_worker c ws)) = mset (jobs ws)"
proof (cases rule: wake_worker_cases [of c ws])
  case (one i)
  then show ?thesis using jobs_update [of i ws W_lock] by simp
qed simp

lemma wake_worker_other: "w \<noteq> W_lock \<Longrightarrow> w \<in> set (wake_worker c ws) \<Longrightarrow> w \<in> set ws"
  by (cases rule: wake_worker_cases [of c ws]) (use set_update_subset_insert in fastforce)+

lemma wake_worker_nth: "i < length ws \<Longrightarrow> ws ! i \<noteq> W_asleep \<Longrightarrow> wake_worker c ws ! i = ws ! i"
  by (cases rule: wake_worker_cases [of c ws]) (auto simp: nth_list_update)

text \<open>After a signal some worker is awake, unless all of them have returned.\<close>

lemma wake_worker_alive:
  assumes "w \<in> set ws" and "w \<noteq> W_exited"
  shows "\<exists>w \<in> set (wake_worker c ws). alive w"
proof (cases rule: wake_worker_cases [of c ws])
  case none
  with assms have "alive w" by (auto simp: alive_def)
  with assms none show ?thesis by auto
next
  case (one i)
  then have "W_lock \<in> set (wake_worker c ws)" by (simp add: set_update_memI)
  then show ?thesis by (auto simp: alive_def)
qed

lemma alive_nth: "n < length ws \<Longrightarrow> alive (ws ! n) \<Longrightarrow> \<exists>w \<in> set ws. alive w"
  by (metis nth_mem)

lemma alive_update: "i < length ws \<Longrightarrow> alive w \<Longrightarrow> \<exists>v \<in> set (ws[i := w]). alive v"
  by (rule bexI [of _ w]) (simp_all add: set_update_memI)

section \<open>The invariant\<close>

text \<open>Nothing in the pool asks a worker to quit.\<close>

definition no_null :: "'a thread_pool \<Rightarrow> bool" where
  "no_null p \<longleftrightarrow> None \<notin> set (thread_main_cbs p) \<and> W_task None \<notin> set (threads p)
     \<and> list_all (\<lambda>(cb, n, j). cb \<noteq> None \<and> \<not> j) (full_asleep p) \<and> list_all (\<lambda>(cb, n, j). cb \<noteq> None \<and> \<not> j) (full_woken p)"

text \<open>During \<^verbatim>\<open>joinall\<close>, with \<open>k\<close> null tasks still to push: there is one null task for each worker that has not got its own, behind all other tasks.\<close>

definition draining :: "nat \<Rightarrow> 'a thread_pool \<Rightarrow> bool" where
  "draining k p \<longleftrightarrow> tp_running p \<and> int (length (threads p)) = tp_num_threads p
     \<and> (\<exists>xs m. thread_main_cbs p = map Some xs @ replicate m None \<and> m + k + quits (threads p) = length (threads p)
          \<and> (quits (threads p) > 0 \<longrightarrow> xs = []))"

definition owner_ok :: "'a thread_pool \<Rightarrow> bool" where
  "owner_ok p \<longleftrightarrow>
     (case owner p of
        Owner_free \<Rightarrow> no_null p \<and> (if tp_running p then W_exited \<notin> set (threads p) \<and> int (length (threads p)) = tp_num_threads p else threads p = [])
      | Owner_pushing \<Rightarrow> (\<exists>n. full_asleep p @ full_woken p = [(None, Suc n, True)] \<and> draining (Suc n) p)
      | Owner_joinall \<Rightarrow> full_asleep p = [] \<and> full_woken p = [] \<and> draining 0 p
      | Owner_stop \<Rightarrow> no_null p \<and> \<not> tp_running p)"

definition tasks_ok :: "'a thread_pool \<Rightarrow> bool" where
  "tasks_ok p \<longleftrightarrow> tp_taken p @ thread_main_cbs p = submitted p
     \<and> mset (tp_executed p) + mset (jobs (threads p)) = mset (somes (tp_taken p))
     \<and> (max_task_size p > 0 \<longrightarrow> length (thread_main_cbs p) \<le> max_task_size p)"

definition awake_ok :: "'a thread_pool \<Rightarrow> bool" where
  "awake_ok p \<longleftrightarrow>
     (max_task_size p = 0 \<longrightarrow> tp_running p \<longrightarrow> thread_main_cbs p \<noteq> [] \<longrightarrow> threads p \<noteq> [] \<longrightarrow> (\<exists>w \<in> set (threads p). alive w))"

definition tpool_inv :: "'a thread_pool \<Rightarrow> bool" where
  "tpool_inv p \<longleftrightarrow> tasks_ok p \<and> owner_ok p \<and> awake_ok p"

text \<open>How the pool is to be used: started when it is not running; tasks are not null and submitted between \<^verbatim>\<open>start\<close> and \<^verbatim>\<open>joinall\<close> or \<^verbatim>\<open>stop\<close>;
  no other thread is in \<^verbatim>\<open>run_task\<close> when \<^verbatim>\<open>joinall\<close> is called.\<close>

fun pool_permitted :: "'a thread_pool \<Rightarrow> 'a tpool_op \<Rightarrow> bool" where
  "pool_permitted p Pool_start \<longleftrightarrow> owner p = Owner_free \<and> \<not> tp_running p \<and> tp_num_threads p \<ge> 0"
| "pool_permitted p (Pool_run_task c cb n) \<longleftrightarrow> owner p = Owner_free \<and> tp_running p \<and> cb \<noteq> None"
| "pool_permitted p Pool_stop \<longleftrightarrow> owner p = Owner_free \<and> tp_running p"
| "pool_permitted p (Pool_joinall c) \<longleftrightarrow> owner p = Owner_free \<and> tp_running p \<and> full_asleep p = [] \<and> full_woken p = []"
| "pool_permitted p _ \<longleftrightarrow> True"

inductive pool_reach :: "'a thread_pool \<Rightarrow> bool" where
  made: "pool_reach (new_thread_pool n m ini)"
| stepped: "pool_reach p \<Longrightarrow> pool_permitted p x \<Longrightarrow> tpool_step p x = Inr (u, p') \<Longrightarrow> pool_reach p'"

section \<open>Workers keep the invariant\<close>

lemma draining_less:
  assumes "draining k p" and "thread_main_cbs p \<noteq> []" and "threads p \<noteq> []"
  shows "quits (threads p) < length (threads p)"
proof -
  obtain xs m where d: "thread_main_cbs p = map Some xs @ replicate m None" "m + k + quits (threads p) = length (threads p)"
      "quits (threads p) > 0 \<longrightarrow> xs = []"
    using assms(1) by (auto simp: draining_def)
  show ?thesis
  proof (cases "quits (threads p) = 0")
    case False
    with d assms(2) have "m > 0" by (cases m) auto
    with d(2) show ?thesis by simp
  qed (use assms(3) in simp)
qed

lemma update_mem: "v \<in> set (ws[i := w]) \<Longrightarrow> v = w \<or> v \<in> set ws"
  using set_update_subset_insert [of ws i w] by auto

lemma update_notin: "v \<notin> set ws \<Longrightarrow> v \<noteq> w \<Longrightarrow> v \<notin> set (ws[i := w])"
  using set_update_subset_insert [of ws i w] by auto

lemma no_null_set_worker: "no_null p \<Longrightarrow> w \<noteq> W_task None \<Longrightarrow> no_null (set_worker i w p)"
  by (simp add: no_null_def set_worker_def update_notin)

lemma phase_cong:
  assumes "owner_ok p" and "owner q = owner p" and "tp_running q = tp_running p" and "thread_main_cbs q = thread_main_cbs p"
    and "full_asleep q = full_asleep p" and "full_woken q = full_woken p" and "tp_num_threads q = tp_num_threads p"
    and "length (threads q) = length (threads p)" and "quits (threads q) = quits (threads p)"
    and "W_task None \<in> set (threads q) \<longrightarrow> W_task None \<in> set (threads p)"
    and "owner p = Owner_free \<longrightarrow> W_exited \<in> set (threads q) \<longrightarrow> W_exited \<in> set (threads p)"
  shows "owner_ok q"
proof -
  have d: "draining k q = draining k p" for k using assms by (simp add: draining_def)
  have n: "no_null p \<longrightarrow> no_null q" using assms by (auto simp: no_null_def)
  have t: "threads q = [] \<longleftrightarrow> threads p = []" using assms(8) by (metis length_0_conv)
  show ?thesis using assms(1-3,5-8,11) n by (cases "owner p") (auto simp: owner_ok_def d t split: if_splits)
qed

lemma phase_set_worker:
  assumes "owner_ok p" and "i < length (threads p)" and "quitting (threads p ! i) = 0" and "quitting w = 0"
  shows "owner_ok (set_worker i w p)"
proof -
  have w: "w \<noteq> W_exited" "w \<noteq> W_task None" using assms(4) by auto
  have q: "quits ((threads p)[i := w]) = quits (threads p)" using quits_update [of i "threads p" w] assms by simp
  show ?thesis using w by (intro phase_cong [OF assms(1)]) (auto simp: set_worker_def q dest: update_mem)
qed

lemma worker_moves:
  assumes inv: "tpool_inv p" and i: "i < length (threads p)" and q: "quitting (threads p ! i) = 0" "quitting w = 0"
    and j: "job w = job (threads p ! i)" and a: "alive w \<or> thread_main_cbs p = []"
  shows "tpool_inv (set_worker i w p)"
proof -
  have "tasks_ok (set_worker i w p)" using inv jobs_update [OF i, of w] j by (simp add: tpool_inv_def tasks_ok_def set_worker_def)
  moreover have "owner_ok (set_worker i w p)" using inv phase_set_worker [OF _ i q] by (simp add: tpool_inv_def)
  moreover have "awake_ok (set_worker i w p)" using a alive_update [OF i, of w] by (auto simp: awake_ok_def set_worker_def)
  ultimately show ?thesis by (simp add: tpool_inv_def)
qed

lemma worker_stops:
  assumes inv: "tpool_inv p" and i: "i < length (threads p)" and j: "job (threads p ! i) = []" and r: "\<not> tp_running p"
  shows "tpool_inv (set_worker i W_exited p)"
proof -
  have ph: "owner p = Owner_stop \<and> no_null p"
    using inv i r by (cases "owner p") (auto simp: tpool_inv_def owner_ok_def draining_def)
  then have "owner_ok (set_worker i W_exited p)"
    using no_null_set_worker [of p W_exited i] r by (simp add: owner_ok_def set_worker_def)
  moreover have "tasks_ok (set_worker i W_exited p)"
    using inv jobs_update [OF i, of W_exited] j by (simp add: tpool_inv_def tasks_ok_def set_worker_def)
  ultimately show ?thesis using r by (simp add: tpool_inv_def awake_ok_def set_worker_def)
qed

lemma worker_ran:
  assumes inv: "tpool_inv p" and i: "i < length (threads p)" and w: "threads p ! i = W_task (Some f)"
  shows "tpool_inv (set_worker i W_head (p\<lparr>tp_executed := tp_executed p @ [f]\<rparr>))"
proof -
  let ?p = "p\<lparr>tp_executed := tp_executed p @ [f]\<rparr>"
  have "owner_ok ?p" by (rule phase_cong [of p]) (use inv in \<open>simp_all add: tpool_inv_def\<close>)
  then have "owner_ok (set_worker i W_head ?p)" by (rule phase_set_worker) (use i w in simp_all)
  moreover have j: "mset (jobs (threads p)) = add_mset f (mset (jobs ((threads p)[i := W_head])))"
    using jobs_update [OF i, of W_head] w by simp
  have "mset (tp_executed p) + mset (jobs (threads p)) = mset (somes (tp_taken p))" using inv by (simp add: tpool_inv_def tasks_ok_def)
  then have "mset (tp_executed p) + {#f#} + mset (jobs ((threads p)[i := W_head])) = mset (somes (tp_taken p))"
    unfolding j by (simp add: ac_simps)
  then have "tasks_ok (set_worker i W_head ?p)" using inv by (simp add: tpool_inv_def tasks_ok_def set_worker_def)
  moreover have "awake_ok (set_worker i W_head ?p)"
    using alive_update [OF i, of W_head] by (simp add: awake_ok_def set_worker_def alive_def)
  ultimately show ?thesis by (simp add: tpool_inv_def)
qed

lemma worker_quits:
  assumes inv: "tpool_inv p" and i: "i < length (threads p)" and w: "threads p ! i = W_task None"
  shows "tpool_inv (set_worker i W_exited (signal_empty_cv c p))"
proof -
  let ?ws = "(wake_worker c (threads p))[i := W_exited]"
  let ?p = "set_worker i W_exited (signal_empty_cv c p)"
  have p: "?p = p\<lparr>threads := ?ws\<rparr>" by (simp add: set_worker_def signal_empty_cv_def)
  have wi: "wake_worker c (threads p) ! i = W_task None" using wake_worker_nth [OF i, of c] w by simp
  have q: "quits ?ws = quits (threads p)" using quits_update [of i "wake_worker c (threads p)" W_exited] i wi by simp
  have j: "mset (jobs ?ws) = mset (jobs (threads p))" using jobs_update [of i "wake_worker c (threads p)" W_exited] i wi by simp
  have mem: "W_task None \<in> set (threads p)" using i w nth_mem by metis
  have "owner p \<noteq> Owner_free" using inv mem by (auto simp: tpool_inv_def owner_ok_def no_null_def)
  then have ph: "owner_ok ?p" using mem by - (rule phase_cong [of p], use inv q in \<open>simp_all add: tpool_inv_def p\<close>)
  have "\<exists>w \<in> set ?ws. alive w" if "thread_main_cbs p \<noteq> []" "tp_running p" "max_task_size p = 0"
  proof -
    obtain k where k: "draining k p" using inv mem by (cases "owner p") (auto simp: tpool_inv_def owner_ok_def no_null_def)
    have "threads p \<noteq> []" using i by auto
    then have "quits ?ws < length ?ws" using draining_less [OF k that(1)] q by simp
    from quits_less [OF this] obtain v n where n: "v \<noteq> W_exited" "n < length ?ws" "?ws ! n = v" by (auto simp: in_set_conv_nth)
    then have ni: "n \<noteq> i" using i by auto
    with n have vn: "v = wake_worker c (threads p) ! n" by simp
    show ?thesis
    proof (cases rule: wake_worker_cases [of c "threads p"])
      case none
      then have "v \<noteq> W_asleep" using vn n(2) by (metis length_list_update nth_mem)
      with n show ?thesis by (intro alive_nth [of n]) (simp_all add: alive_def)
    next
      case (one m)
      then have "m \<noteq> i" using w by auto
      with one i have "?ws ! m = W_lock" "m < length ?ws" by simp_all
      then show ?thesis by (intro alive_nth [of m]) (simp_all add: alive_def)
    qed
  qed
  then have "awake_ok ?p" by (simp add: awake_ok_def p)
  moreover have "tasks_ok ?p" using inv by (simp add: tpool_inv_def tasks_ok_def p j)
  ultimately show ?thesis using ph by (simp add: tpool_inv_def)
qed

lemma signal_full_fields [simp]:
  "tp_num_threads (signal_full_cv c p) = tp_num_threads p" "max_task_size (signal_full_cv c p) = max_task_size p"
  "tp_running (signal_full_cv c p) = tp_running p" "thread_main_cbs (signal_full_cv c p) = thread_main_cbs p"
  "threads (signal_full_cv c p) = threads p" "owner (signal_full_cv c p) = owner p"
  "submitted (signal_full_cv c p) = submitted p" "tp_taken (signal_full_cv c p) = tp_taken p" "tp_executed (signal_full_cv c p) = tp_executed p"
  by (simp_all add: signal_full_cv_def Let_def)

lemma signal_full_producers:
  "list_all P (full_asleep p) \<Longrightarrow> list_all P (full_woken p) \<Longrightarrow>
     list_all P (full_asleep (signal_full_cv c p)) \<and> list_all P (full_woken (signal_full_cv c p))"
  by (auto simp: signal_full_cv_def Let_def remove_nth_def list_all_iff dest: in_set_takeD in_set_dropD)

lemma signal_full_single:
  "full_asleep p @ full_woken p = [x] \<Longrightarrow> full_asleep (signal_full_cv c p) @ full_woken (signal_full_cv c p) = [x]"
  by (auto simp: signal_full_cv_def Let_def remove_nth_def append_eq_Cons_conv)

lemma signal_full_none: "full_asleep p = [] \<Longrightarrow> signal_full_cv c p = p"
  by (simp add: signal_full_cv_def)

lemma phase_signal_full: "owner_ok p \<Longrightarrow> owner_ok (signal_full_cv c p)"
proof -
  assume ph: "owner_ok p"
  have n: "no_null p \<Longrightarrow> no_null (signal_full_cv c p)"
    using signal_full_producers [of "\<lambda>(cb, n, j). cb \<noteq> None \<and> \<not> j" p c] by (simp add: no_null_def)
  have d: "draining k (signal_full_cv c p) = draining k p" for k by (simp add: draining_def)
  show ?thesis
  proof (cases "owner p")
    case Owner_pushing
    then show ?thesis using ph signal_full_single [of p _ c] by (auto simp: owner_ok_def d)
  qed (use ph n in \<open>auto simp: owner_ok_def d signal_full_none\<close>)
qed

lemma draining_take:
  assumes "draining k p" and "thread_main_cbs p = t # ts" and "quits (threads q) = quits (threads p) + quitting (W_task t)"
    and "length (threads q) = length (threads p)" and "tp_running q" and "thread_main_cbs q = ts" and "tp_num_threads q = tp_num_threads p"
  shows "draining k q"
proof -
  obtain xs m where d: "t # ts = map Some xs @ replicate m None" "m + k + quits (threads p) = length (threads p)" "quits (threads p) > 0 \<longrightarrow> xs = []"
      "int (length (threads p)) = tp_num_threads p"
    using assms(1,2) by (auto simp: draining_def)
  show ?thesis
  proof (cases xs)
    case Nil
    with d(1) obtain m1 where m: "m = Suc m1" by (cases m) auto
    with Nil d(1) have "t = None" "ts = replicate m1 None" by auto
    then show ?thesis unfolding draining_def using assms d(2,4) m by (intro conjI exI [of _ "[]"] exI [of _ m1]) simp_all
  next
    case (Cons x ys)
    with d(1) have "t = Some x" "ts = map Some ys @ replicate m None" by auto
    then show ?thesis unfolding draining_def using assms d Cons by (intro conjI exI [of _ ys] exI [of _ m]) simp_all
  qed
qed

lemma worker_takes:
  assumes inv: "tpool_inv p" and i: "i < length (threads p)" and w: "threads p ! i = W_lock" and r: "tp_running p"
    and cbs: "thread_main_cbs p = t # ts"
  defines "q \<equiv> set_worker i (W_task t) (p\<lparr>thread_main_cbs := ts, tp_taken := tp_taken p @ [t]\<rparr>)"
  shows "tpool_inv q"
proof -
  have qs: "quits (threads q) = quits (threads p) + quitting (W_task t)"
    using quits_update [OF i, of "W_task t"] w by (simp add: q_def set_worker_def)
  have d: "draining k p \<Longrightarrow> draining k q" for k by (rule draining_take [OF _ cbs qs]) (use r in \<open>simp_all add: q_def set_worker_def\<close>)
  have n: "no_null q" if "no_null p" using that cbs by (auto simp: no_null_def q_def set_worker_def dest: update_mem)
  have q: "owner q = owner p" "tp_running q = tp_running p" "full_asleep q = full_asleep p" "full_woken q = full_woken p"
      "tp_num_threads q = tp_num_threads p" "threads q = (threads p)[i := W_task t]"
    by (simp_all add: q_def set_worker_def)
  have "owner_ok q" using inv r by (cases "owner p") (auto simp: tpool_inv_def owner_ok_def n d q dest: update_mem)
  moreover have "mset (tp_executed p) + mset (jobs (threads p)) = mset (somes (tp_taken p))" using inv by (simp add: tpool_inv_def tasks_ok_def)
  then have "mset (tp_executed q) + mset (jobs (threads q)) = mset (somes (tp_taken q))"
    using jobs_update [OF i, of "W_task t"] w by (cases t) (simp_all add: q_def set_worker_def)
  then have "tasks_ok q" using inv cbs by (auto simp: tpool_inv_def tasks_ok_def q_def set_worker_def)
  moreover have "awake_ok q" using alive_update [OF i, of "W_task t"] by (simp add: awake_ok_def q_def set_worker_def alive_def)
  ultimately show ?thesis by (simp add: tpool_inv_def)
qed

lemma signal_full_inv: "tpool_inv p \<Longrightarrow> tpool_inv (signal_full_cv c p)"
  by (simp add: tpool_inv_def phase_signal_full tasks_ok_def awake_ok_def)

lemma set_worker_signal_full: "set_worker i w (signal_full_cv c p) = signal_full_cv c (set_worker i w p)"
  by (simp add: set_worker_def signal_full_cv_def Let_def)

lemma take_task_inv:
  assumes inv: "tpool_inv p" and i: "i < length (threads p)" and w: "threads p ! i = W_lock"
  shows "\<exists>q. take_task c i p = Inr q \<and> tpool_inv q"
proof (cases "tp_running p")
  case False
  then show ?thesis using worker_stops [OF inv i _ False] w by (simp add: take_task_def)
next
  case True
  show ?thesis
  proof (cases "thread_main_cbs p")
    case Nil
    then show ?thesis using worker_moves [OF inv i, of W_asleep] w True by (simp add: take_task_def)
  next
    case (Cons t ts)
    then show ?thesis
      using worker_takes [OF inv i w True Cons] True by (simp add: take_task_def set_worker_signal_full signal_full_inv Let_def)
  qed
qed

lemma worker_step_inv:
  assumes inv: "tpool_inv p"
  shows "\<exists>q. worker_step c i p = Inr q \<and> tpool_inv q"
proof (cases "i < length (threads p)")
  case i: True
  show ?thesis
  proof (cases "threads p ! i")
    case W_start
    have "tpool_inv (p\<lparr>init_calls := n\<rparr>)" for n
      using inv phase_cong [of p "p\<lparr>init_calls := n\<rparr>"] by (simp add: tpool_inv_def tasks_ok_def awake_ok_def)
    then have "tpool_inv (set_worker i W_head (p\<lparr>init_calls := n\<rparr>))" for n
      by (rule worker_moves) (use i W_start in \<open>simp_all add: alive_def\<close>)
    moreover have "tpool_inv (set_worker i W_head p)" by (rule worker_moves [OF inv i]) (use W_start in \<open>simp_all add: alive_def\<close>)
    ultimately show ?thesis using i W_start by (simp add: worker_step_def)
  next
    case W_head
    have "tpool_inv (set_worker i W_lock p)" by (rule worker_moves [OF inv i]) (use W_head in \<open>simp_all add: alive_def\<close>)
    then show ?thesis using worker_stops [OF inv i] i W_head by (simp add: worker_step_def)
  next
    case W_lock
    then show ?thesis using take_task_inv [OF inv i W_lock] i by (simp add: worker_step_def)
  next
    case (W_task t)
    then show ?thesis using worker_quits [OF inv i] worker_ran [OF inv i] i by (cases t) (simp_all add: worker_step_def)
  qed (use inv i in \<open>simp_all add: worker_step_def\<close>)
qed (use inv in \<open>simp add: worker_step_def\<close>)

section \<open>Producers and the owner keep the invariant\<close>

definition add_tasks :: "'a option \<Rightarrow> nat \<Rightarrow> 'a thread_pool \<Rightarrow> 'a thread_pool" where
  "add_tasks cb k p = p\<lparr>thread_main_cbs := thread_main_cbs p @ replicate k cb, submitted := submitted p @ replicate k cb\<rparr>"

text \<open>\<^verbatim>\<open>run_task\<close> puts in what fits: all copies and one signal at the end, or some of them and no signal.\<close>

lemma push_tasks_result:
  "\<exists>k \<le> n. push_tasks c cb n j p =
       Inr (if k = n then (signal_empty_cv c (add_tasks cb k p))\<lparr>owner := (if j then Owner_joinall else owner p)\<rparr>
            else (add_tasks cb k p)\<lparr>full_asleep := full_asleep p @ [(cb, n - k, j)]\<rparr>)
     \<and> (k < n \<longrightarrow> max_task_size p > 0 \<and> max_task_size p \<le> length (thread_main_cbs p) + k)
     \<and> (max_task_size p > 0 \<longrightarrow> length (thread_main_cbs p) \<le> max_task_size p \<longrightarrow> length (thread_main_cbs p) + k \<le> max_task_size p)"
proof (induction n arbitrary: p)
  case 0
  then show ?case by (simp add: add_tasks_def signal_empty_cv_def)
next
  case (Suc n)
  let ?p = "add_tasks cb 1 p"
  have add: "add_tasks cb k ?p = add_tasks cb (Suc k) p" for k by (simp add: add_tasks_def)
  have sel: "full_asleep ?p = full_asleep p" "owner ?p = owner p" "max_task_size ?p = max_task_size p"
      "length (thread_main_cbs ?p) = Suc (length (thread_main_cbs p))"
    by (simp_all add: add_tasks_def)
  show ?case
  proof (cases "pool_full p")
    case True
    then show ?thesis by (intro exI [of _ 0]) (simp add: add_tasks_def pool_full_def)
  next
    case False
    obtain k where k: "k \<le> n" "push_tasks c cb n j ?p =
         Inr (if k = n then (signal_empty_cv c (add_tasks cb (Suc k) p))\<lparr>owner := (if j then Owner_joinall else owner p)\<rparr>
              else (add_tasks cb (Suc k) p)\<lparr>full_asleep := full_asleep p @ [(cb, n - k, j)]\<rparr>)"
        "k < n \<longrightarrow> max_task_size p > 0 \<and> max_task_size p \<le> Suc (length (thread_main_cbs p)) + k"
        "max_task_size p > 0 \<longrightarrow> Suc (length (thread_main_cbs p)) \<le> max_task_size p
           \<longrightarrow> Suc (length (thread_main_cbs p)) + k \<le> max_task_size p"
      using Suc.IH [of ?p] unfolding sel add by (elim exE conjE) (rule that)
    have "push_tasks c cb (Suc n) j p = push_tasks c cb n j ?p" using False by (simp add: add_tasks_def)
    with k False show ?thesis by (intro exI [of _ "Suc k"]) (auto simp: pool_full_def)
  qed
qed

lemma tasks_add:
  "tasks_ok p \<Longrightarrow> max_task_size p > 0 \<longrightarrow> length (thread_main_cbs p) + k \<le> max_task_size p \<Longrightarrow> tasks_ok (add_tasks cb k p)"
  by (auto simp: tasks_ok_def add_tasks_def)

lemma tasks_frame [simp]:
  "tasks_ok (p\<lparr>owner := x\<rparr>) = tasks_ok p" "tasks_ok (p\<lparr>full_asleep := y\<rparr>) = tasks_ok p" "tasks_ok (p\<lparr>full_woken := y\<rparr>) = tasks_ok p"
  "tasks_ok (signal_empty_cv c p) = tasks_ok p"
  by (simp_all add: tasks_ok_def signal_empty_cv_def)

lemma no_null_signal_empty: "no_null p \<Longrightarrow> no_null (signal_empty_cv c p)"
  by (auto simp: no_null_def signal_empty_cv_def dest: wake_worker_other [rotated])

lemma no_null_add: "no_null p \<Longrightarrow> cb \<noteq> None \<Longrightarrow> no_null (add_tasks cb k p)"
  by (auto simp: no_null_def add_tasks_def)

lemma signal_empty_inv:
  assumes inv: "tpool_inv p"
  shows "tpool_inv (signal_empty_cv c p)"
proof -
  have "owner_ok (signal_empty_cv c p)"
    by (rule phase_cong [of p]) (use inv in \<open>auto simp: tpool_inv_def signal_empty_cv_def dest: wake_worker_other [rotated]\<close>)
  moreover have "awake_ok (signal_empty_cv c p)" using inv wake_worker_alive [of _ "threads p" c] by (auto simp: tpool_inv_def awake_ok_def signal_empty_cv_def alive_def)
  ultimately show ?thesis using inv by (simp add: tpool_inv_def)
qed

lemma push_task_inv:
  assumes inv: "tpool_inv p" and own: "owner p = Owner_free \<or> owner p = Owner_stop" and cb: "cb \<noteq> None"
  shows "\<exists>q. push_tasks c cb n False p = Inr q \<and> tpool_inv q"
proof -
  obtain k where k: "k \<le> n" "push_tasks c cb n False p =
       Inr (if k = n then (signal_empty_cv c (add_tasks cb k p))\<lparr>owner := owner p\<rparr>
            else (add_tasks cb k p)\<lparr>full_asleep := full_asleep p @ [(cb, n - k, False)]\<rparr>)"
      "k < n \<longrightarrow> max_task_size p > 0 \<and> max_task_size p \<le> length (thread_main_cbs p) + k"
      "max_task_size p > 0 \<longrightarrow> length (thread_main_cbs p) \<le> max_task_size p \<longrightarrow> length (thread_main_cbs p) + k \<le> max_task_size p"
    using push_tasks_result [of n c cb False p] unfolding if_False by (elim exE conjE) (rule that)
  have t: "tasks_ok (add_tasks cb k p)" using inv k(4) by (intro tasks_add) (auto simp: tpool_inv_def tasks_ok_def)
  have nn: "no_null p" using inv own by (auto simp: tpool_inv_def owner_ok_def)
  then have na: "no_null (add_tasks cb k p)" using cb by (rule no_null_add)
  show ?thesis
  proof (cases "k = n")
    case True
    let ?q = "(signal_empty_cv c (add_tasks cb k p))\<lparr>owner := owner p\<rparr>"
    have "owner_ok ?q"
      using inv own no_null_signal_empty [OF na, of c]
      by (auto simp: tpool_inv_def owner_ok_def no_null_def signal_empty_cv_def add_tasks_def dest: wake_worker_other [rotated] split: if_splits)
    moreover have "awake_ok ?q"
    proof (cases "tp_running p \<and> threads p \<noteq> []")
      case True
      then have "W_exited \<notin> set (threads p)" using inv own by (auto simp: tpool_inv_def owner_ok_def)
      with True have "hd (threads p) \<in> set (threads p)" "hd (threads p) \<noteq> W_exited" by (auto dest: hd_in_set)
      from wake_worker_alive [OF this] show ?thesis by (simp add: awake_ok_def signal_empty_cv_def add_tasks_def)
    qed (auto simp: awake_ok_def signal_empty_cv_def add_tasks_def)
    ultimately show ?thesis using True t k(2) by (simp add: tpool_inv_def)
  next
    case False
    let ?q = "(add_tasks cb k p)\<lparr>full_asleep := full_asleep p @ [(cb, n - k, False)]\<rparr>"
    have "no_null ?q" using na cb by (auto simp: no_null_def add_tasks_def)
    then have "owner_ok ?q" using inv own by (auto simp: tpool_inv_def owner_ok_def add_tasks_def split: if_splits)
    moreover have "awake_ok ?q" using False k(1,3) by (simp add: awake_ok_def add_tasks_def)
    ultimately show ?thesis using False t k(2) by (simp add: tpool_inv_def)
  qed
qed

lemma draining_add: "draining n p \<Longrightarrow> k \<le> n \<Longrightarrow> draining (n - k) (add_tasks None k p)"
proof -
  assume d: "draining n p" and k: "k \<le> n"
  then obtain xs m where "thread_main_cbs p = map Some xs @ replicate m None" "m + n + quits (threads p) = length (threads p)"
      "quits (threads p) > 0 \<longrightarrow> xs = []" "tp_running p" "int (length (threads p)) = tp_num_threads p"
    by (auto simp: draining_def)
  with k show ?thesis
    unfolding draining_def add_tasks_def by (intro conjI exI [of _ xs] exI [of _ "m + k"]) (simp_all add: replicate_add)
qed

lemma push_nulls_inv:
  assumes t: "tasks_ok p" and own: "owner p = Owner_pushing" and none: "full_asleep p = []" "full_woken p = []"
    and d: "draining n p" and ws: "threads p \<noteq> []"
  shows "\<exists>q. push_tasks c None n True p = Inr q \<and> tpool_inv q"
proof -
  obtain k where k: "k \<le> n" "push_tasks c None n True p =
       Inr (if k = n then (signal_empty_cv c (add_tasks None k p))\<lparr>owner := Owner_joinall\<rparr>
            else (add_tasks None k p)\<lparr>full_asleep := full_asleep p @ [(None, n - k, True)]\<rparr>)"
      "k < n \<longrightarrow> max_task_size p > 0 \<and> max_task_size p \<le> length (thread_main_cbs p) + k"
      "max_task_size p > 0 \<longrightarrow> length (thread_main_cbs p) \<le> max_task_size p \<longrightarrow> length (thread_main_cbs p) + k \<le> max_task_size p"
    using push_tasks_result [of n c None True p] unfolding if_True by (elim exE conjE) (rule that)
  have t': "tasks_ok (add_tasks None k p)" using t k(4) by (intro tasks_add) (auto simp: tasks_ok_def)
  have d': "draining (n - k) (add_tasks None k p)" by (rule draining_add [OF d k(1)])
  show ?thesis
  proof (cases "k = n")
    case True
    let ?q = "(signal_empty_cv c (add_tasks None k p))\<lparr>owner := Owner_joinall\<rparr>"
    have dq: "draining 0 ?q" using d' True by (simp add: draining_def signal_empty_cv_def)
    then have ph: "owner_ok ?q" using none by (simp add: owner_ok_def signal_empty_cv_def add_tasks_def)
    have "awake_ok ?q"
    proof (cases "thread_main_cbs ?q = []")
      case False
      from draining_less [OF dq False] ws have "quits (threads p) < length (threads p)" by (simp add: signal_empty_cv_def add_tasks_def)
      from quits_less [OF this] obtain w where "w \<in> set (threads p)" "w \<noteq> W_exited" by blast
      from wake_worker_alive [OF this, of c] show ?thesis by (simp add: awake_ok_def signal_empty_cv_def add_tasks_def)
    qed (simp add: awake_ok_def)
    with ph t' True k(2) show ?thesis by (simp add: tpool_inv_def)
  next
    case False
    let ?q = "(add_tasks None k p)\<lparr>full_asleep := full_asleep p @ [(None, n - k, True)]\<rparr>"
    from False k(1) obtain m where m: "n - k = Suc m" by (metis Suc_diff_Suc le_neq_implies_less)
    have "draining (Suc m) ?q" using d' m by (simp add: draining_def)
    then have "owner_ok ?q" using none own m by (simp add: owner_ok_def add_tasks_def)
    moreover have "awake_ok ?q" using False k(1,3) by (simp add: awake_ok_def add_tasks_def)
    ultimately show ?thesis using False t' k(2) by (simp add: tpool_inv_def)
  qed
qed

text \<open>A pool without threads runs everything in the caller.\<close>

definition inline_ok :: "'a thread_pool \<Rightarrow> bool" where
  "inline_ok p \<longleftrightarrow> (tp_num_threads p \<le> 0 \<longrightarrow> thread_main_cbs p = [] \<and> threads p = [] \<and> full_asleep p = [] \<and> full_woken p = [])"

lemma push_tasks_num: "push_tasks c cb n j p = Inr q \<Longrightarrow> tp_num_threads q = tp_num_threads p"
proof (induction n arbitrary: p)
  case (Suc n)
  from Suc.prems Suc.IH show ?case by (cases "pool_full p") auto
qed (auto simp: signal_empty_cv_def)

lemma worker_step_num: "worker_step c i p = Inr q \<Longrightarrow> tp_num_threads q = tp_num_threads p"
  by (auto simp: worker_step_def take_task_def set_worker_def signal_empty_cv_def Let_def split: worker.splits option.splits if_splits)

lemma inline_step:
  assumes "inline_ok p" and "tpool_next p x = Inr q"
  shows "inline_ok q"
proof (cases "tp_num_threads p \<le> 0")
  case True
  with assms(1) have p: "thread_main_cbs p = []" "threads p = []" "full_asleep p = []" "full_woken p = []" by (simp_all add: inline_ok_def)
  show ?thesis
    using assms(2) p True
    by (cases x) (auto simp: inline_ok_def start_pool_def pool_run_task_def run_inline_def run_task_again_def worker_step_def signal_empty_cv_def
        signal_full_cv_def stop_pool_def broadcast_empty_cv_def joinall_def join_threads_def wake_worker_def sleeping_def Let_def
        split: option.splits owner_pc.splits if_splits)
next
  case False
  have "tp_num_threads q = tp_num_threads p"
    using assms(2)
    by (cases x) (auto simp: start_pool_def pool_run_task_def run_inline_def run_task_again_def signal_empty_cv_def
        stop_pool_def broadcast_empty_cv_def joinall_def join_threads_def Let_def
        dest: push_tasks_num worker_step_num split: option.splits owner_pc.splits prod.splits if_splits)
  with False show ?thesis by (simp add: inline_ok_def)
qed

lemma pool_run_task_inv:
  assumes inv: "tpool_inv p" "inline_ok p" and perm: "owner p = Owner_free" "tp_running p" "cb \<noteq> None"
  shows "\<exists>q. pool_run_task c cb n False p = Inr q \<and> tpool_inv q"
proof (cases "threads p = []")
  case False
  then show ?thesis using push_task_inv [OF inv(1) _ perm(3)] perm by (simp add: pool_run_task_def)
next
  case True
  obtain f where f: "cb = Some f" using perm(3) by auto
  let ?q = "run_inline cb (nat n) False p"
  have q: "?q = p\<lparr>submitted := submitted p @ replicate (nat n) cb, tp_taken := tp_taken p @ replicate (nat n) cb, tp_executed := tp_executed p @ replicate (nat n) f,
      owner := owner p\<rparr>"
    by (simp add: run_inline_def f)
  have "tp_num_threads p = 0" using inv(1) True perm by (simp add: tpool_inv_def owner_ok_def)
  then have c: "thread_main_cbs p = []" using inv(2) by (simp add: inline_ok_def)
  have "owner_ok ?q" by (rule phase_cong [of p]) (use inv in \<open>simp_all add: tpool_inv_def q\<close>)
  moreover have "awake_ok ?q" using True by (simp add: awake_ok_def q)
  moreover have "tasks_ok ?q" unfolding q using inv(1) True c by (simp add: tpool_inv_def tasks_ok_def f jobs_def)
  ultimately show ?thesis using True perm by (simp add: pool_run_task_def tpool_inv_def)
qed

lemma joinall_inv:
  assumes inv: "tpool_inv p" "inline_ok p" and perm: "owner p = Owner_free" "tp_running p" "full_asleep p = []" "full_woken p = []"
  shows "\<exists>q. joinall c p = Inr q \<and> tpool_inv q"
proof -
  let ?p = "p\<lparr>owner := Owner_pushing\<rparr>"
  have ph: "no_null p" "W_exited \<notin> set (threads p)" "int (length (threads p)) = tp_num_threads p"
    using inv(1) perm by (simp_all add: tpool_inv_def owner_ok_def)
  have qz: "quits (threads p) = 0" using ph by (simp add: quits_zero no_null_def)
  have cbs: "thread_main_cbs p = map Some (somes (thread_main_cbs p))"
  proof -
    have "None \<notin> set ys \<Longrightarrow> ys = map Some (somes ys)" for ys :: "'a option list" by (induction ys rule: somes.induct) auto
    then show ?thesis using ph(1) by (simp add: no_null_def)
  qed
  have d: "draining (nat (tp_num_threads p)) ?p"
    unfolding draining_def using ph(3) qz perm(2) cbs by (intro conjI exI [of _ "somes (thread_main_cbs p)"] exI [of _ 0]) simp_all
  have t: "tasks_ok ?p" using inv(1) by (simp add: tpool_inv_def)
  show ?thesis
  proof (cases "threads p = []")
    case False
    then show ?thesis using push_nulls_inv [OF t _ _ _ d, of c] perm by (simp add: joinall_def pool_run_task_def)
  next
    case True
    let ?q = "p\<lparr>owner := Owner_joinall\<rparr>"
    have "draining 0 ?q" using d True ph(3) by (auto simp: draining_def)
    then have "owner_ok ?q" using perm by (simp add: owner_ok_def)
    then have "tpool_inv ?q" using t True by (simp add: tpool_inv_def awake_ok_def)
    then show ?thesis using True perm by (simp add: joinall_def pool_run_task_def run_inline_def)
  qed
qed

lemma stop_inv:
  assumes inv: "tpool_inv p" and perm: "owner p = Owner_free" "tp_running p"
  shows "\<exists>q. stop_pool p = Inr q \<and> tpool_inv q"
proof -
  let ?ws = "map (\<lambda>w. if w = W_asleep then W_lock else w) (threads p)"
  have j: "jobs ?ws = jobs (threads p)" unfolding jobs_def map_map by (rule arg_cong [of _ _ concat]) (auto intro!: map_cong)
  have "no_null p" using inv perm by (simp add: tpool_inv_def owner_ok_def)
  then have "owner_ok (broadcast_empty_cv (p\<lparr>tp_running := False, owner := Owner_stop\<rparr>))"
    by (auto simp: owner_ok_def no_null_def broadcast_empty_cv_def split: if_splits)
  then show ?thesis using inv perm j by (simp add: stop_pool_def tpool_inv_def tasks_ok_def awake_ok_def broadcast_empty_cv_def)
qed

lemma start_inv:
  assumes inv: "tpool_inv p" and perm: "owner p = Owner_free" "\<not> tp_running p" "tp_num_threads p \<ge> 0"
  shows "\<exists>q. start_pool p = Inr q \<and> tpool_inv q"
proof -
  let ?ws = "replicate (nat (tp_num_threads p)) W_start :: 'a worker list"
  have p: "threads p = []" "no_null p" "tasks_ok p" using inv perm by (simp_all add: tpool_inv_def owner_ok_def)
  have j: "jobs ?ws = []" by (simp add: jobs_def)
  have inv': "tpool_inv (p\<lparr>tp_running := True, threads := ?ws, init_calls := m\<rparr>)" for m
    using p perm j by (auto simp: tpool_inv_def owner_ok_def no_null_def tasks_ok_def awake_ok_def alive_def jobs_def)
  show ?thesis using inv' [of "init_calls p"] inv' [of "init_calls p + 1"] p perm by (auto simp: start_pool_def Let_def)
qed

lemma join_inv:
  assumes inv: "tpool_inv p" and inl: "inline_ok p"
  shows "\<exists>q. join_threads p = Inr q \<and> tpool_inv q"
proof (cases "list_all (\<lambda>w. w = W_exited) (threads p)")
  case True
  have ex: "quits (threads p) = length (threads p)" "jobs (threads p) = []" using all_exited [OF True] by simp_all
  have t: "tasks_ok p" and ph: "owner_ok p" using inv by (simp_all add: tpool_inv_def)
  show ?thesis
  proof (cases "owner p")
    case Owner_joinall
    have d: "draining 0 p" "full_asleep p = []" "full_woken p = []" using ph Owner_joinall by (simp_all add: owner_ok_def)
    have c: "thread_main_cbs p = []"
    proof (cases "threads p = []")
      case True
      then show ?thesis using d(1) inl by (simp add: draining_def inline_ok_def)
    next
      case False
      then show ?thesis using draining_less [OF d(1)] ex by auto
    qed
    have "tpool_inv (p\<lparr>threads := [], tp_running := False, owner := Owner_free\<rparr>)"
      using t ex c d by (simp add: tpool_inv_def owner_ok_def no_null_def tasks_ok_def awake_ok_def)
    then show ?thesis using True Owner_joinall c by (simp add: join_threads_def)
  next
    case Owner_stop
    then show ?thesis
      using True t ph ex by (auto simp: join_threads_def tpool_inv_def owner_ok_def no_null_def tasks_ok_def awake_ok_def)
  qed (use True inv in \<open>simp_all add: join_threads_def\<close>)
qed (use inv in \<open>simp add: join_threads_def\<close>)

lemma run_task_again_inv:
  assumes inv: "tpool_inv p"
  shows "\<exists>q. run_task_again c k p = Inr q \<and> tpool_inv q"
proof (cases "k < length (full_woken p)")
  case k: True
  obtain cb n j where e: "full_woken p ! k = (cb, n, j)" by (cases "full_woken p ! k") auto
  let ?p = "p\<lparr>full_woken := remove_nth k (full_woken p)\<rparr>"
  have t: "tasks_ok ?p" and ph: "owner_ok p" using inv by (simp_all add: tpool_inv_def)
  have mem: "(cb, n, j) \<in> set (full_woken p)" using k e nth_mem by metis
  show ?thesis
  proof (cases "owner p")
    case Owner_pushing
    with ph obtain m where m: "full_asleep p @ full_woken p = [(None, Suc m, True)]" "draining (Suc m) p" by (auto simp: owner_ok_def)
    have w: "full_asleep p = []" "full_woken p = [(None, Suc m, True)]" using m(1) k by (auto simp: append_eq_Cons_conv)
    with k e have ee: "k = 0" "cb = None" "n = Suc m" j by simp_all
    have d: "draining (Suc m) ?p" using m(2) by (simp add: draining_def)
    have "threads p \<noteq> []" using m(2) by (auto simp: draining_def)
    then show ?thesis
      using push_nulls_inv [OF t _ _ _ d, of c] Owner_pushing w ee e by (simp add: run_task_again_def remove_nth_def)
  next
    case Owner_joinall
    then show ?thesis using ph k by (simp add: owner_ok_def)
  next
    case Owner_free
    have nn: "no_null p" using ph Owner_free by (simp add: owner_ok_def)
    then have cb: "cb \<noteq> None" "\<not> j" using mem by (auto simp: no_null_def list_all_iff)
    have "no_null ?p" using nn by (auto simp: no_null_def remove_nth_def list_all_iff dest: in_set_takeD in_set_dropD)
    then have "tpool_inv ?p" using inv Owner_free by (simp add: tpool_inv_def owner_ok_def awake_ok_def)
    then show ?thesis using push_task_inv [of ?p cb c n] Owner_free cb k e by (simp add: run_task_again_def)
  next
    case Owner_stop
    have nn: "no_null p" using ph Owner_stop by (simp add: owner_ok_def)
    then have cb: "cb \<noteq> None" "\<not> j" using mem by (auto simp: no_null_def list_all_iff)
    have "no_null ?p" using nn by (auto simp: no_null_def remove_nth_def list_all_iff dest: in_set_takeD in_set_dropD)
    then have "tpool_inv ?p" using inv Owner_stop by (simp add: tpool_inv_def owner_ok_def awake_ok_def)
    then show ?thesis using push_task_inv [of ?p cb c n] Owner_stop cb k e by (simp add: run_task_again_def)
  qed
qed (use inv in \<open>simp add: run_task_again_def\<close>)

lemma tpool_next_inv:
  assumes inv: "tpool_inv p" "inline_ok p" and perm: "pool_permitted p x"
  shows "\<exists>q. tpool_next p x = Inr q \<and> tpool_inv q"
proof (cases x)
  case Pool_start
  then show ?thesis using start_inv [OF inv(1)] perm by simp
next
  case (Pool_run_task c cb n)
  then show ?thesis using pool_run_task_inv [OF inv] perm by auto
next
  case (Pool_joinall c)
  then show ?thesis using joinall_inv [OF inv] perm by simp
next
  case Pool_stop
  then show ?thesis using stop_inv [OF inv(1)] perm by simp
qed (use inv in \<open>simp_all add: run_task_again_inv worker_step_inv signal_empty_inv signal_full_inv join_inv\<close>)

lemma new_pool_inv: "tpool_inv (new_thread_pool n m ini)" "inline_ok (new_thread_pool n m ini)"
  by (simp_all add: new_thread_pool_def tpool_inv_def tasks_ok_def owner_ok_def awake_ok_def no_null_def jobs_def inline_ok_def)

lemma tpool_step_next: "tpool_step p x = Inr (u, q) \<longleftrightarrow> tpool_next p x = Inr q"
  by (auto simp: tpool_step_def)

lemma pool_reach_inv: "pool_reach p \<Longrightarrow> tpool_inv p \<and> inline_ok p"
proof (induction rule: pool_reach.induct)
  case (made n m ini)
  then show ?case by (simp add: new_pool_inv)
next
  case (stepped p x u p')
  then have "tpool_next p x = Inr p'" by (simp add: tpool_step_next)
  with stepped.IH stepped.hyps(2) show ?case using tpool_next_inv [of p x] inline_step [of p x p'] by auto
qed

section \<open>The lost wake-up of a bounded pool\<close>

text \<open>All workers asleep and the queue full: as \<^verbatim>\<open>run_task\<close> signals \<^verbatim>\<open>empty_cv_\<close> only behind its loop, nothing wakes a worker any more.\<close>

definition stuck :: "'a list \<Rightarrow> 'a thread_pool \<Rightarrow> bool" where
  "stuck e p \<longleftrightarrow> tp_running p \<and> threads p \<noteq> [] \<and> tp_num_threads p > 0 \<and> list_all (\<lambda>w. w = W_asleep) (threads p)
     \<and> max_task_size p > 0 \<and> length (thread_main_cbs p) = max_task_size p \<and> full_woken p = [] \<and> tp_executed p = e"

text \<open>Every step but a wake-up without a signal, \<^verbatim>\<open>stop\<close>, and the submission of no task at all.\<close>

fun quiet :: "'a tpool_op \<Rightarrow> bool" where
  "quiet (Pool_wake_worker c) = False"
| "quiet (Pool_wake_producer c) = False"
| "quiet Pool_stop = False"
| "quiet (Pool_run_task c cb n) = (n > 0)"
| "quiet _ = True"

lemma stuck_push: "stuck e p \<Longrightarrow> n > 0 \<Longrightarrow> push_tasks c cb n j p = Inr (p\<lparr>full_asleep := full_asleep p @ [(cb, n, j)]\<rparr>)"
  by (cases n) (simp_all add: stuck_def pool_full_def)

lemma stuck_frame [simp]: "stuck e (p\<lparr>full_asleep := x\<rparr>) = stuck e p" "stuck e (p\<lparr>owner := y\<rparr>) = stuck e p"
  by (simp_all add: stuck_def)

lemma stuck_asleep: "stuck e p \<Longrightarrow> i < length (threads p) \<Longrightarrow> threads p ! i = W_asleep"
  by (simp add: stuck_def list_all_length)

lemma stuck_next:
  assumes st: "stuck e p" and q: "quiet x"
  shows "tpool_next p x = Inl Check_failed \<or> (\<exists>p'. tpool_next p x = Inr p' \<and> stuck e p')"
proof -
  have p: "tp_running p" "threads p \<noteq> []" "tp_num_threads p > 0" "full_woken p = []" using st by (simp_all add: stuck_def)
  have nx: "\<not> list_all (\<lambda>w. w = W_exited) (threads p)"
    using stuck_asleep [OF st, of 0] p(2) by (auto simp: list_all_length intro!: exI [of _ 0])
  show ?thesis
  proof (cases x)
    case (Pool_run_task c cb n)
    then show ?thesis using st q p stuck_push [OF st, of "nat n"] by (simp add: pool_run_task_def)
  next
    case (Pool_joinall c)
    have "stuck e (p\<lparr>owner := Owner_pushing\<rparr>)" using st by simp
    from stuck_push [OF this, of "nat (tp_num_threads p)"] show ?thesis using Pool_joinall st p by (simp add: joinall_def pool_run_task_def)
  next
    case (Pool_worker c i)
    then show ?thesis using st stuck_asleep [OF st, of i] by (simp add: worker_step_def)
  qed (use st q p nx in \<open>simp_all add: start_pool_def run_task_again_def join_threads_def check_def\<close>)
qed

interpretation asleep: step_invariant "stuck e" tpool_step quiet "\<lambda>f. f = Check_failed" for e
proof
  fix p :: "'a thread_pool" and x f
  assume "stuck e p" "quiet x" "tpool_step p x = Inl f"
  then show "f = Check_failed" using stuck_next [of e p x] by (auto simp: tpool_step_def)
next
  fix p :: "'a thread_pool" and x u p'
  assume "stuck e p" "quiet x" "tpool_step p x = Inr (u, p')"
  then show "stuck e p'" using stuck_next [of e p x] by (auto simp: tpool_step_def)
qed

section \<open>Properties\<close>

text \<open>C12: A thread pool runs what it is given. In every reachable state, under every schedule: no step that is permitted fails a check; the tasks
  leave the queue in the order they went in, and each task taken is run once or is about to be run by the worker that took it; a bounded queue stays in its bound;
  and while an unbounded pool has a task in its queue, some worker is awake.\<close>

theorem thread_pool_runs_tasks:
  assumes "pool_reach p"
  shows "(\<forall>x. pool_permitted p x \<longrightarrow> (\<exists>q. tpool_step p x = Inr ((), q)))
    \<and> tp_taken p @ thread_main_cbs p = submitted p
    \<and> mset (tp_executed p) + mset (jobs (threads p)) = mset (somes (tp_taken p))
    \<and> (max_task_size p > 0 \<longrightarrow> get_task_size p \<le> max_task_size p)
    \<and> (max_task_size p = 0 \<longrightarrow> tp_running p \<longrightarrow> thread_main_cbs p \<noteq> [] \<longrightarrow> threads p \<noteq> [] \<longrightarrow> (\<exists>w \<in> set (threads p). alive w))"
proof -
  have inv: "tpool_inv p" "inline_ok p" using pool_reach_inv [OF assms] by simp_all
  have "\<exists>q. tpool_step p x = Inr ((), q)" if "pool_permitted p x" for x
    using tpool_next_inv [OF inv that] by (auto simp: tpool_step_def)
  with inv(1) show ?thesis by (auto simp: tpool_inv_def tasks_ok_def awake_ok_def get_task_size_def)
qed


text \<open>C38: A bounded pool can hang. When all workers sleep and one call of \<^verbatim>\<open>run_task\<close> submits more tasks than the queue may hold, the call waits on
  \<^verbatim>\<open>full_cv_\<close> before it has signalled \<^verbatim>\<open>empty_cv_\<close>: whatever the workers, the producers and the owner do afterwards, short of
  \<^verbatim>\<open>stop\<close> and of wake-ups without a signal, all workers sleep on, the queue stays full and none of the tasks is run.\<close>

theorem run_task_deadlock:
  assumes "tp_running p" and "threads p \<noteq> []" and "tp_num_threads p > 0" and "list_all (\<lambda>w. w = W_asleep) (threads p)"
    and "thread_main_cbs p = []" and "full_woken p = []" and "0 < max_task_size p" and "int (max_task_size p) < n"
    and "list_all quiet ops" and "run_steps tpool_step p (Pool_run_task c cb n # ops) = Inr (us, q)"
  shows "list_all (\<lambda>w. w = W_asleep) (threads q) \<and> get_task_size q = max_task_size q \<and> tp_executed q = tp_executed p"
proof -
  obtain us' p1 where st: "tpool_step p (Pool_run_task c cb n) = Inr ((), p1)" and run: "run_steps tpool_step p1 ops = Inr (us', q)"
    using assms(10) by auto
  obtain k where k: "k \<le> nat n" "push_tasks c cb (nat n) False p =
       Inr (if k = nat n then (signal_empty_cv c (add_tasks cb k p))\<lparr>owner := owner p\<rparr>
            else (add_tasks cb k p)\<lparr>full_asleep := full_asleep p @ [(cb, nat n - k, False)]\<rparr>)"
      "k < nat n \<longrightarrow> max_task_size p > 0 \<and> max_task_size p \<le> length (thread_main_cbs p) + k"
      "max_task_size p > 0 \<longrightarrow> length (thread_main_cbs p) \<le> max_task_size p \<longrightarrow> length (thread_main_cbs p) + k \<le> max_task_size p"
    using push_tasks_result [of "nat n" c cb False p] unfolding if_False by (elim exE conjE) (rule that)
  have "k \<noteq> nat n" using assms(5,7,8) k(4) by auto
  then have "k = max_task_size p" and p1: "p1 = (add_tasks cb k p)\<lparr>full_asleep := full_asleep p @ [(cb, nat n - k, False)]\<rparr>"
    using k st assms(1,2,5) by (simp_all add: tpool_step_def pool_run_task_def)
  then have "stuck (tp_executed p) p1" using assms by (simp add: stuck_def add_tasks_def)
  from asleep.run_inv [OF this assms(9) run] show ?thesis by (simp add: stuck_def get_task_size_def)
qed

section \<open>Witnesses\<close>

text \<open>A run of permitted steps.\<close>

fun pool_exec :: "'a thread_pool \<Rightarrow> 'a tpool_op list \<Rightarrow> 'a thread_pool option" where
  "pool_exec p [] = Some p"
| "pool_exec p (x # xs) = (if pool_permitted p x then (case tpool_next p x of Inl _ \<Rightarrow> None | Inr q \<Rightarrow> pool_exec q xs) else None)"

lemma pool_exec_reach: "pool_exec p xs = Some q \<Longrightarrow> pool_reach p \<Longrightarrow> pool_reach q"
proof (induction xs arbitrary: p)
  case (Cons x xs)
  from Cons.prems(1) obtain p1 where p1: "pool_permitted p x" "tpool_next p x = Inr p1" "pool_exec p1 xs = Some q"
    by (auto split: if_splits sum.splits)
  then have "tpool_step p x = Inr ((), p1)" by (simp add: tpool_step_next)
  with Cons.prems(2) p1(1) have "pool_reach p1" by (rule pool_reach.stepped)
  from Cons.IH [OF p1(3) this] show ?case .
qed simp

lemmas pool_exec_new = pool_exec_reach [OF _ pool_reach.made]

definition sleeper :: "nat \<Rightarrow> nat thread_pool option" where
  "sleeper m = pool_exec (new_thread_pool 1 m False) [Pool_start, Pool_worker 0 0, Pool_worker 0 0, Pool_worker 0 0]"

definition busy_run :: "nat tpool_op list" where
  "busy_run = [Pool_start, Pool_worker 0 0, Pool_worker 0 0, Pool_worker 0 0, Pool_run_task 0 (Some 7) 2, Pool_worker 0 0]"

theorem thread_pool_runs_tasks_witness:
  "\<exists>p. pool_exec (new_thread_pool 1 0 False) busy_run = Some p \<and> pool_reach p \<and> max_task_size p = 0 \<and> tp_running p
     \<and> thread_main_cbs p = [Some 7] \<and> tp_taken p = [Some 7] \<and> pool_permitted p (Pool_joinall 0)
     \<and> (\<exists>q. tpool_step p (Pool_joinall 0) = Inr ((), q)) \<and> (\<exists>w \<in> set (threads p). alive w)"
proof -
  have "map_option (\<lambda>p. (max_task_size p, tp_running p, thread_main_cbs p, tp_taken p, threads p, owner p, full_asleep p, full_woken p))
      (pool_exec (new_thread_pool 1 0 False) busy_run) = Some (0, True, [Some 7], [Some 7], [W_task (Some 7)], Owner_free, [], [])"
    by code_simp
  then obtain p where p: "pool_exec (new_thread_pool 1 0 False) busy_run = Some p" "max_task_size p = 0" "tp_running p"
      "thread_main_cbs p = [Some 7]" "tp_taken p = [Some 7]" "threads p = [W_task (Some 7)]" "pool_permitted p (Pool_joinall 0)"
    by auto
  have r: "pool_reach p" using p(1) by (rule pool_exec_new)
  have "(\<exists>q. tpool_step p (Pool_joinall 0) = Inr ((), q)) \<and> (\<exists>w \<in> set (threads p). alive w)"
    using thread_pool_runs_tasks [OF r] p(2,3,7) by (auto simp: p(4,6))
  with r p show ?thesis by blast
qed

definition joined_run :: "nat tpool_op list" where
  "joined_run = busy_run @ [Pool_joinall 0, Pool_worker 0 0, Pool_worker 0 0, Pool_worker 0 0, Pool_worker 0 0, Pool_worker 0 0, Pool_worker 0 0, Pool_worker 0 0]"


text \<open>A task that is submitted while \<^verbatim>\<open>joinall\<close> waits for the workers comes behind the null tasks that end them: it is
  not run, and the last check of \<^verbatim>\<open>joinall\<close> fails.\<close>

definition late_task_run :: "nat tpool_op list" where
  "late_task_run = busy_run @ [Pool_joinall 0, Pool_run_task 0 (Some 8) 1, Pool_worker 0 0, Pool_worker 0 0, Pool_worker 0 0, Pool_worker 0 0,
     Pool_worker 0 0, Pool_worker 0 0, Pool_worker 0 0, Pool_join]"

lemma run_task_during_joinall_aborts:
  "run_steps tpool_step (new_thread_pool 1 0 False) late_task_run = Inl Check_failed"
proof -
  have "(case run_steps tpool_step (new_thread_pool 1 0 False) late_task_run of Inl f \<Rightarrow> Some f | Inr _ \<Rightarrow> None) = Some Check_failed"
    by code_simp
  then show ?thesis by (simp split: sum.splits)
qed

theorem run_task_deadlock_witness:
  "\<exists>p us q. sleeper 1 = Some p \<and> run_steps tpool_step p [Pool_run_task 0 (Some 7) 2, Pool_worker 0 0, Pool_run_task 0 (Some 8) 1, Pool_worker 0 0] = Inr (us, q)
     \<and> threads q = [W_asleep] \<and> get_task_size q = 1 \<and> tp_executed q = []"
proof -
  let ?ops = "[Pool_worker 0 0, Pool_run_task 0 (Some 8) 1, Pool_worker 0 0] :: nat tpool_op list"
  have "map_option (\<lambda>p. (threads p, tp_num_threads p, max_task_size p, thread_main_cbs p, full_woken p, tp_running p, tp_executed p)) (sleeper 1)
      = Some ([W_asleep], 1, 1, [], [], True, [])"
    by code_simp
  then obtain p where p: "sleeper 1 = Some p" "threads p = [W_asleep]" "tp_num_threads p = 1" "max_task_size p = 1" "thread_main_cbs p = []"
      "full_woken p = []" "tp_running p" "tp_executed p = []"
    by auto
  obtain us q where run: "run_steps tpool_step p (Pool_run_task 0 (Some 7) 2 # ?ops) = Inr (us, q)" and q: "max_task_size q = 1" "length (threads q) = 1"
    using p by (simp add: tpool_step_def pool_run_task_def pool_full_def worker_step_def numeral_2_eq_2)
  have "list_all (\<lambda>w. w = W_asleep) (threads q) \<and> get_task_size q = max_task_size q \<and> tp_executed q = tp_executed p"
    by (rule run_task_deadlock [OF _ _ _ _ _ _ _ _ _ run]) (use p in simp_all)
  then have "threads q = [W_asleep]" "get_task_size q = 1" "tp_executed q = []" using q p by (auto simp: length_Suc_conv)
  with p(1) run show ?thesis by blast
qed

end
