(* ===== verification/String_Util.thy ===== *)
theory String_Util
  imports String_Piece "HOL-Library.Char_ord"
begin

text \<open>
  String utilities (include/strings/StringUtil.h, src/StringUtil.cc): bounded copy, ASCII case, comparison, trimming, joining, and the
  replacement of characters and substrings.

  A string is the list of its characters. The in-place routines write through \<^const>\<open>write_mem\<close>, so that a write outside the
  string is a fault; loops that search on are \<open>partial_function (option)\<close>, so that a loop that does not end has the value
  \<^const>\<open>None\<close>. \<open>cap\<close> is \<^verbatim>\<open>str->capacity()\<close>. \<open>signed_char\<close> says whether \<^verbatim>\<open>char\<close> is signed.
\<close>

section \<open>Copy\<close>

definition kNul :: char where
  "kNul = CHR 0x00"

text \<open>The first loop of \<^verbatim>\<open>lcpy_T\<close> with \<open>k\<close> rounds to go: whether the terminator was copied, and where.\<close>

fun lcpy_copy :: "nat \<Rightarrow> nat \<Rightarrow> string \<Rightarrow> string \<Rightarrow> (bool \<times> nat \<times> string) res" where
  "lcpy_copy 0 i dst src = Inr (False, i, dst)"
| "lcpy_copy (Suc k) i dst src =
     (if i < length src then
        bindR (write_mem i [src ! i] dst) (\<lambda>dst1.
        if src ! i = kNul then Inr (True, i, dst1) else lcpy_copy k (Suc i) dst1 src)
      else Inl Out_of_bounds)"

function lcpy_count :: "nat \<Rightarrow> string \<Rightarrow> nat res" where
  "lcpy_count i src =
     (if i < length src then (if src ! i = kNul then Inr i else lcpy_count (Suc i) src) else Inl Out_of_bounds)"
  by pat_completeness auto
termination
  by (relation "measure (\<lambda>(i, src). length src - i)") auto

declare lcpy_count.simps [simp del]

definition strlcpy :: "string \<Rightarrow> string \<Rightarrow> nat \<Rightarrow> (nat \<times> string) res" where
  "strlcpy dst src dst_size =
     bindR (lcpy_copy dst_size 0 dst src) (\<lambda>(hit, i, dst1).
     if hit then Inr (i, dst1)
     else bindR (if dst_size \<noteq> 0 then write_mem (dst_size - 1) [kNul] dst1 else Inr dst1) (\<lambda>dst2.
          bindR (lcpy_count dst_size src) (\<lambda>n. Inr (n, dst2))))"

section \<open>Case and comparison\<close>

definition to_lower_char :: "char \<Rightarrow> char" where
  "to_lower_char c = (if CHR ''A'' \<le> c \<and> c \<le> CHR ''Z'' then char_of (uchar c + 32) else c)"

definition to_upper_char :: "char \<Rightarrow> char" where
  "to_upper_char c = (if CHR ''a'' \<le> c \<and> c \<le> CHR ''z'' then char_of (uchar c - 32) else c)"

definition to_lower :: "string \<Rightarrow> string" where
  "to_lower str = map to_lower_char str"

definition to_upper :: "string \<Rightarrow> string" where
  "to_upper str = map to_upper_char str"

definition char_val :: "bool \<Rightarrow> char \<Rightarrow> int" where
  "char_val signed_char c = (if signed_char \<and> uchar c \<ge> 128 then int (uchar c) - 256 else int (uchar c))"

fun compare_loop :: "bool \<Rightarrow> string \<Rightarrow> string \<Rightarrow> int option" where
  "compare_loop sc (a # as) (b # bs) =
     (let lower_a = to_lower_char a; lower_b = to_lower_char b in
      if char_val sc lower_a < char_val sc lower_b then Some (- 1)
      else if char_val sc lower_a > char_val sc lower_b then Some 1
      else compare_loop sc as bs)"
| "compare_loop sc _ _ = None"

definition compare_case_insensitive :: "bool \<Rightarrow> string \<Rightarrow> string \<Rightarrow> int" where
  "compare_case_insensitive sc a b =
     (case compare_loop sc a b of
        Some r \<Rightarrow> r
      | None \<Rightarrow> if length a = length b then 0 else if length a < length b then - 1 else 1)"

definition equals_case_insensitive :: "bool \<Rightarrow> string \<Rightarrow> string \<Rightarrow> bool" where
  "equals_case_insensitive sc a b \<longleftrightarrow> length a = length b \<and> compare_case_insensitive sc a b = 0"

definition contains_only_chars :: "string \<Rightarrow> string \<Rightarrow> bool" where
  "contains_only_chars input characters \<longleftrightarrow> find_first_not_of input characters 0 = npos"

definition lower_case_equals :: "string \<Rightarrow> string \<Rightarrow> bool" where
  "lower_case_equals str lowercase_ascii \<longleftrightarrow>
     length str = length lowercase_ascii \<and> list_all2 (\<lambda>c l. to_lower_char c = l) str lowercase_ascii"

datatype compare_case = SENSITIVE | INSENSITIVE

definition equal_by_case :: "compare_case \<Rightarrow> string \<Rightarrow> string \<Rightarrow> bool" where
  "equal_by_case case_sensitivity source search_for =
     (case case_sensitivity of
        SENSITIVE \<Rightarrow> piece_eq source search_for
      | INSENSITIVE \<Rightarrow> list_all2 (\<lambda>x y. to_lower_char x = to_lower_char y) source search_for)"

definition starts_with :: "string \<Rightarrow> string \<Rightarrow> compare_case \<Rightarrow> bool" where
  "starts_with str search_for cs =
     (if length search_for > length str then False else equal_by_case cs (substr str 0 (length search_for)) search_for)"

definition ends_with :: "string \<Rightarrow> string \<Rightarrow> compare_case \<Rightarrow> bool" where
  "ends_with str search_for cs =
     (if length search_for > length str then False
      else equal_by_case cs (substr str (length str - length search_for) (length search_for)) search_for)"

section \<open>Trim\<close>

datatype trim_positions = TRIM_NONE | TRIM_LEADING | TRIM_TRAILING | TRIM_ALL

definition trims_leading :: "trim_positions \<Rightarrow> bool" where
  "trims_leading p \<longleftrightarrow> p = TRIM_LEADING \<or> p = TRIM_ALL"

definition trims_trailing :: "trim_positions \<Rightarrow> bool" where
  "trims_trailing p \<longleftrightarrow> p = TRIM_TRAILING \<or> p = TRIM_ALL"

definition trim_flags :: "bool \<Rightarrow> bool \<Rightarrow> trim_positions" where
  "trim_flags l t = (if l then (if t then TRIM_ALL else TRIM_LEADING) else (if t then TRIM_TRAILING else TRIM_NONE))"

definition kWhitespace :: string where
  "kWhitespace = [CHR 0x09, CHR 0x0A, CHR 0x0B, CHR 0x0C, CHR 0x0D, CHR 0x20]"

definition trim_string_T :: "string \<Rightarrow> string \<Rightarrow> trim_positions \<Rightarrow> (trim_positions \<times> string) res" where
  "trim_string_T input trim_chars positions =
     (let last_char = size_sub (length input) 1;
          first_good_char = (if trims_leading positions then find_first_not_of input trim_chars 0 else 0);
          last_good_char = (if trims_trailing positions then find_last_not_of input trim_chars npos else last_char)
      in if input = [] \<or> first_good_char = npos \<or> last_good_char = npos
         then Inr (if input = [] then TRIM_NONE else positions, [])
         else if first_good_char > length input then Inl Out_of_bounds
         else Inr (trim_flags (first_good_char \<noteq> 0) (last_good_char \<noteq> last_char),
                   take (size_add (size_sub last_good_char first_good_char) 1) (drop first_good_char input)))"

definition trim_string_piece_T :: "string \<Rightarrow> string \<Rightarrow> trim_positions \<Rightarrow> string" where
  "trim_string_piece_T input trim_chars positions =
     (let beg = (if trims_leading positions then find_first_not_of input trim_chars 0 else 0);
          en = (if trims_trailing positions then size_add (find_last_not_of input trim_chars npos) 1 else length input)
      in substr input beg (size_sub en beg))"

definition trim_string :: "string \<Rightarrow> string \<Rightarrow> (bool \<times> string) res" where
  "trim_string input trim_chars = bindR (trim_string_T input trim_chars TRIM_ALL) (\<lambda>(p, out). Inr (p \<noteq> TRIM_NONE, out))"

definition trim_whitespace :: "string \<Rightarrow> trim_positions \<Rightarrow> (trim_positions \<times> string) res" where
  "trim_whitespace input positions = trim_string_T input kWhitespace positions"

definition trim_whitespace_piece :: "string \<Rightarrow> trim_positions \<Rightarrow> string" where
  "trim_whitespace_piece input positions = trim_string_piece_T input kWhitespace positions"

definition write_into :: "string \<Rightarrow> nat \<Rightarrow> string res" where
  "write_into str length_with_null =
     check (length_with_null > 1)
     (if length_with_null > vec_max then Inl Length_error else Inr (resize (length_with_null - 1) kNul str))"

section \<open>Join\<close>

fun join_rest :: "string list \<Rightarrow> string \<Rightarrow> string \<Rightarrow> string" where
  "join_rest [] sep result = result"
| "join_rest (p # ps) sep result = join_rest ps sep (append_to_string sep result @ p)"

definition join_string :: "string list \<Rightarrow> string \<Rightarrow> string" where
  "join_string parts sep = (case parts of [] \<Rightarrow> [] | p # ps \<Rightarrow> join_rest ps sep p)"

section \<open>Replace\<close>

text \<open>The searches of \<^verbatim>\<open>std::string\<close> the two matchers call.\<close>

definition std_string_find :: "string \<Rightarrow> string \<Rightarrow> nat \<Rightarrow> nat" where
  "std_string_find s input pos =
     (if pos > length input then npos
      else let k = std_search (drop pos input) s
           in if pos + k + length s \<le> length input then pos + k else npos)"

definition std_string_find_first_of :: "string \<Rightarrow> string \<Rightarrow> nat \<Rightarrow> nat" where
  "std_string_find_first_of cs input pos = scan_up (\<lambda>c. c \<in> set cs) input pos"

definition std_string_replace :: "nat \<Rightarrow> nat \<Rightarrow> string \<Rightarrow> string \<Rightarrow> string res" where
  "std_string_replace pos n r str = (if pos > length str then Inl Out_of_bounds else Inr (take pos str @ r @ drop (pos + n) str))"

datatype replace_type = REPLACE_ALL | REPLACE_FIRST

text \<open>\<open>mfind\<close> is the \<^verbatim>\<open>find\<close> of the matcher. Equal lengths: each match is overwritten.\<close>

partial_function (option) overwrite_loop :: "(string \<Rightarrow> nat \<Rightarrow> nat) \<Rightarrow> string \<Rightarrow> string \<Rightarrow> nat \<Rightarrow> string res option" where
  "overwrite_loop mfind r str offset =
     (if offset = npos then Some (Inr str)
      else case write_mem offset r str of
             Inl e \<Rightarrow> Some (Inl e)
           | Inr str1 \<Rightarrow> overwrite_loop mfind r str1 (mfind str1 (size_add offset (length r))))"

partial_function (option) count_matches ::
  "(string \<Rightarrow> nat \<Rightarrow> nat) \<Rightarrow> nat \<Rightarrow> nat \<Rightarrow> string \<Rightarrow> nat \<Rightarrow> nat \<Rightarrow> nat \<Rightarrow> (nat \<times> nat) option" where
  "count_matches mfind find_length per_match str mat expansion num_matches =
     (if mat = npos then Some (expansion, num_matches)
      else count_matches mfind find_length per_match str (mfind str (size_add mat find_length))
             (size_add expansion per_match) (size_add num_matches 1))"

text \<open>The new buffer: what lies between the matches, and the replacement for each. There is at least one match to count down from.\<close>

definition append_part :: "string \<Rightarrow> nat \<Rightarrow> nat \<Rightarrow> string \<Rightarrow> string res" where
  "append_part src pos n str = (if pos > length src then Inl Out_of_bounds else Inr (str @ take n (drop pos src)))"

fun build_loop :: "(string \<Rightarrow> nat \<Rightarrow> nat) \<Rightarrow> nat \<Rightarrow> string \<Rightarrow> string \<Rightarrow> nat \<Rightarrow> nat \<Rightarrow> nat \<Rightarrow> string \<Rightarrow> (nat \<times> string) res" where
  "build_loop mfind find_length r src pos mat num_matches str =
     bindR (append_part src pos (size_sub mat pos) str) (\<lambda>str1.
     let str2 = str1 @ r; pos1 = size_add mat find_length in
     case num_matches of
       0 \<Rightarrow> Inr (pos1, str2)
     | Suc n \<Rightarrow> if n = 0 then Inr (pos1, str2) else build_loop mfind find_length r src pos1 (mfind src pos1) n str2)"

declare build_loop.simps [simp del]

text \<open>The alternation of replacements and moves in place; the offsets stay inside the string.\<close>

partial_function (option) move_loop ::
  "(string \<Rightarrow> nat \<Rightarrow> nat) \<Rightarrow> nat \<Rightarrow> string \<Rightarrow> nat \<Rightarrow> string \<Rightarrow> nat \<Rightarrow> nat \<Rightarrow> (nat \<times> string) res option" where
  "move_loop mfind find_length r str_length str write_offset read_offset =
     (case (if r \<noteq> [] then write_mem write_offset r str else Inr str) of
        Inl e \<Rightarrow> Some (Inl e)
      | Inr str1 \<Rightarrow>
          let w1 = write_offset + length r;
              r1 = read_offset + find_length;
              mat = min (mfind str1 r1) str_length;
              len = size_sub mat r1
          in case (if len \<noteq> 0 then bindR (read_mem r1 len str1) (\<lambda>xs. write_mem w1 xs str1) else Inr str1) of
               Inl e \<Rightarrow> Some (Inl e)
             | Inr str2 \<Rightarrow>
                 if r1 + len < str_length then move_loop mfind find_length r str_length str2 (w1 + len) (r1 + len)
                 else Some (Inr (w1 + len, str2)))"

definition move_matches :: "(string \<Rightarrow> nat \<Rightarrow> nat) \<Rightarrow> nat \<Rightarrow> string \<Rightarrow> nat \<Rightarrow> nat \<Rightarrow> nat \<Rightarrow> string \<Rightarrow> (bool \<times> string) res option" where
  "move_matches mfind find_length r first_match expansion str_length str =
     map_option (\<lambda>res. bindR res (\<lambda>(w, str1). Inr (True, resize w kNul str1)))
       (move_loop mfind find_length r str_length str first_match (size_add first_match expansion))"

text \<open>The data after the first match is shifted to the end of the enlarged string.\<close>

definition shift_tail :: "nat \<Rightarrow> nat \<Rightarrow> nat \<Rightarrow> string \<Rightarrow> string res" where
  "shift_tail first_match find_length expansion str =
     (let shift_src = size_add first_match find_length;
          shift_dst = size_add shift_src expansion;
          str1 = (if shift_dst > length str then resize shift_dst kNul str else str);
          tail_length = size_sub (length str) shift_src
      in bindR (append_part str1 shift_src tail_length []) (\<lambda>tail.
         std_string_replace shift_dst tail_length tail str1))"

definition do_replace_matches_after_offset ::
  "(string \<Rightarrow> nat \<Rightarrow> nat) \<Rightarrow> nat \<Rightarrow> nat \<Rightarrow> string \<Rightarrow> nat \<Rightarrow> string \<Rightarrow> replace_type \<Rightarrow> (bool \<times> string) res option" where
  "do_replace_matches_after_offset mfind find_length cap str initial_offset r ty =
     (if find_length = 0 then Some (Inr (False, str))
      else let first_match = mfind str initial_offset in
      if first_match = npos then Some (Inr (False, str))
      else if ty = REPLACE_FIRST
      then Some (bindR (std_string_replace first_match find_length r str) (\<lambda>str1. Inr (True, str1)))
      else if find_length = length r
      then map_option (\<lambda>res. bindR res (\<lambda>str1. Inr (True, str1))) (overwrite_loop mfind r str first_match)
      else if length r > find_length
      then
        (case count_matches mfind find_length (length r - find_length) str first_match 0 0 of
           None \<Rightarrow> None
         | Some (expansion, num_matches) \<Rightarrow>
             let final_length = size_add (length str) expansion in
             if cap < final_length
             then if final_length > vec_max then Some (Inl Length_error)
               else Some (bindR (build_loop mfind find_length r str 0 first_match num_matches []) (\<lambda>(pos, str1).
                    bindR (append_part str pos (size_sub (length str) pos) str1) (\<lambda>str2. Inr (True, str2))))
             else
               (case shift_tail first_match find_length expansion str of
                  Inl e \<Rightarrow> Some (Inl e)
                | Inr str1 \<Rightarrow> move_matches mfind find_length r first_match expansion final_length str1))
      else move_matches mfind find_length r first_match 0 (length str) str)"

definition replace_chars :: "nat \<Rightarrow> string \<Rightarrow> string \<Rightarrow> string \<Rightarrow> (bool \<times> string) res option" where
  "replace_chars cap input find_any_of_these replace_with =
     do_replace_matches_after_offset (std_string_find_first_of find_any_of_these) 1 cap input 0 replace_with REPLACE_ALL"

definition remove_chars :: "nat \<Rightarrow> string \<Rightarrow> string \<Rightarrow> (bool \<times> string) res option" where
  "remove_chars cap input cs = replace_chars cap input cs []"

definition replace_first_substring_after_offset :: "nat \<Rightarrow> string \<Rightarrow> nat \<Rightarrow> string \<Rightarrow> string \<Rightarrow> (bool \<times> string) res option" where
  "replace_first_substring_after_offset cap str start_offset find_this replace_with =
     do_replace_matches_after_offset (std_string_find find_this) (length find_this) cap str start_offset replace_with REPLACE_FIRST"

definition replace_substrings_after_offset :: "nat \<Rightarrow> string \<Rightarrow> nat \<Rightarrow> string \<Rightarrow> string \<Rightarrow> (bool \<times> string) res option" where
  "replace_substrings_after_offset cap str start_offset find_this replace_with =
     do_replace_matches_after_offset (std_string_find find_this) (length find_this) cap str start_offset replace_with REPLACE_ALL"

section \<open>What a replacement means\<close>

text \<open>
  \<open>first\<close> tells where the first match of a string begins, \<open>n\<close> is the length of a match. The matches are found from left to right and do not
  overlap.
\<close>

function replaced :: "(string \<Rightarrow> nat option) \<Rightarrow> nat \<Rightarrow> string \<Rightarrow> string \<Rightarrow> string" where
  "replaced first n r xs =
     (case first xs of
        None \<Rightarrow> xs
      | Some k \<Rightarrow> if 0 < n \<and> k + n \<le> length xs then take k xs @ r @ replaced first n r (drop (k + n) xs) else xs)"
  by pat_completeness auto
termination
  by (relation "measure (\<lambda>(first, n, r, xs). length xs)") auto

function match_count :: "(string \<Rightarrow> nat option) \<Rightarrow> nat \<Rightarrow> string \<Rightarrow> nat" where
  "match_count first n xs =
     (case first xs of
        None \<Rightarrow> 0
      | Some k \<Rightarrow> if 0 < n \<and> k + n \<le> length xs then Suc (match_count first n (drop (k + n) xs)) else 0)"
  by pat_completeness auto
termination
  by (relation "measure (\<lambda>(first, n, xs). length xs)") auto

declare replaced.simps [simp del] match_count.simps [simp del]

text \<open>The interface of a matcher: \<open>mfind\<close> searches a suffix, a match lies in the string and is not empty.\<close>

locale matching =
  fixes mfind :: "string \<Rightarrow> nat \<Rightarrow> nat" and n :: nat and first :: "string \<Rightarrow> nat option"
  assumes find_suffix: "length xs \<le> vec_max \<Longrightarrow> pos \<le> length xs \<Longrightarrow>
      mfind xs pos = (case first (drop pos xs) of None \<Rightarrow> npos | Some k \<Rightarrow> pos + k)"
    and find_behind: "length xs < pos \<Longrightarrow> mfind xs pos = npos"
    and match_inside: "first xs = Some k \<Longrightarrow> k + n \<le> length xs"
    and match_nonempty: "n > 0"
begin

lemma replaced_none: "first xs = None \<Longrightarrow> replaced first n r xs = xs"
  by (subst replaced.simps) simp

lemma replaced_some: "first xs = Some k \<Longrightarrow> replaced first n r xs = take k xs @ r @ replaced first n r (drop (k + n) xs)"
  using match_inside [of xs k] match_nonempty by (subst replaced.simps) simp

lemma count_none: "first xs = None \<Longrightarrow> match_count first n xs = 0"
  by (subst match_count.simps) simp

lemma count_some: "first xs = Some k \<Longrightarrow> match_count first n xs = Suc (match_count first n (drop (k + n) xs))"
  using match_inside [of xs k] match_nonempty by (subst match_count.simps) simp

lemma suffix_induct [case_names none some]:
  assumes "\<And>xs. first xs = None \<Longrightarrow> P xs" and "\<And>xs k. first xs = Some k \<Longrightarrow> P (drop (k + n) xs) \<Longrightarrow> P xs"
  shows "P xs"
proof (induction xs rule: length_induct)
  case (1 xs)
  show ?case
  proof (cases "first xs")
    case (Some k)
    have "length (drop (k + n) xs) < length xs" using match_inside [OF Some] match_nonempty by simp
    with 1 assms(2) [OF Some] show ?thesis by blast
  qed (rule assms(1))
qed

lemma replaced_length:
  "length (replaced first n r xs) + match_count first n xs * n = length xs + match_count first n xs * length r"
proof (induction xs rule: suffix_induct)
  case (some xs k)
  then show ?case using match_inside [OF some(1)] by (simp add: replaced_some count_some)
qed (simp add: replaced_none count_none)

lemma find_found:
  assumes "length xs \<le> vec_max" and "pos \<le> length xs" and "first (drop pos xs) = Some k"
  shows "mfind xs pos = pos + k" and "pos + k + n \<le> length xs" and "pos + k \<noteq> npos"
proof -
  show "mfind xs pos = pos + k" using assms by (simp add: find_suffix)
  show le: "pos + k + n \<le> length xs" using match_inside [OF assms(3)] assms(2) by simp
  show "pos + k \<noteq> npos" using le npos_large [OF assms(1)] by linarith
qed

lemma find_none: "length xs \<le> vec_max \<Longrightarrow> pos \<le> length xs \<Longrightarrow> first (drop pos xs) = None \<Longrightarrow> mfind xs pos = npos"
  by (simp add: find_suffix)

lemma small_add: "length xs \<le> vec_max \<Longrightarrow> i + j \<le> length xs \<Longrightarrow> size_add i j = i + j"
  by (simp add: size_add_small vec_max_def)

text \<open>Equal lengths.\<close>

lemma overwrite_loop_result:
  assumes "length r = n"
  shows "length xs \<le> vec_max \<Longrightarrow> pos \<le> length xs \<Longrightarrow>
    overwrite_loop mfind r xs (mfind xs pos) = Some (Inr (take pos xs @ replaced first n r (drop pos xs)))"
proof (induction "length xs - pos" arbitrary: xs pos rule: less_induct)
  case less
  show ?case
  proof (cases "first (drop pos xs)")
    case None
    then show ?thesis using less.prems by (subst overwrite_loop.simps) (simp add: find_none replaced_none)
  next
    case (Some k)
    note f = find_found [OF less.prems Some]
    let ?xs = "overwrite (pos + k) r xs" and ?pos = "pos + k + n"
    have w: "write_mem (pos + k) r xs = Inr ?xs" using f(2) assms by simp
    have len: "length ?xs = length xs" using f(2) assms by simp
    have tk: "take ?pos ?xs = take pos xs @ take k (drop pos xs) @ r"
      using f(2) assms by (simp add: overwrite_def take_add)
    have dr: "drop ?pos ?xs = drop ?pos xs" using f(2) assms by (simp add: overwrite_def)
    have "overwrite_loop mfind r xs (mfind xs pos) = overwrite_loop mfind r ?xs (mfind ?xs ?pos)"
      unfolding f(1) using f(2,3) less.prems(1) assms by (subst overwrite_loop.simps) (simp add: w small_add [of xs])
    also have "\<dots> = Some (Inr (take ?pos ?xs @ replaced first n r (drop ?pos ?xs)))"
      by (rule less.hyps) (use len f(2) match_nonempty less.prems in simp_all)
    finally show ?thesis unfolding tk dr using Some by (simp add: replaced_some add.commute add.left_commute)
  qed
qed

text \<open>Counting.\<close>

lemma count_matches_result:
  "length xs \<le> vec_max \<Longrightarrow> pos \<le> length xs \<Longrightarrow> e + match_count first n (drop pos xs) * d < 2 ^ 64 \<Longrightarrow>
     c + match_count first n (drop pos xs) < 2 ^ 64 \<Longrightarrow>
     count_matches mfind n d xs (mfind xs pos) e c
       = Some (e + match_count first n (drop pos xs) * d, c + match_count first n (drop pos xs))"
proof (induction "length xs - pos" arbitrary: pos e c rule: less_induct)
  case less
  show ?case
  proof (cases "first (drop pos xs)")
    case None
    then show ?thesis using less.prems by (subst count_matches.simps) (simp add: find_none count_none)
  next
    case (Some k)
    note f = find_found [OF less.prems(1,2) Some]
    let ?pos = "pos + k + n"
    have cnt: "match_count first n (drop pos xs) = Suc (match_count first n (drop ?pos xs))"
      using Some by (simp add: count_some add.commute add.left_commute)
    have add: "size_add e d = e + d" "size_add c 1 = c + 1" using less.prems(3,4) by (simp_all add: cnt size_add_small)
    have "count_matches mfind n d xs (mfind xs pos) e c = count_matches mfind n d xs (mfind xs ?pos) (e + d) (c + 1)"
      unfolding f(1) using f(2,3) less.prems(1) by (subst count_matches.simps) (simp add: small_add [of xs] add [unfolded One_nat_def])
    also have "\<dots> = Some (e + d + match_count first n (drop ?pos xs) * d, c + 1 + match_count first n (drop ?pos xs))"
      by (rule less.hyps) (use f(2) match_nonempty less.prems cnt in simp_all)
    finally show ?thesis by (simp add: cnt)
  qed
qed

end

context matching
begin

text \<open>The new buffer.\<close>

lemma build_loop_result:
  "length src \<le> vec_max \<Longrightarrow> pos \<le> q \<Longrightarrow> q \<le> length src \<Longrightarrow> first (drop q src) = Some k \<Longrightarrow> c = match_count first n (drop q src) \<Longrightarrow>
     \<exists>ep ys. build_loop mfind n r src pos (q + k) c acc = Inr (ep, acc @ ys) \<and> ep \<le> length src
       \<and> ys @ drop ep src = take (q - pos) (drop pos src) @ replaced first n r (drop q src)"
proof (induction c arbitrary: pos q k acc)
  case 0
  then show ?case by (simp add: count_some)
next
  case (Suc c)
  note f = find_found [OF Suc.prems(1,3,4)]
  let ?pos = "q + k + n"
  let ?zs = "take (q + k - pos) (drop pos src) @ r"
  have app: "append_part src pos (size_sub (q + k) pos) acc = Inr (acc @ take (q + k - pos) (drop pos src))"
    using Suc.prems by (simp add: append_part_def)
  have add: "size_add (q + k) n = ?pos" using f(2) by (rule small_add [OF Suc.prems(1)])
  have cnt: "c = match_count first n (drop ?pos src)" using Suc.prems(4,5) by (simp add: count_some add.commute add.left_commute)
  have tk: "take (q + k - pos) (drop pos src) = take (q - pos) (drop pos src) @ take k (drop q src)"
    using Suc.prems(2) take_add [of "q - pos" k "drop pos src"] by simp
  have rep: "replaced first n r (drop q src) = take k (drop q src) @ r @ replaced first n r (drop ?pos src)"
    using Suc.prems(4) by (simp add: replaced_some add.commute add.left_commute)
  show ?case
  proof (cases "c = 0")
    case True
    then have "first (drop ?pos src) = None" using cnt by (cases "first (drop ?pos src)") (simp_all add: count_some)
    then show ?thesis
      using True f(2) by (subst build_loop.simps) (simp add: app add rep tk replaced_none)
  next
    case False
    then obtain k' where k': "first (drop ?pos src) = Some k'" using cnt by (cases "first (drop ?pos src)") (auto simp: count_none)
    have fnd: "mfind src ?pos = ?pos + k'" by (rule find_found(1) [OF Suc.prems(1) f(2) k'])
    obtain ep ys where ih: "build_loop mfind n r src ?pos (?pos + k') c (acc @ ?zs) = Inr (ep, (acc @ ?zs) @ ys)" "ep \<le> length src"
        "ys @ drop ep src = take (?pos - ?pos) (drop ?pos src) @ replaced first n r (drop ?pos src)"
      using Suc.IH [OF Suc.prems(1) order_refl f(2) k' cnt, of "acc @ ?zs"] by blast
    have "build_loop mfind n r src pos (q + k) (Suc c) acc = Inr (ep, acc @ ?zs @ ys)"
      using False ih(1) by (subst build_loop.simps) (simp add: app add fnd)
    moreover have "(?zs @ ys) @ drop ep src = take (q - pos) (drop pos src) @ replaced first n r (drop q src)"
      using ih(3) by (simp add: rep tk)
    ultimately show ?thesis using ih(2) by blast
  qed
qed

text \<open>In place.\<close>

lemma overwrite_nothing: "overwrite w [] xs = xs"
  by (simp add: overwrite_def)

lemma overwrite_parts:
  assumes "w + length ys \<le> m" and "m \<le> length xs"
  shows "take (w + length ys) (overwrite w ys xs) = take w xs @ ys" and "drop m (overwrite w ys xs) = drop m xs"
proof -
  have w: "w \<le> length xs" using assms by simp
  then show "take (w + length ys) (overwrite w ys xs) = take w xs @ ys" by (simp add: overwrite_def)
  have "drop m (overwrite w ys xs) = drop (m - (w + length ys)) (drop (w + length ys) (overwrite w ys xs))" using assms by simp
  also have "drop (w + length ys) (overwrite w ys xs) = drop (w + length ys) xs" using w by (simp add: overwrite_def)
  finally show "drop m (overwrite w ys xs) = drop m xs" using assms by simp
qed

lemma move_loop_step:
  assumes "(if r \<noteq> [] then write_mem w r str else Inr str) = Inr str1" and "min (mfind str1 (rd + n)) l = mat" and "rd + n \<le> mat"
    and "(if mat - (rd + n) \<noteq> 0 then bindR (read_mem (rd + n) (mat - (rd + n)) str1) (\<lambda>zs. write_mem (w + length r) zs str1) else Inr str1) = Inr str2"
  shows "move_loop mfind n r l str w rd =
    (if mat < l then move_loop mfind n r l str2 (w + length r + (mat - (rd + n))) mat else Some (Inr (w + length r + (mat - (rd + n)), str2)))"
  by (subst move_loop.simps) (simp only: assms(1,2,4) Let_def sum.case size_sub_le [OF assms(3)] le_add_diff_inverse [OF assms(3)])

lemma move_loop_result:
  "length xs \<le> vec_max \<Longrightarrow> rd + n \<le> length xs \<Longrightarrow> w \<le> rd \<Longrightarrow> c = match_count first n (drop (rd + n) xs) \<Longrightarrow>
     w + Suc c * length r \<le> rd + Suc c * n \<Longrightarrow>
     \<exists>w' xs'. move_loop mfind n r (length xs) xs w rd = Some (Inr (w', xs')) \<and> w' \<le> length xs'
       \<and> take w' xs' = take w xs @ r @ replaced first n r (drop (rd + n) xs)"
proof (induction c arbitrary: xs w rd)
  case (0 xs w rd)
  let ?xs = "overwrite w r xs"
  have none: "first (drop (rd + n) xs) = None" using 0(4) by (cases "first (drop (rd + n) xs)") (simp_all add: count_some)
  have wr: "w + length r \<le> rd + n" using 0(5) by simp
  have w1: "(if r \<noteq> [] then write_mem w r xs else Inr xs) = Inr ?xs" using wr 0(2) by (simp add: overwrite_nothing)
  have len: "length ?xs = length xs" using wr 0(2) by simp
  note parts = overwrite_parts [OF wr 0(2)]
  have fnd: "mfind ?xs (rd + n) = npos" by (rule find_none) (use 0 len none parts in simp_all)
  let ?l = "length xs - (rd + n)"
  have mat: "min npos (length xs) = length xs" using npos_large [OF 0(1)] by simp
  show ?case
  proof (cases "?l = 0")
    case True
    then have eq: "length xs = rd + n" using 0(2) by simp
    have "move_loop mfind n r (length xs) xs w rd = Some (Inr (w + length r, ?xs))"
      using move_loop_step [OF w1, of rd "length xs" "length xs" ?xs] fnd mat eq by simp
    then show ?thesis using parts(1) len none wr eq by (simp add: replaced_none)
  next
    case False
    let ?ys = "bytes_at (rd + n) ?l ?xs"
    have ys: "?ys = drop (rd + n) xs" using parts(2) 0(2) by (simp add: bytes_at_def)
    have lys: "length ?ys = ?l" using len by simp
    have w2: "w + length r + length ?ys \<le> length xs" using wr 0(2) lys by linarith
    have mv: "bindR (read_mem (rd + n) ?l ?xs) (\<lambda>zs. write_mem (w + length r) zs ?xs) = Inr (overwrite (w + length r) ?ys ?xs)"
    proof -
      have "read_mem (rd + n) ?l ?xs = Inr ?ys" using 0(2) len by simp
      moreover have "write_mem (w + length r) ?ys ?xs = Inr (overwrite (w + length r) ?ys ?xs)"
        by (rule write_mem_ok) (use w2 len in linarith)
      ultimately show ?thesis by (simp only: bindR.simps)
    qed
    have "take (w + length r + ?l) (overwrite (w + length r) ?ys ?xs) = take w xs @ r @ drop (rd + n) xs"
      using overwrite_parts(1) [of "w + length r" ?ys "length xs" ?xs] w2 len lys parts(1) ys by simp
    moreover have "w + length r + ?l \<le> length (overwrite (w + length r) ?ys ?xs)" using w2 len lys by simp
    moreover have "move_loop mfind n r (length xs) xs w rd = Some (Inr (w + length r + ?l, overwrite (w + length r) ?ys ?xs))"
    proof -
      have "min (mfind ?xs (rd + n)) (length xs) = length xs" using fnd mat by simp
      moreover have "(if ?l \<noteq> 0 then bindR (read_mem (rd + n) ?l ?xs) (\<lambda>zs. write_mem (w + length r) zs ?xs) else Inr ?xs)
          = Inr (overwrite (w + length r) ?ys ?xs)"
        by (subst if_P [OF False]) (rule mv)
      ultimately show ?thesis using move_loop_step [OF w1 _ 0(2)] by (simp only: less_irrefl if_False)
    qed
    ultimately show ?thesis using none by (simp add: replaced_none)
  qed
next
  case (Suc c xs w rd)
  let ?xs = "overwrite w r xs"
  obtain k where k: "first (drop (rd + n) xs) = Some k"
    using Suc.prems(4) by (cases "first (drop (rd + n) xs)") (simp_all add: count_none)
  note f = find_found [OF Suc.prems(1,2) k]
  have wr: "w + length r \<le> rd + n"
  proof (cases "length r \<le> n")
    case False
    then have "Suc c * n \<le> Suc c * length r" by (intro mult_le_mono2) simp
    moreover have "w + (length r + Suc c * length r) \<le> rd + (n + Suc c * n)" using Suc.prems(5) by (simp only: mult_Suc)
    ultimately show ?thesis by linarith
  qed (use Suc.prems(3) in simp)
  have w1: "(if r \<noteq> [] then write_mem w r xs else Inr xs) = Inr ?xs" using wr Suc.prems(2) by (simp add: overwrite_nothing)
  have len: "length ?xs = length xs" using wr Suc.prems(2) by simp
  note parts = overwrite_parts [OF wr Suc.prems(2)]
  have fnd: "mfind ?xs (rd + n) = rd + n + k" by (rule find_found(1)) (use Suc.prems len k parts in simp_all)
  let ?ys = "bytes_at (rd + n) k ?xs"
  let ?zs = "overwrite (w + length r) ?ys ?xs" and ?w = "w + length r + k" and ?rd = "rd + n + k"
  have lys: "length ?ys = k" using len f(2) by simp
  have ys: "?ys = take k (drop (rd + n) xs)" using parts(2) by (simp add: bytes_at_def)
  have w2: "w + length r + length ?ys \<le> ?rd + n" using wr lys by simp
  have mv: "(if k \<noteq> 0 then bindR (read_mem (rd + n) k ?xs) (\<lambda>zs. write_mem (w + length r) zs ?xs) else Inr ?xs) = Inr ?zs"
  proof (cases "k = 0")
    case False
    have "read_mem (rd + n) k ?xs = Inr ?ys" using f(2) len by simp
    moreover have "write_mem (w + length r) ?ys ?xs = Inr ?zs" by (rule write_mem_ok) (use w2 f(2) len in linarith)
    ultimately show ?thesis using False by (simp only: bindR.simps if_True not_False_eq_True)
  qed (simp add: overwrite_nothing)
  have lenz: "length ?zs = length xs" using w2 f(2) len by simp
  have pz: "take ?w ?zs = take w xs @ r @ take k (drop (rd + n) xs)" "drop (?rd + n) ?zs = drop (?rd + n) xs"
    using overwrite_parts [of "w + length r" ?ys "?rd + n" ?xs] w2 f(2) len lys parts ys
    by (simp_all, metis add.commute add.left_commute drop_drop)
  have cnt: "c = match_count first n (drop (?rd + n) ?zs)"
    unfolding pz(2) using Suc.prems(4) k by (simp add: count_some add.commute add.left_commute)
  have step: "move_loop mfind n r (length xs) xs w rd = move_loop mfind n r (length xs) ?zs ?w ?rd"
  proof -
    have "min (mfind ?xs (rd + n)) (length xs) = ?rd" using fnd f(2) by simp
    moreover have "?rd - (rd + n) = k" "rd + n \<le> ?rd" "?rd < length xs" using f(2) match_nonempty by simp_all
    ultimately show ?thesis using move_loop_step [OF w1, of rd "length xs" ?rd ?zs] mv by (simp only: if_True simp_thms)
  qed
  have "\<exists>w' xs'. move_loop mfind n r (length ?zs) ?zs ?w ?rd = Some (Inr (w', xs')) \<and> w' \<le> length xs'
       \<and> take w' xs' = take ?w ?zs @ r @ replaced first n r (drop (?rd + n) ?zs)"
    by (rule Suc.IH) (use lenz f(2) Suc.prems wr cnt in simp_all)
  then show ?case unfolding lenz step pz using k by (simp add: replaced_some add.commute add.left_commute)
qed

end

context matching
begin

lemma first_nil: "first [] = None"
  using match_inside [of "[]"] match_nonempty by (cases "first []") auto

lemma move_matches_result:
  assumes "length xs \<le> vec_max" and "fm + e + n \<le> length xs"
    and "fm + Suc (match_count first n (drop (fm + e + n) xs)) * length r \<le> fm + e + Suc (match_count first n (drop (fm + e + n) xs)) * n"
  shows "move_matches mfind n r fm e (length xs) xs = Some (Inr (True, take fm xs @ r @ replaced first n r (drop (fm + e + n) xs)))"
proof -
  have add: "size_add fm e = fm + e" by (rule small_add [OF assms(1)]) (use assms(2) in simp)
  obtain w' xs' where "move_loop mfind n r (length xs) xs fm (fm + e) = Some (Inr (w', xs'))" "w' \<le> length xs'"
      "take w' xs' = take fm xs @ r @ replaced first n r (drop (fm + e + n) xs)"
    using move_loop_result [OF assms(1,2) _ refl assms(3)] by auto
  then show ?thesis by (simp add: move_matches_def add resize_def)
qed

lemma shift_tail_result:
  assumes "length xs + e \<le> vec_max" and "fm + n \<le> length xs"
  shows "\<exists>ys. shift_tail fm n e xs = Inr ys \<and> length ys = length xs + e \<and> take fm ys = take fm xs \<and> drop (fm + e + n) ys = drop (fm + n) xs"
proof -
  have add: "size_add fm n = fm + n" "size_add (fm + n) e = fm + n + e" using assms by (simp_all add: size_add_small vec_max_def)
  define ws where "ws = (if fm + n + e > length xs then resize (fm + n + e) kNul xs else xs)"
  let ?ys = "take (fm + n + e) ws @ drop (fm + n) xs"
  have len: "length ws = max (length xs) (fm + n + e)" by (simp add: ws_def)
  have tl: "take (length xs - (fm + n)) (drop (fm + n) ws) = drop (fm + n) xs"
    using assms(2) by (simp add: ws_def resize_def)
  have cut: "drop (fm + n + e + (length xs - (fm + n))) ws = []" using assms(2) len by simp
  have "shift_tail fm n e xs = bindR (append_part ws (fm + n) (length xs - (fm + n)) [])
      (\<lambda>tail. std_string_replace (fm + n + e) (length xs - (fm + n)) tail ws)"
    by (simp only: shift_tail_def Let_def add ws_def size_sub_le [OF assms(2)])
  then have "shift_tail fm n e xs = Inr ?ys"
    using len tl cut assms(2) by (simp add: append_part_def std_string_replace_def)
  moreover have "take fm ?ys = take fm xs" using assms(2) by (simp add: ws_def resize_def)
  moreover have "drop (fm + e + n) ?ys = drop (fm + n) xs" using len by (simp add: add.commute add.left_commute)
  moreover have "length ?ys = length xs + e" using len assms(2) by simp
  ultimately show ?thesis by blast
qed

lemma do_replace_all:
  assumes str: "length str \<le> vec_max" and res: "length (take off str @ replaced first n r (drop off str)) \<le> vec_max"
  shows "do_replace_matches_after_offset mfind n cap str off r REPLACE_ALL
    = Some (Inr (first (drop off str) \<noteq> None, take off str @ replaced first n r (drop off str)))"
proof (cases "first (drop off str)")
  case None
  then have "mfind str off = npos" using find_none [OF str, of off] find_behind [of str off] by (cases "off \<le> length str") auto
  then show ?thesis using None match_nonempty by (simp add: do_replace_matches_after_offset_def Let_def replaced_none)
next
  case (Some k)
  have off: "off \<le> length str" using Some first_nil by (cases "off \<le> length str") auto
  note f = find_found [OF str off Some]
  let ?fm = "off + k" and ?c = "match_count first n (drop off str)" and ?c1 = "match_count first n (drop (off + k + n) str)"
  have cnt: "?c = Suc ?c1" using Some by (simp add: count_some add.commute add.left_commute)
  have rep: "take off str @ replaced first n r (drop off str) = take ?fm str @ r @ replaced first n r (drop (?fm + n) str)"
  proof -
    have "drop (k + n) (drop off str) = drop (?fm + n) str" by (simp add: ac_simps)
    then show ?thesis by (simp only: replaced_some [OF Some] take_add append_assoc)
  qed
  have ne: "first (drop off str) \<noteq> None" using Some by simp
  consider "length r = n" | "length r > n" | "length r < n" by linarith
  then show ?thesis
  proof cases
    case 1
    then show ?thesis
      using overwrite_loop_result [OF 1 str off] f(1,3) ne match_nonempty by (simp add: do_replace_matches_after_offset_def Let_def)
  next
    case 3
    have "match_count first n (drop (?fm + 0 + n) str) * length r \<le> match_count first n (drop (?fm + 0 + n) str) * n"
      using 3 by simp
    with 3 have "move_matches mfind n r ?fm 0 (length str) str = Some (Inr (True, take ?fm str @ r @ replaced first n r (drop (?fm + 0 + n) str)))"
      by (intro move_matches_result [OF str]) (use f(2) 3 in \<open>simp_all add: add_mono\<close>)
    then show ?thesis using 3 f(1,3) ne match_nonempty by (simp add: do_replace_matches_after_offset_def Let_def rep [simplified])
  next
    case 2
    define d where "d = length r - n"
    have r: "length r = n + d" and d: "d > 0" using 2 by (simp_all add: d_def)
    have len: "length (replaced first n r (drop off str)) = length str - off + ?c * d"
      using replaced_length [of r "drop off str"] by (simp add: r algebra_simps)
    then have fin: "length str + ?c * d \<le> vec_max" using res off by simp
    have "?c * d \<le> vec_max" using fin by simp
    then have small1: "?c * d < 2 ^ 64" by (simp add: vec_max_def)
    moreover have "?c \<le> ?c * d" using d by simp
    ultimately have "?c < 2 ^ 64" by (rule le_less_trans [rotated])
    note small = small1 this
    have cm: "count_matches mfind n (length r - n) str ?fm 0 0 = Some (?c * d, ?c)"
      using count_matches_result [OF str off, of 0 d 0] small f(1) by (simp add: d_def)
    have fl: "size_add (length str) (?c * d) = length str + ?c * d" using fin by (simp add: size_add_small vec_max_def)
    obtain ep ys where b: "build_loop mfind n r str 0 ?fm ?c [] = Inr (ep, ys)" "ep \<le> length str"
        "ys @ drop ep str = take off str @ replaced first n r (drop off str)"
      using build_loop_result [OF str _ off Some refl, of 0 r "[]"] by auto
    obtain zs where z: "shift_tail ?fm n (?c * d) str = Inr zs" "length zs = length str + ?c * d" "take ?fm zs = take ?fm str"
        "drop (?fm + ?c * d + n) zs = drop (?fm + n) str"
      using shift_tail_result [OF fin f(2)] by blast
    have "?fm + Suc ?c1 * length r \<le> ?fm + ?c * d + Suc ?c1 * n" by (simp add: cnt r algebra_simps)
    then have mv: "move_matches mfind n r ?fm (?c * d) (length zs) zs = Some (Inr (True, take off str @ replaced first n r (drop off str)))"
      unfolding rep using move_matches_result [of zs ?fm "?c * d" r] z f(2) fin by simp
    show ?thesis
    proof (cases "cap < length str + ?c * d")
      case True
      then show ?thesis
        using 2 f(1,3) ne match_nonempty cm fl fin b by (simp add: do_replace_matches_after_offset_def Let_def append_part_def)
    next
      case False
      then show ?thesis
        using 2 f(1,3) ne match_nonempty cm fl z mv by (simp add: do_replace_matches_after_offset_def Let_def)
    qed
  qed
qed

lemma do_replace_first:
  assumes "length str \<le> vec_max"
  shows "do_replace_matches_after_offset mfind n cap str off r REPLACE_FIRST
    = Some (Inr (case first (drop off str) of None \<Rightarrow> (False, str) | Some k \<Rightarrow> (True, take (off + k) str @ r @ drop (off + k + n) str)))"
proof (cases "first (drop off str)")
  case None
  then have "mfind str off = npos" using find_none [OF assms, of off] find_behind [of str off] by (cases "off \<le> length str") auto
  then show ?thesis using None match_nonempty by (simp add: do_replace_matches_after_offset_def Let_def)
next
  case (Some k)
  have off: "off \<le> length str" using Some first_nil by (cases "off \<le> length str") auto
  note f = find_found [OF assms off Some]
  then show ?thesis using Some match_nonempty by (simp add: do_replace_matches_after_offset_def Let_def std_string_replace_def)
qed

end

section \<open>The two matchers\<close>

definition first_occurrence :: "string \<Rightarrow> string \<Rightarrow> nat option" where
  "first_occurrence s xs = (let k = std_search xs s in if k + length s \<le> length xs then Some k else None)"

definition first_of_set :: "string \<Rightarrow> string \<Rightarrow> nat option" where
  "first_of_set cs xs = (let k = length (takeWhile (\<lambda>c. c \<notin> set cs) xs) in if k < length xs then Some k else None)"

lemma first_occurrence_Some:
  "first_occurrence s xs = Some k \<longleftrightarrow> occurs_at xs s k \<and> (\<forall>i < k. \<not> occurs_at xs s i)"
proof -
  have hit: "std_search xs s + length s \<le> length xs \<Longrightarrow> occurs_at xs s (std_search xs s)"
    using std_search_hit [of xs s] by (simp add: occurs_at_def)
  have "k = std_search xs s" if "occurs_at xs s k" "\<forall>i < k. \<not> occurs_at xs s i" "std_search xs s + length s \<le> length xs"
    using that std_search_first [of k xs s] hit by (metis linorder_neqE_nat)
  then show ?thesis
    using hit std_search_first [of _ xs s] std_search_none [of xs s k]
    by (auto simp: first_occurrence_def Let_def not_le)
qed

lemma scan_up_suffix:
  "pos \<le> length xs \<Longrightarrow> scan_up P xs pos =
     (let k = length (takeWhile (\<lambda>c. \<not> P c) (drop pos xs)) in if pos + k < length xs then pos + k else npos)"
proof (induction P xs pos rule: scan_up.induct)
  case (1 P xs i)
  show ?case
  proof (cases "i < length xs")
    case True
    then have "drop i xs = xs ! i # drop (i + 1) xs" by (simp add: Cons_nth_drop_Suc)
    with 1 True show ?thesis by (subst scan_up.simps) (simp add: Let_def)
  next
    case False
    with 1 show ?thesis by (subst scan_up.simps) simp
  qed
qed

lemma scan_up_behind: "length xs \<le> pos \<Longrightarrow> scan_up P xs pos = npos"
  by (subst scan_up.simps) simp

interpretation substring: matching "std_string_find (c # s)" "Suc (length s)" "first_occurrence (c # s)" for c s
proof unfold_locales
  fix xs :: string and k :: nat
  assume "first_occurrence (c # s) xs = Some k"
  then show "k + Suc (length s) \<le> length xs" by (auto simp: first_occurrence_def Let_def split: if_splits)
qed (auto simp: std_string_find_def first_occurrence_def Let_def le_diff_conv2 add.commute add.left_commute)

interpretation characters: matching "std_string_find_first_of cs" 1 "first_of_set cs" for cs
proof unfold_locales
  fix xs :: string and k :: nat
  assume "first_of_set cs xs = Some k"
  then show "k + 1 \<le> length xs" by (auto simp: first_of_set_def Let_def split: if_splits)
next
  fix xs :: string and pos :: nat
  assume "pos \<le> length xs"
  then show "std_string_find_first_of cs xs pos = (case first_of_set cs (drop pos xs) of None \<Rightarrow> npos | Some k \<Rightarrow> pos + k)"
    by (auto simp: std_string_find_first_of_def first_of_set_def scan_up_suffix Let_def)
qed (simp_all add: std_string_find_first_of_def scan_up_behind)

text \<open>Replacing characters is a map.\<close>

definition map_chars :: "string \<Rightarrow> string \<Rightarrow> string \<Rightarrow> string" where
  "map_chars cs r xs = concat (map (\<lambda>c. if c \<in> set cs then r else [c]) xs)"

lemma map_chars_outside: "set xs \<inter> set cs = {} \<Longrightarrow> map_chars cs r xs = xs"
  by (induction xs) (auto simp: map_chars_def)

lemma first_of_set_None: "first_of_set cs xs = None \<longleftrightarrow> set xs \<inter> set cs = {}"
proof -
  have "length (takeWhile P xs) < length xs \<longleftrightarrow> (\<exists>x \<in> set xs. \<not> P x)" for P
    by (induction xs) auto
  then show ?thesis by (auto simp: first_of_set_def Let_def)
qed

lemma first_of_set_Some:
  assumes "first_of_set cs xs = Some k"
  shows "xs = take k xs @ xs ! k # drop (k + 1) xs" and "xs ! k \<in> set cs" and "set (take k xs) \<inter> set cs = {}"
proof -
  let ?p = "\<lambda>c. c \<notin> set cs"
  have k: "k = length (takeWhile ?p xs)" "k < length xs" using assms by (auto simp: first_of_set_def Let_def split: if_splits)
  show "xs = take k xs @ xs ! k # drop (k + 1) xs" using k(2) by (simp add: id_take_nth_drop)
  show "xs ! k \<in> set cs" using nth_length_takeWhile [of ?p xs] k by simp
  have "take k xs = takeWhile ?p xs" unfolding k(1) by (metis takeWhile_eq_take)
  then show "set (take k xs) \<inter> set cs = {}" by (auto dest: set_takeWhileD)
qed

lemma replaced_chars: "replaced (first_of_set cs) 1 r xs = map_chars cs r xs"
proof (induction xs rule: characters.suffix_induct [where cs = cs])
  case (none xs)
  then show ?case using characters.replaced_none [OF none] by (simp add: first_of_set_None map_chars_outside)
next
  case (some xs k)
  note f = first_of_set_Some [OF some(1)]
  have "map_chars cs r xs = map_chars cs r (take k xs) @ r @ map_chars cs r (drop (k + 1) xs)"
    using f(2) by (subst f(1)) (simp add: map_chars_def)
  with some f(3) show ?case using characters.replaced_some [OF some(1), of r] by (simp add: map_chars_outside)
qed

section \<open>Trimming\<close>

definition rtrim :: "string \<Rightarrow> string \<Rightarrow> string" where
  "rtrim cs xs = rev (dropWhile (\<lambda>c. c \<in> set cs) (rev xs))"

definition trimmed :: "trim_positions \<Rightarrow> string \<Rightarrow> string \<Rightarrow> string" where
  "trimmed p cs xs =
     (let ys = (if trims_leading p then dropWhile (\<lambda>c. c \<in> set cs) xs else xs)
      in if trims_trailing p then rtrim cs ys else ys)"

lemma take_rtrim: "take (length (rtrim cs xs)) xs = rtrim cs xs"
proof -
  have "xs = rtrim cs xs @ rev (takeWhile (\<lambda>c. c \<in> set cs) (rev xs))"
    by (metis rtrim_def rev_append rev_rev_ident takeWhile_dropWhile_id)
  then show ?thesis by (metis append_eq_conv_conj)
qed

lemma rtrim_length: "length (rtrim cs xs) \<le> length xs"
  using length_dropWhile_le [of "\<lambda>c. c \<in> set cs" "rev xs"] by (simp add: rtrim_def)

lemma rtrim_append: "rtrim cs (us @ vs) = (if set vs \<subseteq> set cs then rtrim cs us else us @ rtrim cs vs)"
proof (cases "set vs \<subseteq> set cs")
  case True
  then have "dropWhile (\<lambda>c. c \<in> set cs) (rev vs @ rev us) = dropWhile (\<lambda>c. c \<in> set cs) (rev us)"
    by (intro dropWhile_append2) auto
  with True show ?thesis by (simp add: rtrim_def)
next
  case False
  then obtain x where "x \<in> set (rev vs)" "x \<notin> set cs" by auto
  then have "dropWhile (\<lambda>c. c \<in> set cs) (rev vs @ rev us) = dropWhile (\<lambda>c. c \<in> set cs) (rev vs) @ rev us"
    by (rule dropWhile_append1)
  with False show ?thesis by (simp add: rtrim_def)
qed

lemma rtrim_all: "rtrim cs xs = [] \<longleftrightarrow> set xs \<subseteq> set cs"
  by (auto simp: rtrim_def dropWhile_eq_Nil_conv)

lemma scan_down_rev:
  "i < length xs \<Longrightarrow> scan_down P xs i =
     (let k = length (dropWhile (\<lambda>c. \<not> P c) (rev (take (Suc i) xs))) in if k = 0 then npos else k - 1)"
proof (induction i)
  case 0
  then show ?case by (cases xs) (simp_all add: Let_def)
next
  case (Suc i)
  have "take (Suc (Suc i)) xs = take (Suc i) xs @ [xs ! Suc i]" by (rule take_Suc_conv_app_nth [OF Suc.prems])
  with Suc show ?case by (simp add: Let_def)
qed

lemma find_first_not_of_0:
  assumes "length xs \<le> vec_max"
  shows "find_first_not_of xs cs 0 =
    (if set xs \<subseteq> set cs then npos else length (takeWhile (\<lambda>c. c \<in> set cs) xs))"
proof -
  let ?k = "length (takeWhile (\<lambda>c. c \<in> set cs) xs)"
  have less: "?k < length xs \<longleftrightarrow> \<not> set xs \<subseteq> set cs" by (induction xs) auto
  have up: "scan_up (\<lambda>c. c \<notin> set cs) xs 0 = (if set xs \<subseteq> set cs then npos else ?k)"
    using less by (simp add: scan_up_suffix Let_def)
  show ?thesis
  proof (cases "length cs = 1")
    case True
    then obtain c where c: "cs = [c]" by (cases cs) auto
    with up show ?thesis by (auto simp: find_first_not_of_def find_first_not_of_char_def)
  next
    case False
    with up show ?thesis by (auto simp: find_first_not_of_def takeWhile_eq_Nil_iff)
  qed
qed

lemma find_last_not_of_npos:
  assumes "length xs \<le> vec_max"
  shows "find_last_not_of xs cs npos = (if set xs \<subseteq> set cs then npos else length (rtrim cs xs) - 1)"
proof (cases "xs = []")
  case False
  have m: "min npos (length xs - 1) = length xs - 1" using npos_large [OF assms] by simp
  have dn: "scan_down (\<lambda>c. c \<notin> set cs) xs (length xs - 1) = (if set xs \<subseteq> set cs then npos else length (rtrim cs xs) - 1)"
    using False rtrim_all [of cs xs] by (simp add: scan_down_rev Let_def rtrim_def)
  show ?thesis
  proof (cases "length cs = 1")
    case True
    then obtain c where c: "cs = [c]" by (cases cs) auto
    with dn False m show ?thesis by (auto simp: find_last_not_of_def find_last_not_of_char_def Let_def)
  next
    case long: False
    show ?thesis
    proof (cases "cs = []")
      case True
      then show ?thesis using False m by (simp add: find_last_not_of_def rtrim_def)
    next
      case False
      with long dn \<open>xs \<noteq> []\<close> m show ?thesis by (auto simp: find_last_not_of_def Let_def)
    qed
  qed
qed (simp add: find_last_not_of_def)

lemma npos_wraps: "size_add npos (Suc 0) = 0"
  by (simp add: size_add_def npos_def)

lemma trimmed_all: "set xs \<subseteq> set cs \<Longrightarrow> trimmed p cs xs = (if trims_leading p \<or> trims_trailing p then [] else xs)"
  by (auto simp: trimmed_def Let_def rtrim_def dropWhile_eq_Nil_conv dest: set_dropWhileD)

lemma trimmed_parts:
  assumes "\<not> set xs \<subseteq> set cs"
    and b_def: "b = (if trims_leading p then length (takeWhile (\<lambda>c. c \<in> set cs) xs) else 0)"
    and e_def: "e = (if trims_trailing p then length (rtrim cs xs) else length xs)"
  shows "trimmed p cs xs = take (e - b) (drop b xs)" and "b < e" and "e \<le> length xs"
proof -
  let ?w = "\<lambda>c. c \<in> set cs" and ?k = "length (takeWhile (\<lambda>c. c \<in> set cs) xs)"
  have front: "dropWhile ?w xs = drop ?k xs" by (rule dropWhile_eq_drop)
  have some: "\<not> set (drop ?k xs) \<subseteq> set cs" using assms(1) by (metis dropWhile_eq_Nil_conv front hd_dropWhile hd_in_set subsetD subsetI)
  have tail: "rtrim cs xs = take ?k xs @ rtrim cs (drop ?k xs)" using rtrim_append [of cs "take ?k xs" "drop ?k xs"] some by simp
  have len: "length (rtrim cs xs) = ?k + length (rtrim cs (drop ?k xs))" by (subst tail) (simp add: length_takeWhile_le)
  have "rtrim cs (drop ?k xs) \<noteq> []" using some by (simp add: rtrim_all)
  then have pos: "?k < length (rtrim cs xs)" using len by simp
  have "rtrim cs (drop ?k xs) = take (length (rtrim cs xs) - ?k) (drop ?k xs)" using len take_rtrim [of cs "drop ?k xs"] by simp
  then show "trimmed p cs xs = take (e - b) (drop b xs)" by (auto simp: trimmed_def b_def e_def front take_rtrim)
  show "b < e" using pos rtrim_length [of cs xs] by (auto simp: b_def e_def intro: less_le_trans)
  show "e \<le> length xs" by (simp add: e_def rtrim_length)
qed

text \<open>Both trimming routines compute the trimmed string; the flags say on which side something was removed.\<close>

lemma trim_string_piece_correct:
  assumes "length input \<le> vec_max"
  shows "trim_string_piece_T input cs p = trimmed p cs input"
proof (cases "set input \<subseteq> set cs")
  case True
  then show ?thesis
    using assms npos_large [OF assms]
    by (cases "trims_leading p"; cases "trims_trailing p")
       (simp_all add: trim_string_piece_T_def find_first_not_of_0 find_last_not_of_npos npos_wraps trimmed_all substr_def Let_def)
next
  case False
  define b where "b = (if trims_leading p then length (takeWhile (\<lambda>c. c \<in> set cs) input) else 0)"
  define e where "e = (if trims_trailing p then length (rtrim cs input) else length input)"
  note t = trimmed_parts [OF False b_def e_def]
  have "size_add (length (rtrim cs input) - 1) 1 = length (rtrim cs input)"
    using False rtrim_length [of cs input] assms rtrim_all [of cs input] by (simp add: size_add_small vec_max_def Suc_leI)
  then have "trim_string_piece_T input cs p = substr input b (size_sub e b)"
    using False assms by (simp add: trim_string_piece_T_def find_first_not_of_0 find_last_not_of_npos Let_def b_def e_def)
  also have "\<dots> = take (e - b) (drop b input)" using t(2,3) by (simp add: substr_def)
  finally show ?thesis using t(1) by simp
qed

lemma trim_string_correct:
  assumes "length input \<le> vec_max"
  shows "trim_string_T input cs p =
    Inr (if input = [] then TRIM_NONE else if trimmed p cs input = [] then p
         else trim_flags (trims_leading p \<and> hd input \<in> set cs) (trims_trailing p \<and> last input \<in> set cs),
       trimmed p cs input)"
proof (cases "set input \<subseteq> set cs")
  case True
  show ?thesis
  proof (cases "trims_leading p \<or> trims_trailing p")
    case t: True
    then show ?thesis
      using True assms by (auto simp: trim_string_T_def find_first_not_of_0 find_last_not_of_npos trimmed_all Let_def)
  next
    case False
    have "size_sub (length input) 1 = length input - 1" "size_add (length input - 1) 1 = length input" "length input - 1 \<noteq> npos"
      if "input \<noteq> []" using that assms npos_large [OF assms] by (simp_all add: Suc_leI size_add_small vec_max_def)
    then show ?thesis
      using False True npos_large [of 0] by (cases "input = []") (simp_all add: trim_string_T_def trimmed_all Let_def trim_flags_def)
  qed
next
  case False
  then have ne: "input \<noteq> []" by auto
  define b where "b = (if trims_leading p then length (takeWhile (\<lambda>c. c \<in> set cs) input) else 0)"
  define e where "e = (if trims_trailing p then length (rtrim cs input) else length input)"
  note t = trimmed_parts [OF False b_def e_def]
  have np: "i \<noteq> npos" if "i \<le> length input" for i using that npos_large [OF assms] by linarith
  have nb: "trimmed p cs input \<noteq> []" using t by simp
  have lst: "size_sub (length input) 1 = length input - 1" using ne by (simp add: Suc_leI)
  have add: "size_add (size_sub (e - 1) b) 1 = e - b" using t(2,3) assms by (simp add: size_add_small vec_max_def)
  have first: "(if trims_leading p then find_first_not_of input cs 0 else 0) = b"
    and lastg: "(if trims_trailing p then find_last_not_of input cs npos else length input - 1) = e - 1"
    using False assms by (simp_all add: find_first_not_of_0 find_last_not_of_npos b_def e_def)
  have "b \<noteq> 0 \<longleftrightarrow> trims_leading p \<and> hd input \<in> set cs" using ne by (cases input) (simp_all add: b_def)
  moreover have "e - 1 \<noteq> length input - 1 \<longleftrightarrow> trims_trailing p \<and> last input \<in> set cs"
  proof -
    have "length (rtrim cs input) \<noteq> length input \<longleftrightarrow> last input \<in> set cs"
    proof (cases input rule: rev_cases)
      case (snoc ys y)
      then show ?thesis using rtrim_length [of cs ys] by (simp add: rtrim_def)
    qed (use ne in simp)
    then show ?thesis using t(2,3) ne by (auto simp: e_def)
  qed
  ultimately show ?thesis
    unfolding trim_string_T_def Let_def lst first lastg add t(1)
    using ne nb t np [of b] np [of "e - 1"] by (simp add: add)
qed

section \<open>Copy, case and join\<close>

text \<open>What \<^verbatim>\<open>strlcpy\<close> promises: for a terminated source \<open>s\<close> and a destination of at least \<open>dst_size\<close> characters it returns the length of the source,
  and the destination begins with as much of the source as fits, terminated.\<close>

lemma lcpy_copy_result:
  "kNul \<notin> set s \<Longrightarrow> i \<le> length s \<Longrightarrow> i + k \<le> length dst \<Longrightarrow>
     lcpy_copy k i dst (s @ [kNul] @ rest) =
       Inr (if length s < i + k then (True, length s, overwrite i (drop i s @ [kNul]) dst) else (False, i + k, overwrite i (take k (drop i s)) dst))"
proof (induction k arbitrary: i dst)
  case (Suc k)
  show ?case
  proof (cases "i = length s")
    case True
    then show ?thesis using Suc.prems by simp
  next
    case False
    then have i: "i < length s" using Suc.prems by simp
    have ne: "(s @ [kNul] @ rest) ! i = s ! i" "s ! i \<noteq> kNul" using i Suc.prems(1) by (simp add: nth_append, metis nth_mem)
    have ow: "overwrite (Suc i) ys (overwrite i [x] dst) = overwrite i (x # ys) dst" if "Suc i + length ys \<le> length dst" for x ys
      using that by (simp add: overwrite_def min_def add.commute)
    have dr: "drop i s = s ! i # drop (Suc i) s" using i by (simp add: Cons_nth_drop_Suc)
    have "lcpy_copy (Suc k) i dst (s @ [kNul] @ rest) = lcpy_copy k (Suc i) (overwrite i [s ! i] dst) (s @ [kNul] @ rest)"
      using i ne Suc.prems(3) by simp
    also have "\<dots> = Inr (if length s < Suc i + k then (True, length s, overwrite (Suc i) (drop (Suc i) s @ [kNul]) (overwrite i [s ! i] dst))
        else (False, Suc i + k, overwrite (Suc i) (take k (drop (Suc i) s)) (overwrite i [s ! i] dst)))"
      by (rule Suc.IH) (use i Suc.prems in simp_all)
    also have "\<dots> = Inr (if length s < i + Suc k then (True, length s, overwrite i (drop i s @ [kNul]) dst)
        else (False, i + Suc k, overwrite i (take (Suc k) (drop i s)) dst))"
      using Suc.prems(3) i by (auto simp: dr ow)
    finally show ?thesis .
  qed
qed (simp add: overwrite_def)

lemma lcpy_count_result: "kNul \<notin> set s \<Longrightarrow> i \<le> length s \<Longrightarrow> lcpy_count i (s @ [kNul] @ rest) = Inr (length s)"
proof (induction "length s - i" arbitrary: i)
  case 0
  then show ?case by (subst lcpy_count.simps) (auto simp: nth_append)
next
  case (Suc n)
  then have i: "i < length s" by simp
  then have "(s @ [kNul] @ rest) ! i \<noteq> kNul" using Suc.prems(1) by (simp add: nth_append) (metis nth_mem)
  then show ?case using i Suc.hyps(1) [of "Suc i"] Suc.hyps(2) Suc.prems(1) by (subst lcpy_count.simps) simp
qed

lemma strlcpy_correct:
  assumes "kNul \<notin> set s" and "dst_size \<le> length dst"
  shows "strlcpy dst (s @ [kNul] @ rest) dst_size =
    Inr (length s, if dst_size = 0 then dst else overwrite 0 (take (dst_size - 1) s @ [kNul]) dst)"
proof (cases "length s < dst_size")
  case True
  then show ?thesis using assms lcpy_copy_result [of s 0 dst_size dst rest] by (simp add: strlcpy_def)
next
  case False
  have cp: "lcpy_copy dst_size 0 dst (s @ [kNul] @ rest) = Inr (False, dst_size, overwrite 0 (take dst_size s) dst)"
    using False assms lcpy_copy_result [of s 0 dst_size dst rest] by simp
  have cnt: "lcpy_count dst_size (s @ [kNul] @ rest) = Inr (length s)" using False assms(1) by (intro lcpy_count_result) simp_all
  show ?thesis
  proof (cases dst_size)
    case 0
    then show ?thesis using cp cnt by (simp add: strlcpy_def overwrite_def)
  next
    case (Suc m)
    have "write_mem m [kNul] (overwrite 0 (take (Suc m) s) dst) = Inr (overwrite 0 (take m s @ [kNul]) dst)"
      using False Suc assms(2) by (simp add: write_mem_def overwrite_def min_def)
    then show ?thesis unfolding strlcpy_def cp using cnt Suc by simp
  qed
qed

lemma char_val_inj: "char_val sc a = char_val sc b \<longleftrightarrow> a = b"
proof -
  have "uchar c < 256" for c by (rule uchar_less)
  from this [of a] this [of b] have "char_val sc a = char_val sc b \<longleftrightarrow> uchar a = uchar b" by (auto simp: char_val_def)
  also have "\<dots> \<longleftrightarrow> a = b" by (simp add: uchar_def)
  finally show ?thesis .
qed

lemma compare_loop_None:
  "compare_loop sc a b = None \<longleftrightarrow> (let n = min (length a) (length b) in to_lower (take n a) = to_lower (take n b))"
proof (induction sc a b rule: compare_loop.induct)
  case (1 sc a as b bs)
  then show ?case
    using char_val_inj [of sc "to_lower_char a" "to_lower_char b"]
    by (cases "char_val sc (to_lower_char a)" "char_val sc (to_lower_char b)" rule: linorder_cases) (auto simp: Let_def to_lower_def)
qed (simp_all add: to_lower_def)

lemma compare_loop_nonzero: "compare_loop sc a b = Some r \<Longrightarrow> r \<noteq> 0"
  by (induction sc a b rule: compare_loop.induct) (auto simp: Let_def split: if_splits)

lemma compare_case_insensitive_zero: "compare_case_insensitive sc a b = 0 \<longleftrightarrow> to_lower a = to_lower b"
proof (cases "compare_loop sc a b")
  case None
  show ?thesis
  proof (cases "length a = length b")
    case False
    then have "to_lower a \<noteq> to_lower b" by (metis length_map to_lower_def)
    with None False show ?thesis by (simp add: compare_case_insensitive_def)
  qed (use None compare_loop_None [of sc a b] in \<open>simp add: compare_case_insensitive_def\<close>)
next
  case (Some r)
  have "to_lower a \<noteq> to_lower b"
  proof
    assume eq: "to_lower a = to_lower b"
    then have "length a = length b" by (metis length_map to_lower_def)
    with eq Some compare_loop_None [of sc a b] show False by simp
  qed
  with Some compare_loop_nonzero [OF Some] show ?thesis by (simp add: compare_case_insensitive_def)
qed

lemma equals_case_insensitive_iff: "equals_case_insensitive sc a b \<longleftrightarrow> to_lower a = to_lower b"
  by (auto simp: equals_case_insensitive_def compare_case_insensitive_zero) (metis length_map to_lower_def)

lemma contains_only_chars_iff: "length input \<le> vec_max \<Longrightarrow> contains_only_chars input cs \<longleftrightarrow> set input \<subseteq> set cs"
  using length_takeWhile_le [of "\<lambda>c. c \<in> set cs" input] npos_large [of "length input"]
  by (auto simp: contains_only_chars_def find_first_not_of_0 split: if_splits)

lemma lower_case_equals_iff: "lower_case_equals str l \<longleftrightarrow> to_lower str = l"
  by (auto simp: lower_case_equals_def to_lower_def list_all2_conv_all_nth list_eq_iff_nth_eq)

lemma starts_with_iff: "starts_with str s SENSITIVE \<longleftrightarrow> prefix s str"
  by (auto simp: starts_with_def equal_by_case_def piece_eq_iff substr_def prefix_def) (metis append_take_drop_id)

lemma ends_with_iff: "ends_with str s SENSITIVE \<longleftrightarrow> suffix s str"
  by (auto simp: ends_with_def equal_by_case_def piece_eq_iff substr_def suffix_def) (metis append_take_drop_id)

lemma append_to_string_eq: "append_to_string xs ys = ys @ xs"
  by (simp add: append_to_string_def)

lemma join_rest_eq: "join_rest ps sep result = result @ concat (map (\<lambda>p. sep @ p) ps)"
  by (induction ps arbitrary: result) (simp_all add: append_to_string_eq)

lemma join_string_simps [simp]:
  "join_string [] sep = []"
  "join_string (p # ps) sep = p @ concat (map (\<lambda>p. sep @ p) ps)"
  by (simp_all add: join_string_def join_rest_eq)

section \<open>Properties\<close>

text \<open>C15: The replacing routines compute what they are named for, whatever way the optimised routine takes: overwriting in place, moving the rest down in
  place, shifting the tail up first, or building a new string when the capacity is exceeded. \<^verbatim>\<open>replace_substrings_after_offset\<close> replaces the occurrences
  that a scan from left to right finds behind the offset, \<^verbatim>\<open>replace_first_substring_after_offset\<close> the first of them,
  and \<^verbatim>\<open>replace_chars\<close> maps every character of the set to the replacement; all of them return, no access is outside the string,
  and the result tells whether there was a match.\<close>

theorem replace_functions_correct:
  assumes "length str \<le> vec_max" and "find_this \<noteq> []"
    and "length (take off str @ replaced (first_occurrence find_this) (length find_this) r (drop off str)) \<le> vec_max"
    and "length (map_chars cs r str) \<le> vec_max"
  shows "replace_substrings_after_offset cap str off find_this r
      = Some (Inr (first_occurrence find_this (drop off str) \<noteq> None,
                   take off str @ replaced (first_occurrence find_this) (length find_this) r (drop off str)))
    \<and> replace_first_substring_after_offset cap str off find_this r
      = Some (Inr (case first_occurrence find_this (drop off str) of
                     None \<Rightarrow> (False, str)
                   | Some k \<Rightarrow> (True, take (off + k) str @ r @ drop (off + k + length find_this) str)))
    \<and> replace_chars cap str cs r = Some (Inr (set str \<inter> set cs \<noteq> {}, map_chars cs r str))"
proof -
  obtain c s where f: "find_this = c # s" using assms(2) by (cases find_this) auto
  have "replace_substrings_after_offset cap str off find_this r
      = Some (Inr (first_occurrence find_this (drop off str) \<noteq> None,
                   take off str @ replaced (first_occurrence find_this) (length find_this) r (drop off str)))"
    using substring.do_replace_all [OF assms(1), of off c s r cap] assms(3) by (simp add: replace_substrings_after_offset_def f)
  moreover have "replace_first_substring_after_offset cap str off find_this r
      = Some (Inr (case first_occurrence find_this (drop off str) of
                     None \<Rightarrow> (False, str)
                   | Some k \<Rightarrow> (True, take (off + k) str @ r @ drop (off + k + length find_this) str)))"
    using substring.do_replace_first [OF assms(1), of c s cap off r]
    by (simp add: replace_first_substring_after_offset_def f split: option.split)
  moreover have "replace_chars cap str cs r = Some (Inr (set str \<inter> set cs \<noteq> {}, map_chars cs r str))"
    using characters.do_replace_all [OF assms(1), of 0 cs r cap] assms(4)
    by (simp add: replace_chars_def replaced_chars [simplified] first_of_set_None)
  ultimately show ?thesis by simp
qed

theorem replace_functions_correct_witness:
  "replace_substrings_after_offset 20 ''a--b--c'' 1 ''--'' ''+++'' = Some (Inr (True, ''a+++b+++c''))
   \<and> replace_substrings_after_offset 8 ''a--b--c'' 1 ''--'' ''+++'' = Some (Inr (True, ''a+++b+++c''))
   \<and> replace_first_substring_after_offset 8 ''a--b--c'' 1 ''--'' ''+++'' = Some (Inr (True, ''a+++b--c''))
   \<and> replace_chars 8 ''a--b--c'' ''-'' ''+++'' = Some (Inr (True, ''a++++++b++++++c''))"
proof -
  have rep: "take 1 ''a--b--c'' @ replaced (first_occurrence ''--'') (length ''--'') ''+++'' (drop 1 ''a--b--c'') = ''a+++b+++c''"
      "first_occurrence ''--'' (drop 1 ''a--b--c'') = Some 0"
      "map_chars ''-'' ''+++'' ''a--b--c'' = ''a++++++b++++++c''" "set ''a--b--c'' \<inter> set ''-'' \<noteq> {}" "drop (Suc (Suc (Suc 0))) ''a--b--c'' = ''b--c''"
    by code_simp+
  show ?thesis
    using replace_functions_correct [of "''a--b--c''" "''--''" 1 "''+++''" "''-''" 20]
      replace_functions_correct [of "''a--b--c''" "''--''" 1 "''+++''" "''-''" 8] rep
    by (simp add: vec_max_def del: drop_Suc_Cons set_simps list.set)
qed

end
