(* ===== verification/String_Split.thy ===== *)
theory String_Split
  imports String_Util
begin

text \<open>
  Splitting of strings (include/strings/StringSplit.h, src/StringSplit.cc). The pieces are the strings they view. The loops are
  \<open>partial_function (option)\<close>: one that does not end has the value \<^const>\<open>None\<close>.
\<close>

section \<open>Splitting\<close>

datatype whitespace_handling = KEEP_WHITESPACE | TRIM_WHITESPACE

datatype split_result = SPLIT_WANT_ALL | SPLIT_WANT_NONEMPTY

text \<open>The two instances of the delimiter type: one character, or any character of a string.\<close>

datatype delimiter = Delim_char char | Delim_any string

fun find_delimiter :: "string \<Rightarrow> delimiter \<Rightarrow> nat \<Rightarrow> nat" where
  "find_delimiter piece (Delim_char c) pos = find_char piece c pos"
| "find_delimiter piece (Delim_any one_of) pos = find_first_of piece one_of pos"

definition push_piece :: "whitespace_handling \<Rightarrow> split_result \<Rightarrow> string \<Rightarrow> string list \<Rightarrow> string list" where
  "push_piece whitespace result_type piece result =
     (let piece1 = (if whitespace = TRIM_WHITESPACE then trim_string_piece_T piece kWhitespace TRIM_ALL else piece)
      in if result_type = SPLIT_WANT_ALL \<or> piece1 \<noteq> [] then result @ [piece1] else result)"

partial_function (option) split_loop ::
  "string \<Rightarrow> delimiter \<Rightarrow> whitespace_handling \<Rightarrow> split_result \<Rightarrow> nat \<Rightarrow> string list \<Rightarrow> string list option" where
  "split_loop str delim whitespace result_type start result =
     (if start = npos then Some result
      else let en = find_delimiter str delim start in
        if en = npos
        then split_loop str delim whitespace result_type npos (push_piece whitespace result_type (substr str start npos) result)
        else split_loop str delim whitespace result_type (size_add en 1)
               (push_piece whitespace result_type (substr str start (size_sub en start)) result))"

definition split_string_T :: "string \<Rightarrow> delimiter \<Rightarrow> whitespace_handling \<Rightarrow> split_result \<Rightarrow> string list option" where
  "split_string_T str delim whitespace result_type =
     (if str = [] then Some [] else split_loop str delim whitespace result_type 0 [])"

definition split_string :: "string \<Rightarrow> string \<Rightarrow> whitespace_handling \<Rightarrow> split_result \<Rightarrow> string list option" where
  "split_string input separators whitespace result_type =
     (if length separators = 1 then split_string_T input (Delim_char (separators ! 0)) whitespace result_type
      else split_string_T input (Delim_any separators) whitespace result_type)"

partial_function (option) split_substr_loop ::
  "string \<Rightarrow> string \<Rightarrow> whitespace_handling \<Rightarrow> split_result \<Rightarrow> nat \<Rightarrow> string list \<Rightarrow> string list option" where
  "split_substr_loop input delim whitespace result_type begin_index result =
     (let end_index = piece_find input delim begin_index in
      if end_index = npos
      then Some (push_piece whitespace result_type (substr input begin_index npos) result)
      else split_substr_loop input delim whitespace result_type (size_add end_index (length delim))
             (push_piece whitespace result_type (substr input begin_index (size_sub end_index begin_index)) result))"

definition split_string_using_substr :: "string \<Rightarrow> string \<Rightarrow> whitespace_handling \<Rightarrow> split_result \<Rightarrow> string list option" where
  "split_string_using_substr input delim whitespace result_type = split_substr_loop input delim whitespace result_type 0 []"

section \<open>Key-value pairs\<close>

definition append_string_key_value :: "string \<Rightarrow> char \<Rightarrow> (string \<times> string) list \<Rightarrow> bool \<times> (string \<times> string) list" where
  "append_string_key_value input d result =
     (let end_key_pos = find_char input d 0 in
      if end_key_pos = npos then (False, result @ [([], [])])
      else
        let key = copy_to_string (substr input 0 end_key_pos) [];
            remains = substr input end_key_pos (size_sub (length input) end_key_pos);
            begin_value_pos = find_first_not_of_char remains d 0
        in if begin_value_pos = npos then (False, result @ [(key, [])])
           else (True, result @ [(key, copy_to_string (substr remains begin_value_pos (size_sub (length remains) begin_value_pos)) [])]))"

fun append_pairs :: "string list \<Rightarrow> char \<Rightarrow> bool \<Rightarrow> (string \<times> string) list \<Rightarrow> bool \<times> (string \<times> string) list" where
  "append_pairs [] d success result = (success, result)"
| "append_pairs (p # ps) d success result =
     (let (ok, result1) = append_string_key_value p d result in append_pairs ps d (success \<and> ok) result1)"

definition split_string_into_key_value_pairs :: "string \<Rightarrow> char \<Rightarrow> char \<Rightarrow> (bool \<times> (string \<times> string) list) option" where
  "split_string_into_key_value_pairs input d pd =
     map_option (\<lambda>pairs. append_pairs pairs d True []) (split_string input [pd] TRIM_WHITESPACE SPLIT_WANT_NONEMPTY)"

section \<open>What splitting means\<close>

function split_on :: "(string \<Rightarrow> nat option) \<Rightarrow> nat \<Rightarrow> string \<Rightarrow> string list" where
  "split_on first n xs =
     (case first xs of
        None \<Rightarrow> [xs]
      | Some k \<Rightarrow> if 0 < n \<and> k + n \<le> length xs then take k xs # split_on first n (drop (k + n) xs) else [xs])"
  by pat_completeness auto
termination
  by (relation "measure (\<lambda>(first, n, xs). length xs)") auto

declare split_on.simps [simp del]

definition tidy :: "whitespace_handling \<Rightarrow> split_result \<Rightarrow> string list \<Rightarrow> string list" where
  "tidy ws rt ps =
     filter (\<lambda>p. rt = SPLIT_WANT_ALL \<or> p \<noteq> []) (map (if ws = TRIM_WHITESPACE then trimmed TRIM_ALL kWhitespace else id) ps)"

lemma tidy_simps [simp]: "tidy ws rt [] = []" "tidy KEEP_WHITESPACE SPLIT_WANT_ALL ps = ps"
  by (simp_all add: tidy_def)

lemma push_piece_tidy: "length p \<le> vec_max \<Longrightarrow> push_piece ws rt p result = result @ tidy ws rt [p]"
  by (simp add: push_piece_def tidy_def trim_string_piece_correct)

lemma tidy_Cons: "tidy ws rt (p # ps) = tidy ws rt [p] @ tidy ws rt ps"
  by (simp add: tidy_def)

context matching
begin

lemma split_on_none: "first xs = None \<Longrightarrow> split_on first n xs = [xs]"
  by (subst split_on.simps) simp

lemma split_on_some: "first xs = Some k \<Longrightarrow> split_on first n xs = take k xs # split_on first n (drop (k + n) xs)"
  using match_inside [of xs k] match_nonempty by (subst split_on.simps) simp

lemma split_on_nonempty: "split_on first n xs \<noteq> []"
  by (cases "first xs") (simp_all add: split_on_none split_on_some)

text \<open>Joining the pieces with what separated them gives the string back.\<close>

lemma join_split_on:
  assumes sep: "\<And>xs k. first xs = Some k \<Longrightarrow> take n (drop k xs) = d"
  shows "join_string (split_on first n xs) d = xs"
proof (induction xs rule: suffix_induct)
  case (some xs k)
  obtain p ps where ps: "split_on first n (drop (k + n) xs) = p # ps"
    using split_on_nonempty [of "drop (k + n) xs"] by (cases "split_on first n (drop (k + n) xs)") auto
  have "take k xs @ d @ drop (k + n) xs = xs"
    unfolding sep [OF some(1), symmetric] by (metis add.commute append_take_drop_id drop_drop)
  with some ps show ?case by (simp add: split_on_some)
qed (simp add: split_on_none)

end

lemma substr_to_end: "i \<le> length xs \<Longrightarrow> length xs \<le> vec_max \<Longrightarrow> substr xs i npos = drop i xs"
  using npos_large [of "length xs"] by (simp add: substr_def)

lemma substr_between: "i \<le> j \<Longrightarrow> j \<le> length xs \<Longrightarrow> substr xs i (size_sub j i) = take (j - i) (drop i xs)"
  by (simp add: substr_def)

lemma substr_rest: "i \<le> length xs \<Longrightarrow> substr xs i (size_sub (length xs) i) = drop i xs"
  by (simp add: substr_def)

lemma find_char_set: "find_char xs c pos = std_string_find_first_of [c] xs pos"
  by (simp add: find_char_def std_string_find_first_of_def scan_up_behind)

lemma find_first_of_set: "find_first_of xs cs pos = std_string_find_first_of cs xs pos"
proof -
  have none: "scan_up (\<lambda>c. False) xs pos = npos"
  proof (induction "\<lambda>c :: char. False" xs pos rule: scan_up.induct)
    case (1 xs i)
    then show ?case by (subst scan_up.simps) simp
  qed
  show ?thesis
  proof (cases "xs = [] \<or> cs = []")
    case True
    then show ?thesis using none by (auto simp: find_first_of_def std_string_find_first_of_def scan_up_behind)
  next
    case False
    show ?thesis
    proof (cases "length cs = 1")
      case True
      then obtain c where "cs = [c]" by (cases cs) auto
      with False show ?thesis by (simp add: find_first_of_def find_char_set)
    qed (use False in \<open>simp add: find_first_of_def std_string_find_first_of_def\<close>)
  qed
qed

fun delimiter_set :: "delimiter \<Rightarrow> string" where
  "delimiter_set (Delim_char c) = [c]"
| "delimiter_set (Delim_any cs) = cs"

lemma find_delimiter_set: "find_delimiter xs d pos = std_string_find_first_of (delimiter_set d) xs pos"
  by (cases d) (simp_all add: find_char_set find_first_of_set)

lemma split_loop_result:
  "length str \<le> vec_max \<Longrightarrow> start \<le> length str \<Longrightarrow>
     split_loop str d ws rt start result = Some (result @ tidy ws rt (split_on (first_of_set (delimiter_set d)) 1 (drop start str)))"
proof (induction "length str - start" arbitrary: start result rule: less_induct)
  case less
  let ?f = "first_of_set (delimiter_set d)"
  have np: "start \<noteq> npos" using less.prems npos_large [of "length str"] by auto
  show ?case
  proof (cases "?f (drop start str)")
    case None
    have fnd: "find_delimiter str d start = npos" unfolding find_delimiter_set by (rule characters.find_none [OF less.prems None])
    show ?thesis
      using np fnd less.prems None
      by (subst split_loop.simps, subst split_loop.simps) (simp add: substr_to_end push_piece_tidy characters.split_on_none [simplified])
  next
    case (Some k)
    note f = characters.find_found [OF less.prems Some]
    have fnd: "find_delimiter str d start = start + k" unfolding find_delimiter_set by (rule f(1))
    have add: "size_add (start + k) 1 = start + k + 1" by (rule characters.small_add [OF less.prems(1) f(2)])
    have sub: "substr str start (size_sub (start + k) start) = take k (drop start str)" using substr_between [of start "start + k" str] f(2) by simp
    have "split_loop str d ws rt start result
        = split_loop str d ws rt (start + k + 1) (push_piece ws rt (take k (drop start str)) result)"
      using np f(3) by (subst split_loop.simps) (simp only: fnd Let_def add sub if_False)
    also have "\<dots> = Some (push_piece ws rt (take k (drop start str)) result @ tidy ws rt (split_on ?f 1 (drop (start + k + 1) str)))"
      by (rule less.hyps) (use f(2) less.prems in simp_all)
    also have "\<dots> = Some (result @ tidy ws rt (split_on ?f 1 (drop start str)))"
      using less.prems Some characters.split_on_some [OF Some]
        tidy_Cons [of ws rt "take k (drop start str)" "split_on ?f 1 (drop (start + k + 1) str)"]
      by (simp add: push_piece_tidy add.commute add.left_commute)
    finally show ?thesis .
  qed
qed

text \<open>The result of \<^verbatim>\<open>split_string\<close>: the pieces between separators, tidied.\<close>

lemma split_string_result:
  assumes "length input \<le> vec_max"
  shows "split_string input seps ws rt = Some (if input = [] then [] else tidy ws rt (split_on (first_of_set seps) 1 input))"
proof (cases "length seps = 1")
  case True
  then obtain c where "seps = [c]" by (cases seps) auto
  then show ?thesis using split_loop_result [OF assms, of 0 "Delim_char c"] by (simp add: split_string_def split_string_T_def)
next
  case False
  then show ?thesis using split_loop_result [OF assms, of 0 "Delim_any seps"] by (simp add: split_string_def split_string_T_def)
qed

lemma piece_find_std: "piece_find input s pos = std_string_find s input pos"
  by (simp add: piece_find_def std_string_find_def Let_def)

lemma split_substr_loop_result:
  "length str \<le> vec_max \<Longrightarrow> start \<le> length str \<Longrightarrow>
     split_substr_loop str (c # s) ws rt start result
       = Some (result @ tidy ws rt (split_on (first_occurrence (c # s)) (Suc (length s)) (drop start str)))"
proof (induction "length str - start" arbitrary: start result rule: less_induct)
  case less
  let ?f = "first_occurrence (c # s)" and ?n = "Suc (length s)"
  show ?case
  proof (cases "?f (drop start str)")
    case None
    have fnd: "piece_find str (c # s) start = npos" unfolding piece_find_std by (rule substring.find_none [OF less.prems None])
    show ?thesis
      using fnd less.prems None
      by (subst split_substr_loop.simps) (simp add: substr_to_end push_piece_tidy substring.split_on_none)
  next
    case (Some k)
    note f = substring.find_found [OF less.prems Some]
    have fnd: "piece_find str (c # s) start = start + k" unfolding piece_find_std by (rule f(1))
    have add: "size_add (start + k) (length (c # s)) = start + k + ?n" using substring.small_add [OF less.prems(1) f(2)] by simp
    have sub: "substr str start (size_sub (start + k) start) = take k (drop start str)" using substr_between [of start "start + k" str] f(2) by simp
    have "split_substr_loop str (c # s) ws rt start result
        = split_substr_loop str (c # s) ws rt (start + k + ?n) (push_piece ws rt (take k (drop start str)) result)"
      using f(3) by (subst split_substr_loop.simps) (simp only: fnd Let_def add sub if_False)
    also have "\<dots> = Some (push_piece ws rt (take k (drop start str)) result @ tidy ws rt (split_on ?f ?n (drop (start + k + ?n) str)))"
      by (rule less.hyps) (use f(2) less.prems in simp_all)
    also have "\<dots> = Some (result @ tidy ws rt (split_on ?f ?n (drop start str)))"
      using less.prems Some substring.split_on_some [OF Some]
        tidy_Cons [of ws rt "take k (drop start str)" "split_on ?f ?n (drop (start + k + ?n) str)"]
      by (simp add: push_piece_tidy add.commute add.left_commute)
    finally show ?thesis .
  qed
qed

lemma split_string_using_substr_result:
  assumes "length input \<le> vec_max" and "d \<noteq> []"
  shows "split_string_using_substr input d ws rt = Some (tidy ws rt (split_on (first_occurrence d) (length d) input))"
proof -
  obtain c s where "d = c # s" using assms(2) by (cases d) auto
  then show ?thesis using split_substr_loop_result [OF assms(1), of 0 c s] by (simp add: split_string_using_substr_def)
qed

text \<open>An empty delimiter is found where the search begins, and the search begins there again.\<close>

lemma split_substr_loop_empty:
  assumes "split_substr_loop input d ws rt i result = Some ps"
  shows "d = [] \<longrightarrow> i \<le> length input \<longrightarrow> length input \<le> vec_max \<longrightarrow> False"
proof (rule split_substr_loop.raw_induct [OF _ assms])
  fix loop input d ws rt i result ps
  assume ih: "\<And>input d ws rt i result ps. loop input d ws rt i result = Some ps \<Longrightarrow>
      d = [] \<longrightarrow> i \<le> length input \<longrightarrow> length input \<le> vec_max \<longrightarrow> False"
    and body: "(let end_index = piece_find input d i in
      if end_index = npos then Some (push_piece ws rt (substr input i npos) result)
      else loop input d ws rt (size_add end_index (length d)) (push_piece ws rt (substr input i (size_sub end_index i)) result)) = Some ps"
  show "d = [] \<longrightarrow> i \<le> length input \<longrightarrow> length input \<le> vec_max \<longrightarrow> False"
  proof (intro impI)
    assume d: "d = []" and i: "i \<le> length input" and len: "length input \<le> vec_max"
    have z: "std_search xs [] = 0" for xs :: string by (cases xs) simp_all
    have fnd: "piece_find input d i = i" using i by (simp add: piece_find_def d z)
    have np: "i \<noteq> npos" using i npos_large [OF len] by linarith
    have add: "size_add i (length d) = i" using i len by (simp add: d size_add_small vec_max_def)
    have "\<exists>res. loop input d ws rt i res = Some ps" using body np unfolding fnd Let_def by (auto simp: add)
    then show False using ih d i len by blast
  qed
qed

text \<open>What a key-value entry yields: the key before the first delimiter, the value behind the delimiters that follow it. The key may be empty.\<close>

lemma takeWhile_less: "length (takeWhile P xs) < length xs \<longleftrightarrow> dropWhile P xs \<noteq> []"
  by (induction xs) auto

lemma first_not_char:
  assumes "r \<noteq> []"
  shows "find_first_not_of_char r d 0 = (if dropWhile (\<lambda>c. c = d) r = [] then npos else length (takeWhile (\<lambda>c. c = d) r))"
proof -
  have "scan_up (\<lambda>c. c \<noteq> d) r 0 = (if dropWhile (\<lambda>c. c = d) r \<noteq> [] then length (takeWhile (\<lambda>c. c = d) r) else npos)"
    using scan_up_suffix [of 0 r "\<lambda>c. c \<noteq> d"] by (simp only: Let_def drop_0 add_0 not_not le0 simp_thms takeWhile_less)
  with assms show ?thesis unfolding find_first_not_of_char_def length_0_conv by (auto simp del: dropWhile_eq_Nil_conv)
qed

lemma append_string_key_value_result:
  assumes "length input \<le> vec_max"
  shows "append_string_key_value input d result =
    (let value = dropWhile (\<lambda>c. c = d) (dropWhile (\<lambda>c. c \<noteq> d) input) in
     if d \<notin> set input then (False, result @ [([], [])])
     else (value \<noteq> [], result @ [(takeWhile (\<lambda>c. c \<noteq> d) input, value)]))"
proof (cases "d \<in> set input")
  case False
  then have "find_char input d 0 = npos"
    using characters.find_none [OF assms, of 0 "[d]"] by (simp add: find_char_set first_of_set_None)
  with False show ?thesis by (simp add: append_string_key_value_def)
next
  case True
  let ?k = "length (takeWhile (\<lambda>c. c \<noteq> d) input)" and ?r = "dropWhile (\<lambda>c. c \<noteq> d) input"
  have k: "?k < length input" using True by (induction input) auto
  have fnd: "find_char input d 0 = ?k"
    using k by (simp add: find_char_set std_string_find_first_of_def scan_up_suffix Let_def)
  have np: "i \<noteq> npos" if "i < length input" for i using that npos_large [OF assms] by linarith
  have key: "substr input 0 ?k = takeWhile (\<lambda>c. c \<noteq> d) input" using k by (simp add: substr_def takeWhile_eq_take [symmetric])
  have rem: "substr input ?k (size_sub (length input) ?k) = ?r" using substr_rest [of ?k input] k by (simp add: dropWhile_eq_drop [symmetric])
  have rl: "length ?r \<le> length input" by (rule length_dropWhile_le)
  have rne: "?r \<noteq> []" using k unfolding takeWhile_less .
  let ?j = "length (takeWhile (\<lambda>c. c = d) ?r)" and ?v = "dropWhile (\<lambda>c. c = d) ?r"
  have j: "?j < length ?r \<longleftrightarrow> ?v \<noteq> []" by (rule takeWhile_less)
  have bv: "find_first_not_of_char ?r d 0 = (if ?v = [] then npos else ?j)"
    by (rule first_not_char [OF rne])
  show ?thesis
  proof (cases "?v = []")
    case v: True
    then show ?thesis using True fnd np [OF k] bv by (simp add: append_string_key_value_def key rem Let_def copy_to_string_def del: dropWhile_eq_Nil_conv)
  next
    case False
    have "substr ?r ?j (size_sub (length ?r) ?j) = ?v" using substr_rest [of ?j ?r] False j by (simp add: dropWhile_eq_drop [symmetric])
    moreover have "?j \<noteq> npos" using j False rl by (intro np) (simp del: dropWhile_eq_Nil_conv)
    ultimately show ?thesis using True False fnd np [OF k] bv by (simp add: append_string_key_value_def key rem Let_def copy_to_string_def del: dropWhile_eq_Nil_conv)
  qed
qed

lemma key_value_empty_key:
  "split_string_into_key_value_pairs ''=v'' (CHR ''='') (CHR '';'') = Some (True, [([], ''v'')])"
proof -
  have "tidy TRIM_WHITESPACE SPLIT_WANT_NONEMPTY (split_on (first_of_set '';'') 1 ''=v'') = [''=v'']" by code_simp
  then have "split_string ''=v'' '';'' TRIM_WHITESPACE SPLIT_WANT_NONEMPTY = Some [''=v'']"
    using split_string_result [of "''=v''" "'';''" TRIM_WHITESPACE SPLIT_WANT_NONEMPTY] by (simp add: vec_max_def)
  then show ?thesis
    by (simp add: split_string_into_key_value_pairs_def append_string_key_value_result vec_max_def)
qed

section \<open>Properties\<close>

lemma first_of_single: "first_of_set [c] xs = Some k \<Longrightarrow> take 1 (drop k xs) = [c]"
proof -
  assume a: "first_of_set [c] xs = Some k"
  then have "k < length xs" by (auto simp: first_of_set_def Let_def split: if_splits)
  with first_of_set_Some(2) [OF a] show ?thesis by (simp add: take_Suc_conv_app_nth hd_drop_conv_nth take_Suc)
qed

lemma pieces_free: "p \<in> set (split_on (first_of_set cs) 1 xs) \<Longrightarrow> set p \<inter> set cs = {}"
proof (induction xs rule: characters.suffix_induct [where cs = cs])
  case (none xs)
  then show ?case using characters.split_on_none [OF none(1)] by (simp add: first_of_set_None)
next
  case (some xs k)
  then show ?case using characters.split_on_some [OF some(1)] first_of_set_Some(3) [OF some(1)] by auto
qed

lemma first_occurrence_text: "first_occurrence d xs = Some k \<Longrightarrow> take (length d) (drop k xs) = d"
  by (simp add: first_occurrence_Some occurs_at_def)



text \<open>Splitting at an empty substring does not return: the loop finds the empty delimiter at the place where it begins to search and begins there again,
  for every input.\<close>

lemma split_empty_delimiter_hangs:
  assumes "length input \<le> vec_max"
  shows "split_string_using_substr input [] ws rt = None"
proof (cases "split_string_using_substr input [] ws rt")
  case (Some ps)
  then show ?thesis using split_substr_loop_empty [of input "[]" ws rt 0 "[]" ps] assms by (simp add: split_string_using_substr_def)
qed

end
