(* ===== verification/File_Path.thy ===== *)
theory File_Path
  imports String_Util
begin

text \<open>
  File paths (include/files/FilePath.h, src/FilePath.cc) on POSIX: a path is the string \<^verbatim>\<open>path_\<close>. Of the functions of \<^verbatim>\<open>std::string\<close> the code calls,
  the searches are the loops of \<^const>\<open>scan_up\<close> and \<^const>\<open>scan_down\<close>, and \<^verbatim>\<open>resize\<close>, \<^verbatim>\<open>erase\<close> and \<^verbatim>\<open>substr\<close> are
  \<^const>\<open>take\<close> and \<^const>\<open>drop\<close>. \<^verbatim>\<open>strcasecmp\<close> is that of the C locale.
\<close>

section \<open>Helpers\<close>

definition kSeparators :: string where
  "kSeparators = ''/''"

definition kCurrentDirectory :: string where
  "kCurrentDirectory = ''.''"

definition kParentDirectory :: string where
  "kParentDirectory = ''..''"

definition kExtensionSeparator :: char where
  "kExtensionSeparator = CHR ''.''"

definition kCommonDoubleExtensionSuffixes :: "string list" where
  "kCommonDoubleExtensionSuffixes = [''gz'', ''z'', ''bz2'', ''bz'']"

definition kCommonDoubleExtensions :: "string list" where
  "kCommonDoubleExtensions = [''user.js'']"

definition is_separator :: "char \<Rightarrow> bool" where
  "is_separator c = list_ex (\<lambda>s. c = s) kSeparators"

definition std_string_rfind_char :: "string \<Rightarrow> char \<Rightarrow> nat \<Rightarrow> nat" where
  "std_string_rfind_char xs c pos = (if xs = [] then npos else scan_down (\<lambda>x. x = c) xs (min pos (length xs - 1)))"

definition std_string_find_last_of :: "string \<Rightarrow> string \<Rightarrow> nat \<Rightarrow> nat" where
  "std_string_find_last_of xs cs pos = (if xs = [] then npos else scan_down (\<lambda>x. x \<in> set cs) xs (min pos (length xs - 1)))"

definition find_drive_letter :: "string \<Rightarrow> nat" where
  "find_drive_letter path = npos"

definition is_path_absolute :: "string \<Rightarrow> bool" where
  "is_path_absolute path \<longleftrightarrow> length path > 0 \<and> is_separator (path ! 0)"

definition are_all_separators :: "string \<Rightarrow> bool" where
  "are_all_separators input = list_all is_separator input"

definition final_extension_separator_position :: "string \<Rightarrow> nat" where
  "final_extension_separator_position path =
     (if path = kCurrentDirectory \<or> path = kParentDirectory then npos
      else std_string_rfind_char path kExtensionSeparator npos)"

definition extension_separator_position :: "string \<Rightarrow> nat" where
  "extension_separator_position path =
     (let last_dot = final_extension_separator_position path in
      if last_dot = npos \<or> last_dot = 0 then last_dot
      else
        let penultimate_dot = std_string_rfind_char path kExtensionSeparator (last_dot - 1);
            last_separator = std_string_find_last_of path kSeparators (last_dot - 1)
        in if penultimate_dot = npos \<or> (last_separator \<noteq> npos \<and> penultimate_dot < last_separator) then last_dot
           else if list_ex (lower_case_equals (drop (penultimate_dot + 1) path)) kCommonDoubleExtensions then penultimate_dot
           else if list_ex (\<lambda>e. lower_case_equals (drop (last_dot + 1) path) e
                     \<and> last_dot - penultimate_dot \<le> 5 \<and> last_dot - penultimate_dot > 1) kCommonDoubleExtensionSuffixes
           then penultimate_dot
           else last_dot)"

definition is_empty_or_special_case :: "string \<Rightarrow> bool" where
  "is_empty_or_special_case path \<longleftrightarrow> path = [] \<or> path = kCurrentDirectory \<or> path = kParentDirectory"

section \<open>Construction and separators\<close>

definition make_path :: "string \<Rightarrow> string" where
  "make_path path =
     (let self = copy_to_string path [];
          nul_pos = find_char self kNul 0
      in if nul_pos \<noteq> npos then take nul_pos self else self)"

text \<open>The loop of \<^verbatim>\<open>strip_trailing_separators_internal\<close> at the position \<open>pos\<close>.\<close>

fun strip_loop :: "nat \<Rightarrow> nat \<Rightarrow> nat \<Rightarrow> string \<Rightarrow> string" where
  "strip_loop start last_stripped 0 path = path"
| "strip_loop start last_stripped (Suc p) path =
     (if Suc p > start \<and> is_separator (path ! p) then
        if Suc p \<noteq> start + 1 \<or> last_stripped = start + 2 \<or> \<not> is_separator (path ! (start - 1))
        then strip_loop start (Suc p) p (take p path)
        else strip_loop start last_stripped p path
      else path)"

definition strip_trailing_separators_internal :: "string \<Rightarrow> string" where
  "strip_trailing_separators_internal path = strip_loop (size_add (find_drive_letter path) 2) npos (length path) path"

definition strip_trailing_separators :: "string \<Rightarrow> string" where
  "strip_trailing_separators path = strip_trailing_separators_internal (make_path path)"

definition is_absolute :: "string \<Rightarrow> bool" where
  "is_absolute path = is_path_absolute path"

definition ends_with_separator :: "string \<Rightarrow> bool" where
  "ends_with_separator path = (if path = [] then False else is_separator (last path))"

definition as_ending_with_separator :: "string \<Rightarrow> string" where
  "as_ending_with_separator path =
     (if ends_with_separator path \<or> path = [] then path else make_path (path @ [kSeparators ! 0]))"

definition normalize_path_separators_to :: "char \<Rightarrow> string \<Rightarrow> string" where
  "normalize_path_separators_to separator path = path"

section \<open>Directory, name and components\<close>

definition dirname :: "string \<Rightarrow> string" where
  "dirname path =
     (let new_path = strip_trailing_separators_internal (make_path path);
          letter = find_drive_letter new_path;
          last_separator = std_string_find_last_of new_path kSeparators npos;
          new_path1 =
            (if last_separator = npos then take (size_add letter 1) new_path
             else if last_separator = size_add letter 1 then take (size_add letter 2) new_path
             else if last_separator = size_add letter 2 \<and> is_separator (new_path ! (size_add letter 1)) then take (size_add letter 3) new_path
             else if last_separator \<noteq> 0 then take last_separator new_path else new_path);
          new_path2 = strip_trailing_separators_internal new_path1
      in if length new_path2 = 0 then kCurrentDirectory else new_path2)"

definition basename :: "string \<Rightarrow> string" where
  "basename path =
     (let new_path = strip_trailing_separators_internal (make_path path);
          letter = find_drive_letter new_path;
          new_path1 = (if letter \<noteq> npos then drop (letter + 1) new_path else new_path);
          last_separator = std_string_find_last_of new_path1 kSeparators npos
      in if last_separator \<noteq> npos \<and> last_separator < size_sub (length new_path1) 1 then drop (last_separator + 1) new_path1 else new_path1)"

partial_function (option) components_loop :: "string \<Rightarrow> string list \<Rightarrow> (string \<times> string list) option" where
  "components_loop current ret_val =
     (if current \<noteq> dirname current
      then let base = basename current
           in components_loop (dirname current) (if \<not> are_all_separators base then ret_val @ [base] else ret_val)
      else Some (current, ret_val))"

definition get_components :: "string \<Rightarrow> string list option" where
  "get_components path =
     (if path = [] then Some []
      else map_option (\<lambda>(current, ret_val).
             let base = basename current;
                 ret1 = (if base \<noteq> [] \<and> base \<noteq> kCurrentDirectory then ret_val @ [basename current] else ret_val);
                 dir = dirname current;
                 letter = find_drive_letter dir;
                 ret2 = (if letter \<noteq> npos then ret1 @ [take (letter + 1) dir] else ret1)
             in rev ret2) (components_loop path []))"

definition path_append :: "string \<Rightarrow> string \<Rightarrow> string res" where
  "path_append path component =
     (let nul_pos = find_char component kNul 0;
          appended = (if nul_pos \<noteq> npos then copy_to_string (substr component 0 nul_pos) [] else component)
      in check (\<not> is_path_absolute appended)
         (if path = kCurrentDirectory \<and> appended \<noteq> [] then Inr (make_path appended)
          else
            let new_path = strip_trailing_separators_internal (make_path path);
                new_path1 =
                  (if appended \<noteq> [] \<and> new_path \<noteq> [] \<and> \<not> is_separator (last new_path)
                      \<and> size_add (find_drive_letter new_path) 1 \<noteq> length new_path
                   then new_path @ [kSeparators ! 0] else new_path)
            in Inr (append_to_string appended new_path1)))"

fun append_components :: "string list \<Rightarrow> string \<Rightarrow> string res" where
  "append_components [] path = Inr path"
| "append_components (c # cs) path = bindR (path_append path c) (append_components cs)"

definition append_relative_path :: "string \<Rightarrow> string \<Rightarrow> string option \<Rightarrow> (bool \<times> string option) res option" where
  "append_relative_path self child path =
     (case get_components self of None \<Rightarrow> None | Some parent_components \<Rightarrow>
      (case get_components child of None \<Rightarrow> None | Some child_components \<Rightarrow>
        if parent_components = [] \<or> length parent_components \<ge> length child_components then Some (Inr (False, path))
        else if take (length parent_components) child_components \<noteq> parent_components then Some (Inr (False, path))
        else (case path of
                None \<Rightarrow> Some (Inr (True, None))
              | Some p \<Rightarrow> Some (bindR (append_components (drop (length parent_components) child_components) p) (\<lambda>p1. Inr (True, Some p1))))))"

definition is_parent :: "string \<Rightarrow> string \<Rightarrow> bool option" where
  "is_parent self child = map_option (\<lambda>r. case r of Inl _ \<Rightarrow> False | Inr (b, _) \<Rightarrow> b) (append_relative_path self child None)"

definition references_parent :: "string \<Rightarrow> bool option" where
  "references_parent path =
     (if piece_find path kParentDirectory 0 = npos then Some False
      else map_option (list_ex (\<lambda>component. scan_up (\<lambda>c. c \<notin> set (''. '' @ [CHR 0x0A, CHR 0x0D, CHR 0x09])) component 0 = npos
               \<and> piece_find component kParentDirectory 0 \<noteq> npos)) (get_components path))"

section \<open>Extensions\<close>

definition extension :: "string \<Rightarrow> string" where
  "extension path =
     (let base = basename path; dot = extension_separator_position base in if dot = npos then [] else drop dot base)"

definition final_extension :: "string \<Rightarrow> string" where
  "final_extension path =
     (let base = basename path; dot = final_extension_separator_position base in if dot = npos then [] else drop dot base)"

definition remove_extension :: "string \<Rightarrow> string" where
  "remove_extension path =
     (if extension path = [] then path
      else let dot = extension_separator_position path in if dot = npos then path else make_path (take dot path))"

definition remove_final_extension :: "string \<Rightarrow> string" where
  "remove_final_extension path =
     (if final_extension path = [] then path
      else let dot = final_extension_separator_position path in if dot = npos then path else make_path (take dot path))"

definition insert_before_extension :: "string \<Rightarrow> string \<Rightarrow> string" where
  "insert_before_extension path suff =
     (if suff = [] then make_path path
      else if is_empty_or_special_case (basename path) then []
      else make_path (append_to_string suff (remove_extension path) @ extension path))"

definition add_extension :: "string \<Rightarrow> string \<Rightarrow> string" where
  "add_extension path ext =
     (if is_empty_or_special_case (basename path) then []
      else if ext = [] \<or> (length ext = 1 \<and> ext ! 0 = kExtensionSeparator) then path
      else let str = (if ext ! 0 \<noteq> kExtensionSeparator \<and> last path \<noteq> kExtensionSeparator then path @ [kExtensionSeparator] else path)
           in make_path (append_to_string ext str))"

definition replace_extension :: "string \<Rightarrow> string \<Rightarrow> string" where
  "replace_extension path ext =
     (if is_empty_or_special_case (basename path) then []
      else let no_ext = remove_extension path in
        if ext = [] \<or> (length ext = 1 \<and> ext ! 0 = kExtensionSeparator) then no_ext
        else let str = (if ext ! 0 \<noteq> kExtensionSeparator then no_ext @ [kExtensionSeparator] else no_ext)
             in make_path (append_to_string ext str))"

fun strcasecmp :: "string \<Rightarrow> string \<Rightarrow> int" where
  "strcasecmp [] [] = 0"
| "strcasecmp [] (y # ys) = - int (uchar (to_lower_char y))"
| "strcasecmp (x # xs) [] = int (uchar (to_lower_char x))"
| "strcasecmp (x # xs) (y # ys) =
     (if to_lower_char x = to_lower_char y then strcasecmp xs ys else int (uchar (to_lower_char x)) - int (uchar (to_lower_char y)))"

definition compare_ignore_case :: "string \<Rightarrow> string \<Rightarrow> int" where
  "compare_ignore_case string1 string2 =
     (let comparison = strcasecmp (takeWhile (\<lambda>c. c \<noteq> kNul) string1) (takeWhile (\<lambda>c. c \<noteq> kNul) string2)
      in if comparison < 0 then - 1 else if comparison > 0 then 1 else 0)"

definition matches_extension :: "string \<Rightarrow> string \<Rightarrow> bool res" where
  "matches_extension path ext =
     check (ext = [] \<or> ext ! 0 = kExtensionSeparator)
     (let current_extension = extension path in
      if length current_extension \<noteq> length ext then Inr False else Inr (compare_ignore_case ext current_extension = 0))"

section \<open>Separators\<close>

lemma is_separator_iff [simp]: "is_separator c \<longleftrightarrow> c = CHR ''/''"
  by (simp add: is_separator_def kSeparators_def)

lemma sep_consts [simp]: "set kSeparators = {CHR ''/''}" "kSeparators ! 0 = CHR ''/''"
  by (simp_all add: kSeparators_def)

lemma drive_letter [simp]:
  "find_drive_letter p = npos" "size_add npos (Suc 0) = 0" "size_add npos 2 = Suc 0" "size_add npos 3 = 2"
  by (simp_all add: find_drive_letter_def size_add_def npos_def)

lemma find_nul_none: "kNul \<notin> set p \<Longrightarrow> find_char p kNul 0 = npos"
proof -
  assume "kNul \<notin> set p"
  then have "scan_up (\<lambda>x. x = kNul) p i = npos" for i
  proof (induction "length p - i" arbitrary: i rule: less_induct)
    case less
    show ?case
    proof (cases "i < length p")
      case True
      then have "p ! i \<noteq> kNul" using less.prems nth_mem by metis
      with True less show ?thesis by (subst scan_up.simps) simp
    qed (simp add: scan_up_behind)
  qed
  then show ?thesis by (simp add: find_char_def)
qed

lemma make_path_id: "kNul \<notin> set p \<Longrightarrow> make_path p = p"
  by (simp add: make_path_def copy_to_string_def find_nul_none)

lemma make_path_takeWhile: "length p \<le> vec_max \<Longrightarrow> make_path p = takeWhile (\<lambda>c. c \<noteq> kNul) p"
proof -
  assume len: "length p \<le> vec_max"
  let ?k = "length (takeWhile (\<lambda>c. c \<noteq> kNul) p)"
  show ?thesis
  proof (cases "kNul \<in> set p")
    case True
    then have k: "?k < length p" by (induction p) auto
    then have "find_char p kNul 0 = ?k" by (auto simp: find_char_def scan_up_suffix Let_def)
    moreover have "?k \<noteq> npos" using k npos_large [OF len] by linarith
    ultimately show ?thesis using True by (auto simp: make_path_def copy_to_string_def takeWhile_eq_take [symmetric])
  next
    case False
    moreover from this have "takeWhile (\<lambda>c. c \<noteq> kNul) p = p" by (auto simp: takeWhile_eq_all_conv)
    ultimately show ?thesis by (metis make_path_id)
  qed
qed

lemma make_path_no_nul: "length p \<le> vec_max \<Longrightarrow> kNul \<notin> set (make_path p)"
  by (auto simp: make_path_takeWhile dest: set_takeWhileD)

definition all_sep :: "string \<Rightarrow> bool" where
  "all_sep p \<longleftrightarrow> set p \<subseteq> {CHR ''/''}"

lemma all_sep_replicate: "all_sep p \<Longrightarrow> replicate (length p) (CHR ''/'') = p"
  by (rule replicate_length_same) (auto simp: all_sep_def)

lemma strip_loop_result:
  assumes "last_stripped \<noteq> 3 \<or> length p \<le> 2"
  shows "strip_loop 1 last_stripped (length p) p =
    (if \<not> all_sep p then rtrim ''/'' p
     else if length p \<le> 1 \<or> (length p = 2 \<and> last_stripped \<noteq> 3) then p else ''/'')"
  using assms
proof (induction p arbitrary: last_stripped rule: rev_induct)
  case Nil
  then show ?case by (simp add: all_sep_def)
next
  case (snoc x p)
  show ?case
  proof (cases "x = CHR ''/''")
    case False
    then show ?thesis by (simp add: all_sep_def rtrim_def nth_append)
  next
    case True
    have nas: "all_sep (p @ [x]) \<longleftrightarrow> all_sep p" "rtrim ''/'' (p @ [x]) = rtrim ''/'' p" using True by (simp_all add: all_sep_def rtrim_def)
    consider (a) "length p = 0" | (b) "length p = 1" | (c) "length p \<ge> 2" by linarith
    then show ?thesis
    proof cases
      case a
      then show ?thesis using True by (simp add: all_sep_def)
    next
      case b
      then obtain y where y: "p = [y]" by (cases p) auto
      then show ?thesis using True by (auto simp: all_sep_def rtrim_def)
    next
      case c
      have "strip_loop 1 last_stripped (length (p @ [x])) (p @ [x]) = strip_loop 1 (Suc (length p)) (length p) p"
        using True c by (auto simp: nth_append)
      also have "\<dots> = (if \<not> all_sep p then rtrim ''/'' p else ''/'')"
      proof -
        have "Suc (length p) \<noteq> 3 \<or> length p \<le> 2" by auto
        from snoc.IH [OF this] show ?thesis using c by auto
      qed
      finally show ?thesis using nas c by auto
    qed
  qed
qed

definition stripped :: "string \<Rightarrow> string" where
  "stripped p = (if \<not> all_sep p then rtrim ''/'' p else if length p \<le> 2 then p else ''/'')"

lemma strip_internal: "strip_trailing_separators_internal p = stripped p"
proof -
  have "npos \<noteq> 3" by (simp add: npos_def)
  then show ?thesis
    using strip_loop_result [of npos p] by (simp add: strip_trailing_separators_internal_def stripped_def del: One_nat_def) auto
qed

section \<open>Directory and name\<close>

definition dir_part :: "string \<Rightarrow> string" where
  "dir_part s = rev (dropWhile (\<lambda>c. c \<noteq> CHR ''/'') (rev s))"

definition last_part :: "string \<Rightarrow> string" where
  "last_part s = rev (takeWhile (\<lambda>c. c \<noteq> CHR ''/'') (rev s))"

lemma parts: "dir_part s @ last_part s = s"
  by (metis dir_part_def last_part_def rev_append rev_rev_ident takeWhile_dropWhile_id)

lemma last_part_no_sep: "CHR ''/'' \<notin> set (last_part s)"
  by (auto simp: last_part_def dest: set_takeWhileD)

lemma dir_part_sep: "dir_part s \<noteq> [] \<Longrightarrow> last (dir_part s) = CHR ''/''"
  using hd_dropWhile [of "\<lambda>c. c \<noteq> CHR ''/''" "rev s"] by (simp add: dir_part_def last_rev del: dropWhile_eq_Nil_conv)

lemma parts_unique:
  assumes "CHR ''/'' \<notin> set b" and "a = [] \<or> last a = CHR ''/''"
  shows "dir_part (a @ b) = a" and "last_part (a @ b) = b"
proof -
  have t: "takeWhile (\<lambda>c. c \<noteq> CHR ''/'') (rev b @ rev a) = rev b"
  proof (cases a rule: rev_cases)
    case Nil
    then show ?thesis using assms(1) by (auto simp: takeWhile_eq_all_conv)
  next
    case (snoc ys y)
    then have "takeWhile (\<lambda>c. c \<noteq> CHR ''/'') (rev a) = []" using assms(2) by simp
    then show ?thesis using assms(1) by (subst takeWhile_append2) auto
  qed
  then show "last_part (a @ b) = b" by (simp add: last_part_def)
  then show "dir_part (a @ b) = a" using parts [of "a @ b"] by simp
qed

lemma find_last_separator:
  assumes "length s \<le> vec_max"
  shows "std_string_find_last_of s kSeparators npos = (if dir_part s = [] then npos else length (dir_part s) - 1)"
proof (cases "s = []")
  case False
  have m: "min npos (length s - 1) = length s - 1" using npos_large [OF assms] by simp
  have "scan_down (\<lambda>x. x \<in> set kSeparators) s (length s - 1) = (let k = length (dir_part s) in if k = 0 then npos else k - 1)"
    using False scan_down_rev [of "length s - 1" s "\<lambda>x. x \<in> set kSeparators"] by (simp add: dir_part_def)
  then show ?thesis using False m by (simp add: std_string_find_last_of_def Let_def)
qed (simp add: std_string_find_last_of_def dir_part_def)

lemma stripped_cases:
  obtains (empty) "p = []" "stripped p = []"
  | (root) "p \<noteq> []" "all_sep p" "stripped p = ''/'' \<or> stripped p = ''//''"
  | (name) "\<not> all_sep p" "stripped p = rtrim ''/'' p" "stripped p \<noteq> []" "last (stripped p) \<noteq> CHR ''/''"
proof -
  consider "p = []" | "p \<noteq> []" "all_sep p" | "\<not> all_sep p" by blast
  then show thesis
  proof cases
    case 1
    then show thesis by (intro empty) (simp_all add: stripped_def all_sep_def)
  next
    case 2
    then have "stripped p = ''/'' \<or> stripped p = ''//''"
      using all_sep_replicate [OF 2(2)]
      by (cases p; cases "tl p"; cases "tl (tl p)") (auto simp: stripped_def all_sep_def)
    with 2 show thesis by (rule root)
  next
    case 3
    then have s: "stripped p = rtrim ''/'' p" by (simp add: stripped_def)
    have ne: "rtrim ''/'' p \<noteq> []" using 3 by (simp add: rtrim_all all_sep_def)
    then have "last (rtrim ''/'' p) \<noteq> CHR ''/''" 
      using hd_dropWhile [of "\<lambda>c. c \<in> set ''/''" "rev p"] by (simp add: rtrim_def last_rev del: dropWhile_eq_Nil_conv)
    with 3 s ne show thesis by (intro name) simp_all
  qed
qed

lemma stripped_length: "length (stripped p) \<le> length p"
  using rtrim_length [of "''/''" p] by (auto simp: stripped_def)

lemma stripped_set: "set (stripped p) \<subseteq> set p \<union> {CHR ''/''}"
proof -
  have "set (rtrim ''/'' p) \<subseteq> set p" by (auto simp: rtrim_def dest: set_dropWhileD)
  then show ?thesis by (auto simp: stripped_def)
qed

lemma last_part_Nil: "last_part s = [] \<longleftrightarrow> s = [] \<or> last s = CHR ''/''"
  by (cases s rule: rev_cases) (simp_all add: last_part_def)

lemma stripped_name: "s \<noteq> [] \<Longrightarrow> last s \<noteq> CHR ''/'' \<Longrightarrow> stripped s = s"
proof -
  assume "s \<noteq> []" "last s \<noteq> CHR ''/''"
  then obtain ys y where "s = ys @ [y]" "y \<noteq> CHR ''/''" by (cases s rule: rev_cases) auto
  then show ?thesis by (simp add: stripped_def all_sep_def rtrim_def)
qed

lemma stripped_small [simp]: "stripped [] = []" "stripped ''/'' = ''/''" "stripped ''//'' = ''//''"
  by (simp_all add: stripped_def all_sep_def)

lemma dirname_eq:
  assumes "kNul \<notin> set p" and "length p \<le> vec_max"
  shows "dirname p = (let d = dir_part (stripped p) in
    if d = [] then ''.'' else if d = ''/'' \<or> d = ''//'' then d else stripped (butlast d))"
proof -
  define s where "s = stripped p"
  define d where "d = dir_part s"
  have len: "length s \<le> vec_max" using stripped_length [of p] assms(2) by (simp add: s_def)
  have fl: "std_string_find_last_of s kSeparators npos = (if d = [] then npos else length d - 1)"
    using find_last_separator [OF len] by (simp add: d_def)
  have sd: "s = d @ last_part s" using parts [of s] by (simp add: d_def)
  have dl: "length d \<le> length s" using sd by (metis length_append le_add1)
  have np: "length d - 1 \<noteq> npos" using dl npos_large [OF len] by linarith
  have dn: "dirname p =
      (let q = stripped (if d = [] then [] else if length d = 1 then take 1 s
          else if length d = 2 \<and> s ! 0 = CHR ''/'' then take 2 s else take (length d - 1) s)
       in if q = [] then ''.'' else q)"
  proof (cases "d = []")
    case True
    then show ?thesis
      unfolding dirname_def Let_def make_path_id [OF assms(1)] strip_internal s_def [symmetric] fl by (simp add: kCurrentDirectory_def Let_def)
  next
    case False
    then obtain m where m: "length d = Suc m" by (cases d) auto
    then show ?thesis
      unfolding dirname_def Let_def make_path_id [OF assms(1)] strip_internal s_def [symmetric] fl using False np
      by (cases m) (auto simp add: kCurrentDirectory_def Let_def)
  qed
  have goal: "(let d = dir_part (stripped p) in if d = [] then ''.'' else if d = ''/'' \<or> d = ''//'' then d else stripped (butlast d))
      = (if d = [] then ''.'' else if d = ''/'' \<or> d = ''//'' then d else stripped (butlast d))"
    by (simp add: s_def d_def)
  have ends: "d \<noteq> [] \<Longrightarrow> last d = CHR ''/''" using dir_part_sep by (simp add: d_def)
  consider (z) "d = []" | (one) "length d = 1" | (two) "length d = 2" "s ! 0 = CHR ''/''" | (more) "d \<noteq> []" "length d \<noteq> 1" "\<not> (length d = 2 \<and> s ! 0 = CHR ''/'')"
    by fastforce
  then show ?thesis
  proof cases
    case z
    then show ?thesis unfolding goal using dn by simp
  next
    case one
    then have "d = ''/''" using ends by (cases d) auto
    moreover from this have "take 1 s = ''/''" using sd by (metis append_take_drop_id append_eq_conv_conj one)
    ultimately show ?thesis unfolding goal using dn by simp
  next
    case two
    then obtain x y where xy: "d = [x, y]" by (cases d; cases "tl d") auto
    moreover have "x = CHR ''/''" using two(2) sd xy by (metis append_Cons nth_Cons_0)
    ultimately have d: "d = ''//''" using ends by simp
    have "take 2 s = ''//''" using sd d by (metis append_eq_conv_conj two(1))
    with two d show ?thesis unfolding goal using dn by simp
  next
    case more
    have "d \<noteq> ''/''" "d \<noteq> ''//''" using more sd by auto (metis append_Cons nth_Cons_0)
    have bl: "take (length d - 1) s = butlast d" using sd by (metis append_eq_conv_conj butlast_conv_take diff_le_self take_take min.absorb1)
    have "length d \<ge> 2" using more(1,2) by (cases d; cases "tl d") auto
    then have "butlast d \<noteq> []" by (cases d; cases "tl d") auto
    then have "stripped (butlast d) \<noteq> []" by (cases rule: stripped_cases [of "butlast d"]) auto
    with more bl \<open>d \<noteq> ''/''\<close> \<open>d \<noteq> ''//''\<close> show ?thesis unfolding goal using dn by (auto simp: Let_def)
  qed
qed

lemma basename_eq:
  assumes "kNul \<notin> set p" and "length p \<le> vec_max"
  shows "basename p = (if last_part (stripped p) = [] then stripped p else last_part (stripped p))"
proof -
  define s where "s = stripped p"
  have len: "length s \<le> vec_max" using stripped_length [of p] assms(2) by (simp add: s_def)
  note fl = find_last_separator [OF len]
  have bn: "basename p = (if std_string_find_last_of s kSeparators npos \<noteq> npos
      \<and> std_string_find_last_of s kSeparators npos < size_sub (length s) 1 then drop (std_string_find_last_of s kSeparators npos + 1) s else s)"
    unfolding basename_def Let_def make_path_id [OF assms(1)] strip_internal s_def [symmetric] by simp
  have sd: "length (dir_part s) + length (last_part s) = length s" "drop (length (dir_part s)) s = last_part s"
    using parts [of s] by (metis length_append, metis append_eq_conv_conj)
  show ?thesis
  proof (cases "dir_part s = []")
    case True
    then show ?thesis unfolding s_def [symmetric] bn fl using sd by simp
  next
    case False
    then obtain m where m: "length (dir_part s) = Suc m" by (cases "dir_part s") auto
    have "m \<noteq> npos" using m sd(1) npos_large [OF len] by linarith
    then show ?thesis unfolding s_def [symmetric] bn fl using False m sd by (cases "last_part s = []") auto
  qed
qed

section \<open>Components\<close>

text \<open>The names in a path: what lies between separators.\<close>

function segments :: "string \<Rightarrow> string list" where
  "segments p =
     (case dropWhile is_separator p of
        [] \<Rightarrow> []
      | c # q \<Rightarrow> (c # takeWhile (\<lambda>c. \<not> is_separator c) q) # segments (dropWhile (\<lambda>c. \<not> is_separator c) q))"
  by pat_completeness auto
termination
proof (relation "measure length")
  fix p c q
  assume "dropWhile is_separator p = c # q"
  then have "length q < length p" using length_dropWhile_le [of is_separator p] by simp
  then show "(dropWhile (\<lambda>c. \<not> is_separator c) q, p) \<in> measure length"
    using length_dropWhile_le [of "\<lambda>c. \<not> is_separator c" q] by simp
qed simp

declare segments.simps [simp del] dropWhile_eq_Nil_conv [simp del] takeWhile_eq_all_conv [simp del]

lemma segments_Nil [simp]: "segments [] = []"
  by (simp add: segments.simps)

lemma segments_sep [simp]: "segments (CHR ''/'' # p) = segments p"
  by (subst (1 2) segments.simps) simp

lemma segments_name: "b \<noteq> [] \<Longrightarrow> CHR ''/'' \<notin> set b \<Longrightarrow> segments b = [b]"
proof -
  assume b: "b \<noteq> []" "CHR ''/'' \<notin> set b"
  then obtain c q where bq: "b = c # q" by (cases b) auto
  have t: "takeWhile (\<lambda>c. \<not> is_separator c) q = q" and d: "dropWhile (\<lambda>c. \<not> is_separator c) q = []"
    using b(2) bq by (auto simp: takeWhile_eq_all_conv dropWhile_eq_Nil_conv)
  have "dropWhile is_separator b = c # q" using b(2) bq by auto
  then show ?thesis unfolding segments.simps [of b] by (simp only: list.case t d segments_Nil bq)
qed

lemma segments_append: "segments (p @ CHR ''/'' # q) = segments p @ segments q"
proof (induction p rule: segments.induct)
  case (1 p)
  show ?case
  proof (cases "dropWhile is_separator p")
    case Nil
    then have "set p \<subseteq> {CHR ''/''}" by (auto simp: dropWhile_eq_Nil_conv)
    then have "dropWhile is_separator (p @ CHR ''/'' # q) = dropWhile is_separator q" by (subst dropWhile_append2) auto
    then have "segments (p @ CHR ''/'' # q) = segments q" by (subst (1 2) segments.simps) simp
    moreover have "segments p = []" using Nil by (subst segments.simps) simp
    ultimately show ?thesis by simp
  next
    case (Cons c r)
    then obtain x where "x \<in> set p" "\<not> is_separator x" by (metis dropWhile_eq_Nil_conv list.distinct(1))
    then have dw: "dropWhile is_separator (p @ CHR ''/'' # q) = c # r @ CHR ''/'' # q" by (subst dropWhile_append1) (auto simp: Cons)
    let ?n = "\<lambda>c. \<not> is_separator c"
    have sp: "segments p = (c # takeWhile ?n r) # segments (dropWhile ?n r)" using Cons by (subst segments.simps) simp
    show ?thesis
    proof (cases "CHR ''/'' \<in> set r")
      case True
      then have "takeWhile ?n (r @ CHR ''/'' # q) = takeWhile ?n r" "dropWhile ?n (r @ CHR ''/'' # q) = dropWhile ?n r @ CHR ''/'' # q"
        by (auto intro: takeWhile_append1 dropWhile_append1)
      then have "segments (p @ CHR ''/'' # q) = (c # takeWhile ?n r) # segments (dropWhile ?n r @ CHR ''/'' # q)"
        by (subst segments.simps) (simp add: dw)
      then show ?thesis using 1 [OF Cons] sp by simp
    next
      case False
      then have "takeWhile ?n r = r" "dropWhile ?n r = []" by (auto simp: takeWhile_eq_all_conv dropWhile_eq_Nil_conv)
      moreover have "takeWhile ?n (r @ CHR ''/'' # q) = r" using False by (subst takeWhile_append2) auto
      moreover have "dropWhile ?n (r @ CHR ''/'' # q) = CHR ''/'' # q" using False by (subst dropWhile_append2) auto
      ultimately show ?thesis using sp by (subst segments.simps) (simp add: dw)
    qed
  qed
qed

lemma segments_all_sep: "all_sep p \<Longrightarrow> segments p = []"
  by (induction p) (auto simp: all_sep_def)

lemma segments_set: "s \<in> set (segments p) \<Longrightarrow> s \<noteq> [] \<and> CHR ''/'' \<notin> set s \<and> set s \<subseteq> set p"
proof (induction p rule: segments.induct)
  case (1 p)
  show ?case
  proof (cases "dropWhile is_separator p")
    case Nil
    then show ?thesis using 1(2) by (subst (asm) segments.simps) simp
  next
    case (Cons c r)
    let ?n = "\<lambda>c. \<not> is_separator c"
    have c: "c \<noteq> CHR ''/''" using hd_dropWhile [of is_separator p] Cons by simp
    have sub: "set (c # r) \<subseteq> set p" using Cons by (metis set_dropWhileD subsetI)
    from 1(2) have "s = c # takeWhile ?n r \<or> s \<in> set (segments (dropWhile ?n r))" using Cons by (subst (asm) segments.simps) auto
    then show ?thesis
    proof
      assume s: "s = c # takeWhile ?n r"
      then show ?thesis using c sub by (auto dest: set_takeWhileD)
    next
      assume "s \<in> set (segments (dropWhile ?n r))"
      from 1(1) [OF Cons this] show ?thesis using sub by (auto dest: set_dropWhileD)
    qed
  qed
qed

lemma segments_rtrim: "segments (rtrim ''/'' p) = segments p"
proof (induction p rule: rev_induct)
  case (snoc x p)
  show ?case
  proof (cases "x = CHR ''/''")
    case True
    then show ?thesis using snoc segments_append [of p "[]"] by (simp add: rtrim_def)
  qed (simp add: rtrim_def)
qed (simp add: rtrim_def)

text \<open>The reference: the root, if the path has one, and the names. A leading \<open>.\<close> is left out, unless nothing but separators follows it. Two leading separators are a root of their own;
  three are taken for two when a name follows, see \<^verbatim>\<open>dirname\<close>.\<close>

definition root_component :: "string \<Rightarrow> string list" where
  "root_component p =
     (let n = length (takeWhile is_separator p) in
      if n = 0 then [] else if n = 2 \<or> (n = 3 \<and> n < length p) then [''//''] else [''/''])"

definition path_components :: "string \<Rightarrow> string list" where
  "path_components p =
     (if is_path_absolute p then root_component p @ segments p
      else case segments p of
             [] \<Rightarrow> []
           | s # ss \<Rightarrow> if s = ''.'' \<and> (ss \<noteq> [] \<or> p = ''.'') then ss else s # ss)"

definition finish :: "string \<Rightarrow> string list \<Rightarrow> string list" where
  "finish c ret = rev (if basename c \<noteq> [] \<and> basename c \<noteq> ''.'' then ret @ [basename c] else ret)"

lemma kNul_neq [simp]: "kNul \<noteq> CHR ''/''" "CHR ''/'' \<noteq> kNul" "kNul \<noteq> CHR ''.''" "CHR ''.'' \<noteq> kNul"
  by (simp_all add: kNul_def)

lemma small_paths [simp]: "length ''/'' \<le> vec_max" "length ''//'' \<le> vec_max" "length ''.'' \<le> vec_max"
  by (simp_all add: vec_max_def)

lemma fix_points:
  "dirname ''/'' = ''/''" "dirname ''//'' = ''//''" "dirname ''.'' = ''.''"
  "basename ''/'' = ''/''" "basename ''//'' = ''//''" "basename ''.'' = ''.''"
  by (simp_all add: dirname_eq basename_eq vec_max_def dir_part_def last_part_def stripped_name Let_def)

lemma are_all_separators_iff: "are_all_separators b \<longleftrightarrow> all_sep b"
  by (auto simp: are_all_separators_def list_all_iff all_sep_def)

lemma loop_fixed: "dirname p = p \<Longrightarrow> components_loop p acc = Some (p, acc)"
  by (subst components_loop.simps) simp

lemma loop_moves:
  "dirname p \<noteq> p \<Longrightarrow> components_loop p acc = components_loop (dirname p) (acc @ (if all_sep (basename p) then [] else [basename p]))"
  by (subst components_loop.simps) (simp add: are_all_separators_iff Let_def)

lemma absolute_append: "p \<noteq> [] \<Longrightarrow> is_path_absolute (p @ q) = is_path_absolute p"
  by (cases p) (simp_all add: is_path_absolute_def)

lemma leading_append: "\<not> all_sep p \<Longrightarrow> takeWhile is_separator (p @ q) = takeWhile is_separator p"
proof -
  assume "\<not> all_sep p"
  then obtain x where "x \<in> set p" "\<not> is_separator x" by (auto simp: all_sep_def)
  then show ?thesis by (rule takeWhile_append1)
qed

lemma segments_some: "\<not> all_sep p \<Longrightarrow> segments p \<noteq> []"
proof -
  assume "\<not> all_sep p"
  then have "dropWhile is_separator p \<noteq> []" by (auto simp: all_sep_def dropWhile_eq_Nil_conv)
  then show ?thesis by (subst segments.simps) (auto split: list.split)
qed

lemma leading_less: "\<not> all_sep p \<Longrightarrow> length (takeWhile is_separator p) < length p"
  by (induction p) (auto simp: all_sep_def)

lemma root_append: "\<not> all_sep p \<Longrightarrow> root_component (p @ q) = root_component p"
proof -
  assume a: "\<not> all_sep p"
  have "length (takeWhile is_separator p) < length (p @ q)" using leading_less [OF a] by simp
  then show ?thesis unfolding root_component_def leading_append [OF a] Let_def using leading_less [OF a] by auto
qed

lemma all_sep_append [simp]: "all_sep (p @ q) \<longleftrightarrow> all_sep p \<and> all_sep q"
  by (auto simp: all_sep_def)

lemma name_not_sep: "b \<noteq> [] \<Longrightarrow> CHR ''/'' \<notin> set b \<Longrightarrow> \<not> all_sep b"
  by (cases b) (auto simp: all_sep_def)

lemma root_sep: "all_sep p \<Longrightarrow> p \<noteq> [] \<Longrightarrow> root_component p = [stripped p]"
proof -
  assume a: "all_sep p" "p \<noteq> []"
  have "takeWhile is_separator p = p" using a(1) by (auto simp: takeWhile_eq_all_conv all_sep_def)
  moreover have "length p = 2 \<Longrightarrow> p = ''//''" using all_sep_replicate [OF a(1)] by (simp add: numeral_2_eq_2)
  moreover have "length p = 1 \<Longrightarrow> p = ''/''" using all_sep_replicate [OF a(1)] by simp
  moreover have "length p \<noteq> 0" using a(2) by simp
  ultimately show ?thesis using a by (auto simp: root_component_def stripped_def Let_def le_Suc_eq numeral_2_eq_2)
qed

lemma absolute_sep: "all_sep p \<Longrightarrow> p \<noteq> [] \<Longrightarrow> is_path_absolute p"
  by (cases p) (auto simp: is_path_absolute_def all_sep_def)

lemma components_sep: "all_sep p \<Longrightarrow> p \<noteq> [] \<Longrightarrow> path_components p = [stripped p]"
  by (simp add: path_components_def absolute_sep root_sep segments_all_sep)

text \<open>One name behind a directory.\<close>

lemma components_append:
  assumes d: "\<not> all_sep d" "last d \<noteq> CHR ''/''" and b: "b \<noteq> []" "CHR ''/'' \<notin> set b" and t: "all_sep t" "t \<noteq> []" "all_sep u"
  shows "path_components (d @ t @ b @ u) = path_components d @ [b]"
proof -
  have dne: "d \<noteq> []" using d(1) by (auto simp: all_sep_def)
  have seg: "segments (x @ y) = segments x" if "all_sep y" for x y
    using that
  proof (induction y rule: rev_induct)
    case (snoc z y)
    then have "z = CHR ''/''" "all_sep y" by (auto simp: all_sep_def)
    with snoc segments_append [of "x @ y" "[]"] show ?case by simp
  qed simp
  obtain v where v: "t = v @ ''/''" "all_sep v" using t(1,2) by (cases t rule: rev_cases) (auto simp: all_sep_def)
  have "segments (d @ t @ b @ u) = segments ((d @ v) @ CHR ''/'' # (b @ u))" by (simp add: v)
  also have "\<dots> = segments d @ [b]" unfolding segments_append using seg [OF v(2)] seg [OF t(3)] segments_name [OF b] by simp
  finally have s: "segments (d @ t @ b @ u) = segments d @ [b]" .
  have r: "root_component (d @ t @ b @ u) = root_component d" by (rule root_append [OF d(1)])
  have a: "is_path_absolute (d @ t @ b @ u) = is_path_absolute d" by (rule absolute_append [OF dne])
  show ?thesis
  proof (cases "is_path_absolute d")
    case True
    then show ?thesis by (simp add: path_components_def a r s)
  next
    case False
    have ne: "d @ t @ b @ u \<noteq> ''.''" using dne t(2) by (cases d; cases t) auto
    show ?thesis
    proof (cases "segments d")
      case Nil
      then show ?thesis using segments_some [OF d(1)] by simp
    next
      case (Cons s ss)
      have "d = s" if "ss = []"
      proof -
        have lp: "last_part d \<noteq> []" using d(2) dne by (simp add: last_part_Nil)
        show ?thesis
        proof (cases "dir_part d = []")
          case True
          then have "d = last_part d" using parts [of d] by simp
          then show ?thesis using segments_name [OF lp last_part_no_sep] Cons that by simp
        next
          case dp: False
          define e where "e = butlast (dir_part d)"
          have de: "d = e @ CHR ''/'' # last_part d" using parts [of d] dir_part_sep [OF dp] append_butlast_last_id [OF dp] by (metis append.assoc append_Cons append_Nil e_def)
          then have "segments d = segments e @ [last_part d]" using segments_append [of e "last_part d"] segments_name [OF lp last_part_no_sep] by simp
          then have e0: "segments e = []" using Cons that by (cases "segments e") auto
          then have "all_sep e" using segments_some by blast
          then have "is_path_absolute (e @ CHR ''/'' # x)" for x by (cases e) (auto simp: is_path_absolute_def all_sep_def)
          then have "is_path_absolute d" using de by metis
          then show ?thesis using False by simp
        qed
      qed
      then show ?thesis using False Cons ne by (auto simp: path_components_def a s)
    qed
  qed
qed

lemma rtrim_rest:
  obtains u where "p = rtrim ''/'' p @ u" "all_sep u"
proof
  show "p = rtrim ''/'' p @ rev (takeWhile (\<lambda>c. c \<in> set ''/'') (rev p))"
    by (metis rtrim_def rev_append rev_rev_ident takeWhile_dropWhile_id)
  show "all_sep (rev (takeWhile (\<lambda>c. c \<in> set ''/'') (rev p)))"
    by (auto simp: all_sep_def dest: set_takeWhileD)
qed

lemma components_under_root:
  assumes d: "all_sep d" "d \<noteq> []" and b: "b \<noteq> []" "CHR ''/'' \<notin> set b" and u: "all_sep u"
  shows "path_components (d @ b @ u) = [if length d = 2 \<or> length d = 3 then ''//'' else ''/'', b]"
proof -
  obtain x xs where bx: "b = x # xs" "x \<noteq> CHR ''/''" using b by (cases b) auto
  have tw: "takeWhile is_separator (d @ b @ u) = d" using d(1) bx by (subst takeWhile_append2) (auto simp: all_sep_def)
  have "length d < length (d @ b @ u)" using bx by simp
  then have r: "root_component (d @ b @ u) = [if length d = 2 \<or> length d = 3 then ''//'' else ''/'']"
    using d(2) unfolding root_component_def tw Let_def by auto
  obtain v where v: "d = v @ ''/''" "all_sep v" using d by (cases d rule: rev_cases) (auto simp: all_sep_def)
  have "segments (b @ u) = [b]"
    using u
  proof (induction u rule: rev_induct)
    case Nil
    then show ?case using segments_name [OF b] by simp
  next
    case (snoc z u)
    then show ?case using segments_append [of "b @ u" "[]"] by (auto simp: all_sep_def)
  qed
  then have s: "segments (d @ b @ u) = [b]" using segments_append [of v "b @ u"] segments_all_sep [OF v(2)] by (simp add: v(1))
  have "is_path_absolute (d @ b @ u)" using absolute_append [OF d(2)] absolute_sep [OF d] by simp
  then show ?thesis by (simp add: path_components_def r s)
qed

lemma components_loop_result:
  "p \<noteq> [] \<Longrightarrow> kNul \<notin> set p \<Longrightarrow> length p \<le> vec_max \<Longrightarrow>
     \<exists>c ret. components_loop p acc = Some (c, acc @ ret) \<and> finish c ret = path_components p"
proof (induction p arbitrary: acc rule: length_induct)
  case (1 p)
  note ok = 1(3,4)
  have fin: "\<exists>c ret. components_loop p acc = Some (c, acc @ ret) \<and> finish c ret = path_components p"
    if "dirname p = q" "q \<noteq> p" "dirname q = q" "rev (if all_sep (basename p) then [] else [basename p]) = tl (path_components p)"
      "basename q \<noteq> [] \<and> basename q \<noteq> ''.''" "path_components p = basename q # tl (path_components p)" for q
    using that loop_moves [of p acc] loop_fixed [of q] by (simp add: finish_def)
  show ?case
  proof (cases rule: stripped_cases [of p])
    case empty
    then show ?thesis using 1(2) by simp
  next
    case root
    have d: "dirname p = stripped p"
      using root(3) by (auto simp: dirname_eq [OF ok] dir_part_def Let_def)
    have b: "basename p = stripped p" using root(3) by (auto simp: basename_eq [OF ok] last_part_def)
    have fx: "dirname (stripped p) = stripped p" "basename (stripped p) = stripped p" "all_sep (stripped p)" "stripped p \<noteq> []" "stripped p \<noteq> ''.''"
      using root(3) by (auto simp: fix_points all_sep_def)
    have pc: "path_components p = [stripped p]" by (rule components_sep [OF root(2,1)])
    show ?thesis
    proof (cases "stripped p = p")
      case True
      then show ?thesis using loop_fixed [of p acc] d b fx pc by (auto simp: finish_def)
    next
      case False
      then show ?thesis using fin [OF d] fx b pc by simp
    qed
  next
    case name
    define s where "s = stripped p"
    define d where "d = dir_part s"
    define b where "b = last_part s"
    obtain u where u: "p = s @ u" "all_sep u" using rtrim_rest [of p] name(2) by (metis s_def)
    have sdb: "s = d @ b" by (simp add: d_def b_def parts)
    have b: "b \<noteq> []" "CHR ''/'' \<notin> set b" using name(3,4) last_part_no_sep by (auto simp: b_def s_def last_part_Nil)
    have bn: "basename p = b" using b(1) by (simp add: basename_eq [OF ok] s_def [symmetric] b_def [symmetric])
    have nb: "\<not> all_sep b" by (rule name_not_sep [OF b])
    have dn: "dirname p = (if d = [] then ''.'' else if d = ''/'' \<or> d = ''//'' then d else stripped (butlast d))"
      by (simp add: dirname_eq [OF ok] Let_def s_def d_def)
    consider (z) "d = []" | (r) "d = ''/'' \<or> d = ''//''" | (m) "d \<noteq> []" "d \<noteq> ''/''" "d \<noteq> ''//''" by blast
    then show ?thesis
    proof cases
      case z
      have rel: "\<not> is_path_absolute p" using z sdb u b by (cases b) (auto simp: is_path_absolute_def)
      have "segments p = [b]" using segments_rtrim [of p] name(2) segments_name [OF b] sdb z by (simp add: s_def [symmetric])
      moreover have "b = ''.''" if "p = ''.''" using that u(1) sdb z b(1) by (cases b) auto
      ultimately have pc: "path_components p = (if p = ''.'' then [] else [b])" using rel by (auto simp: path_components_def)
      show ?thesis
      proof (cases "p = ''.''")
        case True
        then show ?thesis using loop_fixed [of p acc] fix_points pc by (auto simp: finish_def)
      next
        case False
        have "components_loop p acc = Some (''.'', acc @ [b])"
          using loop_moves [of p acc] loop_fixed [of "''.''"] False dn z bn nb fix_points(3) by auto
        then show ?thesis using pc False fix_points by (intro exI [of _ "''.''"] exI [of _ "[b]"]) (simp add: finish_def)
      qed
    next
      case r
      have fx: "dirname d = d" "basename d = d" "all_sep d" "d \<noteq> []" "d \<noteq> ''.''" using r by (auto simp: fix_points all_sep_def)
      have pc: "path_components p = [d, b]" using components_under_root [OF fx(3,4) b u(2)] r by (auto simp: u(1) sdb)
      have "dirname p = d" "d \<noteq> p" using dn r nb fx(3,4) u sdb by auto
      then show ?thesis using fin [of d] fx pc bn nb by simp
    next
      case m
      define e where "e = stripped (butlast d)"
      have de: "d = butlast d @ ''/''" using m(1) dir_part_sep [of s] by (metis append_butlast_last_id d_def)
      have bl: "butlast d \<noteq> []" using de m(2) by auto
      have ene: "e \<noteq> []" using bl by (cases rule: stripped_cases [of "butlast d"]) (auto simp: e_def)
      have lp: "length p = length (butlast d) + 1 + length b + length u" using u sdb de by (metis One_nat_def length_append length_append_singleton Suc_eq_plus1)
      have le: "length e < length p" using stripped_length [of "butlast d"] lp by (simp add: e_def)
      have sub: "set e \<subseteq> set p \<union> {CHR ''/''}" using stripped_set [of "butlast d"] u sdb by (auto simp: e_def dest: in_set_butlastD)
      have nul: "kNul \<notin> set e" using sub ok(1) by auto
      have dp: "dirname p = e" "e \<noteq> p" using dn m le by (auto simp: e_def)
      have pc: "path_components p = path_components e @ [b]"
      proof (cases "all_sep d")
        case True
        then have eb: "all_sep (butlast d)" by (auto simp: all_sep_def dest: in_set_butlastD)
        have l3: "length d \<ge> 3"
        proof (rule ccontr)
          assume "\<not> length d \<ge> 3"
          moreover have "length d \<noteq> 0" using m(1) by simp
          ultimately have "length d = 1 \<or> length d = 2" by linarith
          then show False using all_sep_replicate [OF True] m by (auto simp: numeral_2_eq_2)
        qed
        have "path_components e = [e]"
          using ene eb by (cases rule: stripped_cases [of "butlast d"]) (auto simp: e_def components_sep all_sep_def bl)
        moreover have "e = (if length d = 2 \<or> length d = 3 then ''//'' else ''/'')"
          using all_sep_replicate [OF eb] eb l3 by (auto simp: e_def stripped_def numeral_2_eq_2)
        ultimately show ?thesis using components_under_root [OF True m(1) b u(2)] by (simp add: u(1) sdb)
      next
        case False
        then have nb2: "\<not> all_sep (butlast d)" using de by (metis all_sep_append all_sep_def empty_set list.simps(15) subset_refl)
        have er: "e = rtrim ''/'' (butlast d)" using nb2 by (simp add: e_def stripped_def)
        obtain t where t: "butlast d = e @ t" "all_sep t" using rtrim_rest [of "butlast d"] er by metis
        have enn: "\<not> all_sep e" using nb2 t by auto
        have el: "last e \<noteq> CHR ''/''" using nb2 bl by (cases rule: stripped_cases [of "butlast d"]) (auto simp: e_def)
        have peq: "p = e @ (t @ ''/'') @ b @ u" using u(1) sdb de t(1) by (metis append.assoc)
        have at: "all_sep (t @ ''/'')" using t(2) by (simp add: all_sep_def)
        show ?thesis using components_append [OF enn el b at _ u(2)] peq by (metis append_is_Nil_conv not_Cons_self2)
      qed
      have bl2: "length e \<le> vec_max" using le ok(2) by simp
      obtain c ret where ih: "components_loop e (acc @ [b]) = Some (c, (acc @ [b]) @ ret)" "finish c ret = path_components e"
        using 1(1) [rule_format, OF le ene nul bl2, of "acc @ [b]"] by blast
      have "components_loop p acc = Some (c, acc @ b # ret)" using loop_moves [of p acc] dp bn nb ih(1) by simp
      moreover have "finish c (b # ret) = path_components p" using ih(2) pc by (auto simp: finish_def split: if_splits)
      ultimately show ?thesis by blast
    qed
  qed
qed

lemma get_components_eq:
  assumes "kNul \<notin> set p" and "length p \<le> vec_max"
  shows "get_components p = Some (path_components p)"
proof (cases "p = []")
  case True
  then show ?thesis by (simp add: get_components_def path_components_def is_path_absolute_def)
next
  case False
  from components_loop_result [OF this assms, of "[]"] show ?thesis
    using False by (auto simp: get_components_def finish_def kCurrentDirectory_def Let_def)
qed

section \<open>Appending\<close>

lemma components_stripped:
  assumes "is_path_absolute p" and "\<not> all_sep p"
  shows "path_components (stripped p) = path_components p"
proof -
  obtain u where u: "p = stripped p @ u" "all_sep u" using rtrim_rest [of p] assms(2) by (metis stripped_def)
  have n: "\<not> all_sep (stripped p)" using assms(2) u by (metis all_sep_append)
  have ne: "stripped p \<noteq> []" using n by (auto simp: all_sep_def)
  have "root_component p = root_component (stripped p)" using root_append [OF n] u(1) by metis
  moreover have "is_path_absolute (stripped p)" using absolute_append [OF ne] u(1) assms(1) by metis
  moreover have "segments (stripped p) = segments p" using segments_rtrim assms(2) by (simp add: stripped_def)
  ultimately show ?thesis using assms(1) by (simp add: path_components_def)
qed

lemma path_append_absolute:
  assumes p: "is_path_absolute p" "kNul \<notin> set p" and c: "c \<noteq> []" "CHR ''/'' \<notin> set c" "kNul \<notin> set c"
  shows "\<exists>q. path_append p c = Inr q \<and> is_path_absolute q \<and> kNul \<notin> set q \<and> path_components q = path_components p @ [c]
    \<and> length q \<le> length p + length c + 1"
proof -
  have pne: "p \<noteq> []" "p \<noteq> kCurrentDirectory" using p(1) by (auto simp: is_path_absolute_def kCurrentDirectory_def)
  have rel: "\<not> is_path_absolute c" using c(1,2) by (cases c) (auto simp: is_path_absolute_def)
  have app: "path_append p c = Inr (if stripped p \<noteq> [] \<and> last (stripped p) \<noteq> CHR ''/'' \<and> 0 \<noteq> length (stripped p) then stripped p @ ''/'' @ c else stripped p @ c)"
    using rel pne c(1) find_nul_none [OF c(3)] make_path_id [OF p(2)]
    by (simp add: path_append_def strip_internal append_to_string_eq Let_def)
  have nul: "kNul \<notin> set (stripped p)" using stripped_set [of p] p(2) by auto
  show ?thesis
  proof (cases rule: stripped_cases [of p])
    case root
    then have s: "all_sep (stripped p)" "stripped p \<noteq> []" "last (stripped p) = CHR ''/''" "length (stripped p) = 1 \<or> length (stripped p) = 2"
      by (auto simp: all_sep_def)
    have "path_components (stripped p @ c) = [stripped p, c]"
      using components_under_root [OF s(1,2) c(1,2), of "[]"] root(3) by (auto simp: all_sep_def)
    then show ?thesis
      using app s nul c(3) components_sep [OF root(2,1)] absolute_append [OF s(2), of c] absolute_sep [OF s(1,2)] stripped_length [of p] by auto
  next
    case name
    have n: "\<not> all_sep (stripped p)" using name(1,3,4) by (cases "stripped p" rule: rev_cases) (auto simp: all_sep_def)
    have "path_components (stripped p @ ''/'' @ c @ []) = path_components (stripped p) @ [c]"
      by (rule components_append [OF n name(4) c(1,2)]) (simp_all add: all_sep_def)
    moreover have "is_path_absolute (stripped p)"
      using p(1) name rtrim_rest [of p] absolute_append [OF name(3)] by metis
    ultimately show ?thesis
      using app name nul c(3) components_stripped [OF p(1) name(1)] absolute_append [OF name(3), of "''/'' @ c"] stripped_length [of p] by auto
  qed (use pne in simp)
qed

lemma append_components_absolute:
  "is_path_absolute p \<Longrightarrow> kNul \<notin> set p \<Longrightarrow> list_all (\<lambda>c. c \<noteq> [] \<and> CHR ''/'' \<notin> set c \<and> kNul \<notin> set c) cs \<Longrightarrow>
     \<exists>q. append_components cs p = Inr q \<and> kNul \<notin> set q \<and> path_components q = path_components p @ cs
       \<and> length q \<le> length p + sum_list (map (\<lambda>c. length c + 1) cs)"
proof (induction cs arbitrary: p)
  case (Cons c cs)
  obtain q where q: "path_append p c = Inr q" "is_path_absolute q" "kNul \<notin> set q" "path_components q = path_components p @ [c]"
      "length q \<le> length p + length c + 1"
    using path_append_absolute [of p c] Cons.prems by auto
  obtain r where "append_components cs q = Inr r" "kNul \<notin> set r" "path_components r = path_components q @ cs"
      "length r \<le> length q + sum_list (map (\<lambda>c. length c + 1) cs)"
    using Cons.IH [OF q(2,3)] Cons.prems(3) by auto
  with q show ?case by auto
qed simp

lemma root_single: "is_path_absolute p \<Longrightarrow> \<exists>r. root_component p = [r]"
  by (cases p) (auto simp: is_path_absolute_def root_component_def Let_def)

lemma components_rest:
  assumes "path_components p = c # cs"
  shows "set cs \<subseteq> set (segments p)"
proof (cases "is_path_absolute p")
  case True
  then obtain r where "root_component p = [r]" using root_single by blast
  with True assms show ?thesis by (simp add: path_components_def)
next
  case False
  then show ?thesis using assms by (auto simp: path_components_def split: list.splits if_splits)
qed

lemma relative_path_result:
  assumes ok: "kNul \<notin> set self" "length self \<le> vec_max" "kNul \<notin> set child" "length child \<le> vec_max" "kNul \<notin> set path"
    and abs: "is_path_absolute path"
    and len: "length path + sum_list (map (\<lambda>c. length c + 1) (path_components child)) \<le> vec_max"
    and pre: "path_components child = path_components self @ rest" "path_components self \<noteq> []" "rest \<noteq> []"
  shows "\<exists>q. append_relative_path self child (Some path) = Some (Inr (True, Some q)) \<and> get_components q = Some (path_components path @ rest)"
proof -
  obtain c cs where cs: "path_components self = c # cs" using pre(2) by (cases "path_components self") auto
  have "set rest \<subseteq> set (segments child)" using components_rest [of child c "cs @ rest"] pre(1) cs by simp
  then have el: "list_all (\<lambda>c. c \<noteq> [] \<and> CHR ''/'' \<notin> set c \<and> kNul \<notin> set c) rest"
    using segments_set [of _ child] ok(3) by (fastforce simp: list_all_iff)
  obtain q where q: "append_components rest path = Inr q" "kNul \<notin> set q" "path_components q = path_components path @ rest"
      "length q \<le> length path + sum_list (map (\<lambda>c. length c + 1) rest)"
    using append_components_absolute [OF abs ok(5) el] by blast
  have "sum_list (map (\<lambda>c. length c + 1) rest) \<le> sum_list (map (\<lambda>c. length c + 1) (path_components child))" by (simp add: pre(1))
  then have "length q \<le> vec_max" using q(4) len by linarith
  then have "get_components q = Some (path_components path @ rest)" using get_components_eq [OF q(2)] q(3) by simp
  moreover have "append_relative_path self child (Some path) = Some (Inr (True, Some q))"
    using pre(2,3) q(1) by (simp add: append_relative_path_def get_components_eq [OF ok(1,2)] get_components_eq [OF ok(3,4)] pre(1))
  ultimately show ?thesis by blast
qed


section \<open>Extensions, proofs\<close>

lemma scan_down_cong: "i < length d \<Longrightarrow> scan_down P (d @ b) i = scan_down P d i"
  by (induction i) (simp_all add: nth_append)

lemma scan_down_append:
  "i < length b \<Longrightarrow> length b \<le> vec_max \<Longrightarrow> d \<noteq> [] \<Longrightarrow>
     scan_down P (d @ b) (length d + i)
       = (if scan_down P b i \<noteq> npos then length d + scan_down P b i else scan_down P d (length d - 1))"
proof (induction i)
  case 0
  then obtain k where k: "length d = Suc k" by (cases "length d") auto
  then have "scan_down P (d @ b) k = scan_down P d k" by (simp add: scan_down_cong)
  with 0 k show ?case by (simp add: nth_append npos_def)
next
  case (Suc i)
  then have "Suc i \<noteq> npos" using npos_large [of "length b"] by auto
  with Suc show ?case by (simp add: nth_append)
qed

lemma scan_down_none: "i < length b \<Longrightarrow> \<forall>x\<in>set b. \<not> P x \<Longrightarrow> scan_down P b i = npos"
  by (induction i) simp_all

lemma scan_down_here: "P (d ! i) \<Longrightarrow> scan_down P d i = i"
  by (cases i) simp_all

lemma scan_down_below: "scan_down P d i \<noteq> npos \<Longrightarrow> scan_down P d i \<le> i"
  by (induction i) (auto split: if_splits)

lemma rfind_end:
  "length b \<le> vec_max \<Longrightarrow> std_string_rfind_char b c npos = (if b = [] then npos else scan_down (\<lambda>x. x = c) b (length b - Suc 0))"
  using npos_large [of "length b"] by (auto simp: std_string_rfind_char_def min_def)

lemma final_position:
  assumes b: "CHR ''/'' \<notin> set b" "b \<noteq> kCurrentDirectory" "b \<noteq> kParentDirectory" "b \<noteq> []" and d: "d = [] \<or> last d = CHR ''/''"
    and len: "length (d @ b) \<le> vec_max" and dot: "final_extension_separator_position b \<noteq> npos"
  shows "final_extension_separator_position (d @ b) = length d + final_extension_separator_position b"
proof (cases "d = []")
  case False
  then have "CHR ''/'' \<in> set (d @ b)" using d last_in_set [of d] by auto
  moreover have "CHR ''/'' \<notin> set kCurrentDirectory" "CHR ''/'' \<notin> set kParentDirectory" by (simp_all add: kCurrentDirectory_def kParentDirectory_def)
  ultimately have "d @ b \<noteq> kCurrentDirectory" "d @ b \<noteq> kParentDirectory" by metis+
  moreover have e: "length (d @ b) - Suc 0 = length d + (length b - Suc 0)" "length b - Suc 0 < length b" using b(4) by (cases b; simp)+
  moreover have lb: "length b \<le> vec_max" using len by simp
  moreover have "scan_down (\<lambda>x. x = kExtensionSeparator) b (length b - Suc 0) \<noteq> npos"
    using dot b by (simp add: final_extension_separator_position_def rfind_end [OF lb])
  then have "scan_down (\<lambda>x. x = kExtensionSeparator) (d @ b) (length (d @ b) - Suc 0)
      = length d + scan_down (\<lambda>x. x = kExtensionSeparator) b (length b - Suc 0)"
    unfolding e(1) scan_down_append [OF e(2) lb False] by simp
  ultimately show ?thesis using b by (simp add: final_extension_separator_position_def rfind_end [OF len] rfind_end [OF lb])
qed simp

lemma final_position_bound:
  "length b \<le> vec_max \<Longrightarrow> final_extension_separator_position b \<noteq> npos \<Longrightarrow> final_extension_separator_position b < length b"
  using scan_down_below [of "\<lambda>x. x = kExtensionSeparator" b "length b - Suc 0"]
  by (cases b) (auto simp: final_extension_separator_position_def rfind_end split: if_splits)


lemma extension_position:
  assumes b: "CHR ''/'' \<notin> set b" "b \<noteq> kCurrentDirectory" "b \<noteq> kParentDirectory" "b \<noteq> []" and d: "d = [] \<or> last d = CHR ''/''"
    and len: "length (d @ b) \<le> vec_max" and dot: "final_extension_separator_position b \<noteq> npos"
  shows "extension_separator_position (d @ b) = length d + extension_separator_position b"
proof (cases "d = []")
  case False
  define dots where "dots = (\<lambda>c. c = kExtensionSeparator)"
  define seps where "seps = (\<lambda>c. c = CHR ''/'')"
  obtain m where m: "length d = Suc m" using False by (cases "length d") auto
  have lastd: "d ! m = CHR ''/''" using d False m last_conv_nth [OF False] by simp
  have lb: "length b \<le> vec_max" using len by simp
  have "\<not> dots (d ! m)" by (simp add: lastd dots_def kExtensionSeparator_def)
  then have "scan_down dots d m = npos \<or> scan_down dots d m < m"
    using scan_down_below [of dots d "m - 1"] by (cases m) (simp_all, linarith)
  moreover have "scan_down seps d m = m" by (rule scan_down_here) (simp add: seps_def lastd)
  ultimately have d_dot: "scan_down dots d (length d - 1) = npos \<or> scan_down dots d (length d - 1) < length d - 1"
    and d_sep: "scan_down seps d (length d - 1) = length d - 1" using m by simp_all
  have b_sep: "scan_down seps b k = npos" if "k < length b" for k
    by (rule scan_down_none [OF that]) (use b(1) in \<open>auto simp: seps_def\<close>)
  have nonpos: "length d - 1 \<noteq> npos" using npos_large [OF len] m by simp
  note ff = final_position [OF assms]
  have lt: "final_extension_separator_position b < length b" by (rule final_position_bound [OF lb dot])
  have fne: "length d + final_extension_separator_position b \<noteq> npos" using lt npos_large [OF len] by simp
  have rd: "std_string_rfind_char (d @ b) kExtensionSeparator i = scan_down dots (d @ b) i"
    and rs: "std_string_find_last_of (d @ b) kSeparators i = scan_down seps (d @ b) i" if "i < length (d @ b)" for i
    using that False by (simp_all add: std_string_rfind_char_def std_string_find_last_of_def dots_def seps_def min_absorb1)
  have bd: "std_string_rfind_char b kExtensionSeparator i = scan_down dots b i"
    and bs: "std_string_find_last_of b kSeparators i = npos" if "i < length b" for i
    using that b_sep [OF that] by (auto simp: std_string_rfind_char_def std_string_find_last_of_def dots_def seps_def min_absorb1)
  show ?thesis
  proof (cases "final_extension_separator_position b")
    case 0
    have "scan_down dots (d @ b) (length d - 1) = scan_down dots d (length d - 1)" "scan_down seps (d @ b) (length d - 1) = length d - 1"
      using d_sep m by (simp_all add: scan_down_cong)
    then show ?thesis
      using 0 d_dot nonpos fne m unfolding extension_separator_position_def ff by (auto simp: rd rs Let_def)
  next
    case (Suc k)
    have k: "k < length b" using lt Suc by simp
    have i: "length d + Suc k - 1 = length d + k" "length d + k < length (d @ b)" using k by simp_all
    note sd = scan_down_append [OF k lb False]
    have eqs: "std_string_find_last_of (d @ b) kSeparators (length d + k) = length d - 1"
      "std_string_rfind_char (d @ b) kExtensionSeparator (length d + k)
        = (if scan_down dots b k \<noteq> npos then length d + scan_down dots b k else scan_down dots d (length d - 1))"
      using rs [OF i(2)] rd [OF i(2)] sd b_sep [OF k] d_sep by simp_all
    show ?thesis
    proof (cases "scan_down dots b k = npos")
      case True
      then show ?thesis
        using d_dot nonpos fne dot unfolding extension_separator_position_def ff Suc Let_def i eqs
        by (auto simp: bd [OF k])
    next
      case pen: False
      have "length d + scan_down dots b k \<noteq> npos" using scan_down_below [OF pen] k npos_large [OF len] by simp
      then show ?thesis
        using pen nonpos fne dot m unfolding extension_separator_position_def ff Suc Let_def i eqs
        by (auto simp: bd [OF k] bs [OF k])
    qed
  qed
qed simp


lemma plain_basename:
  assumes "kNul \<notin> set p" "length p \<le> vec_max" "\<not> ends_with_separator p"
  shows "basename p = last_part p" and "p \<noteq> [] \<Longrightarrow> last_part p \<noteq> []"
proof -
  have "stripped p = p" using assms(3) stripped_name by (cases "p = []") (auto simp: ends_with_separator_def)
  moreover have ne: "p \<noteq> [] \<Longrightarrow> last_part p \<noteq> []" using assms(3) by (auto simp: last_part_Nil ends_with_separator_def)
  ultimately show "basename p = last_part p" using basename_eq [OF assms(1,2)] by (cases "p = []") (auto simp: last_part_def)
  show "p \<noteq> [] \<Longrightarrow> last_part p \<noteq> []" by (rule ne)
qed

lemma position_cases:
  assumes "kNul \<notin> set p" "length p \<le> vec_max" "\<not> ends_with_separator p" "final_extension_separator_position (last_part p) \<noteq> npos"
  shows "final_extension_separator_position p = length (dir_part p) + final_extension_separator_position (last_part p)"
    and "extension_separator_position p = length (dir_part p) + extension_separator_position (last_part p)"
proof -
  have b: "CHR ''/'' \<notin> set (last_part p)" by (rule last_part_no_sep)
  have s: "last_part p \<noteq> kCurrentDirectory" "last_part p \<noteq> kParentDirectory" using assms(4) by (auto simp: final_extension_separator_position_def)
  have ne: "last_part p \<noteq> []"
    using assms(4) by (auto simp: final_extension_separator_position_def std_string_rfind_char_def split: if_splits)
  have d: "dir_part p = [] \<or> last (dir_part p) = CHR ''/''" using dir_part_sep by blast
  have len: "length (dir_part p @ last_part p) \<le> vec_max" using assms(2) by (simp only: parts)
  show "final_extension_separator_position p = length (dir_part p) + final_extension_separator_position (last_part p)"
    using final_position [OF b s ne d len assms(4)] by (simp only: parts)
  show "extension_separator_position p = length (dir_part p) + extension_separator_position (last_part p)"
    using extension_position [OF b s ne d len assms(4)] by (simp only: parts)
qed

lemma extension_position_npos:
  "length b \<le> vec_max \<Longrightarrow> extension_separator_position b = npos \<longleftrightarrow> final_extension_separator_position b = npos"
  using npos_large [of "length b"] final_position_bound [of b]
  by (auto simp: extension_separator_position_def Let_def split: if_splits)

lemma split_at_position:
  assumes "kNul \<notin> set p" "length p \<le> vec_max" "position b < length b" "position p = length d + position b" "p = d @ b"
  shows "make_path (take (position p) p) @ drop (position b) b = p"
proof -
  have "kNul \<notin> set (take (position p) p)" using assms(1) by (auto dest: in_set_takeD)
  then show ?thesis using assms(3-) by (simp add: make_path_id)
qed


lemma extension_position_bound:
  assumes "length b \<le> vec_max" "extension_separator_position b \<noteq> npos"
  shows "extension_separator_position b < length b"
proof -
  let ?l = "final_extension_separator_position b"
  have l: "?l < length b" using final_position_bound [OF assms(1)] extension_position_npos [OF assms(1)] assms(2) by simp
  have "std_string_rfind_char b kExtensionSeparator (?l - 1) \<noteq> npos \<Longrightarrow> std_string_rfind_char b kExtensionSeparator (?l - 1) \<le> length b - 1"
    using scan_down_below [of "\<lambda>x. x = kExtensionSeparator" b "min (?l - 1) (length b - 1)"]
    by (auto simp: std_string_rfind_char_def split: if_splits)
  then show ?thesis using l by (auto simp: extension_separator_position_def Let_def)
qed

lemma remove_extension_split:
  assumes "kNul \<notin> set p" "length p \<le> vec_max" "\<not> ends_with_separator p"
  shows "remove_extension p @ extension p = p"
proof (cases "extension_separator_position (last_part p) = npos")
  case True
  then show ?thesis by (simp add: remove_extension_def extension_def plain_basename(1) [OF assms] Let_def)
next
  case False
  have lb: "length (last_part p) \<le> vec_max" using assms(2) parts [of p] by (metis le_trans length_append le_add2)
  note pos = extension_position_bound [OF lb False]
  have "final_extension_separator_position (last_part p) \<noteq> npos" using False extension_position_npos [OF lb] by simp
  note cs = position_cases(2) [OF assms this]
  have "extension_separator_position p \<noteq> npos"
    using cs pos npos_large [OF assms(2)] parts [of p] by (metis length_append nat_add_left_cancel_less order_less_irrefl less_trans)
  moreover have "extension p = drop (extension_separator_position (last_part p)) (last_part p)"
    using False by (simp add: extension_def plain_basename(1) [OF assms] Let_def)
  moreover have "extension p \<noteq> []" using calculation(2) pos by simp
  moreover note split_at_position [where position = extension_separator_position, OF assms(1,2) pos cs parts [symmetric]]
  ultimately show ?thesis by (simp add: remove_extension_def Let_def)
qed

lemma remove_final_extension_split:
  assumes "kNul \<notin> set p" "length p \<le> vec_max" "\<not> ends_with_separator p"
  shows "remove_final_extension p @ final_extension p = p"
proof (cases "final_extension_separator_position (last_part p) = npos")
  case True
  then show ?thesis by (simp add: remove_final_extension_def final_extension_def plain_basename(1) [OF assms] Let_def)
next
  case False
  have lb: "length (last_part p) \<le> vec_max" using assms(2) parts [of p] by (metis le_trans length_append le_add2)
  note pos = final_position_bound [OF lb False]
  note cs = position_cases(1) [OF assms False]
  have "final_extension_separator_position p \<noteq> npos"
    using cs pos npos_large [OF assms(2)] parts [of p] by (metis length_append nat_add_left_cancel_less order_less_irrefl less_trans)
  moreover have "final_extension p = drop (final_extension_separator_position (last_part p)) (last_part p)"
    using False by (simp add: final_extension_def plain_basename(1) [OF assms] Let_def)
  moreover have "final_extension p \<noteq> []" using calculation(2) pos by simp
  moreover note split_at_position [where position = final_extension_separator_position, OF assms(1,2) pos cs parts [symmetric]]
  ultimately show ?thesis by (simp add: remove_final_extension_def Let_def)
qed

section \<open>Paths stay free of NUL\<close>

definition path_ok :: "string \<Rightarrow> bool" where
  "path_ok path \<longleftrightarrow> kNul \<notin> set path \<and> length path \<le> vec_max"

lemma make_path_ok: "length p \<le> vec_max \<Longrightarrow> path_ok (make_path p)"
  using make_path_no_nul [of p] by (auto simp: path_ok_def make_path_takeWhile intro: le_trans [OF length_takeWhile_le])

lemma path_ok_subset: "path_ok p \<Longrightarrow> set q \<subseteq> set p \<union> {CHR ''/'', CHR ''.''} \<Longrightarrow> length q \<le> max 1 (length p) \<Longrightarrow> path_ok q"
  by (auto simp: path_ok_def vec_max_def)

lemma stripped_ok: "path_ok p \<Longrightarrow> path_ok (stripped p)"
  by (rule path_ok_subset) (use stripped_set [of p] stripped_length [of p] in auto)

lemma dir_part_ok: "path_ok p \<Longrightarrow> path_ok (dir_part p)" and last_part_ok: "path_ok p \<Longrightarrow> path_ok (last_part p)"
  using parts [of p] by (metis Un_iff le_add1 le_trans length_append path_ok_def set_append,
    metis Un_iff le_add2 le_trans length_append path_ok_def set_append)


lemma dirname_ok: assumes "path_ok p" shows "path_ok (dirname p)"
proof -
  have d: "path_ok (dir_part (stripped p))" using assms by (intro dir_part_ok stripped_ok)
  have "path_ok (butlast (dir_part (stripped p)))" by (rule path_ok_subset [OF d]) (auto dest: in_set_butlastD)
  then have "path_ok (stripped (butlast (dir_part (stripped p))))" by (rule stripped_ok)
  moreover have "path_ok ''.''" by (simp add: path_ok_def vec_max_def)
  ultimately show ?thesis using assms d by (simp add: dirname_eq path_ok_def Let_def)
qed

lemma basename_ok: "path_ok p \<Longrightarrow> path_ok (basename p)"
  using stripped_ok [of p] last_part_ok [of "stripped p"] by (simp add: basename_eq path_ok_def)

lemma take_ok: "path_ok p \<Longrightarrow> path_ok (take n p)"
  by (auto simp: path_ok_def dest: in_set_takeD)

lemma drop_ok: "path_ok p \<Longrightarrow> path_ok (drop n p)"
  by (auto simp: path_ok_def dest: in_set_dropD)

lemma make_path_same: "path_ok p \<Longrightarrow> make_path p = p"
  by (simp add: path_ok_def make_path_id)

lemma Nil_ok: "path_ok []"
  by (simp add: path_ok_def)

lemma extension_ok: "path_ok p \<Longrightarrow> path_ok (extension p)" "path_ok p \<Longrightarrow> path_ok (final_extension p)"
  using drop_ok [OF basename_ok] Nil_ok by (auto simp: extension_def final_extension_def Let_def)

lemma remove_ok:
  assumes "path_ok p"
  shows "path_ok (remove_extension p)" "length (remove_extension p) \<le> length p" "path_ok (remove_final_extension p)"
  using take_ok [OF assms] assms by (auto simp: remove_extension_def remove_final_extension_def make_path_same Let_def)

lemma basename_length: "path_ok p \<Longrightarrow> length (basename p) \<le> length p"
proof -
  assume p: "path_ok p"
  have "length (last_part (stripped p)) \<le> length (stripped p)" using parts [of "stripped p"] by (metis le_add2 length_append)
  then show ?thesis using p stripped_length [of p] by (simp add: basename_eq path_ok_def)
qed

lemma extension_length: "path_ok p \<Longrightarrow> length (extension p) \<le> length p"
  using basename_length [of p] by (auto simp: extension_def Let_def)

lemma path_append_ok:
  assumes p: "path_ok p" and len: "length p + length s < vec_max"
  shows "case path_append p s of Inl e \<Rightarrow> e = Check_failed \<and> is_path_absolute s | Inr q \<Rightarrow> path_ok q \<and> \<not> is_path_absolute s"
proof -
  define a where "a = make_path s"
  have ls: "length s \<le> vec_max" using len by simp
  have a: "(if find_char s kNul 0 \<noteq> npos then copy_to_string (substr s 0 (find_char s kNul 0)) [] else s) = a"
    using ls by (auto simp: a_def make_path_def copy_to_string_def substr_def Let_def)
  have tw: "a = takeWhile (\<lambda>c. c \<noteq> kNul) s" using make_path_takeWhile [OF ls] by (simp add: a_def)
  have abs: "is_path_absolute a = is_path_absolute s" by (cases s) (auto simp: tw is_path_absolute_def)
  have nul: "kNul \<notin> set a" "length a \<le> length s" using make_path_no_nul [OF ls] by (simp_all add: a_def [symmetric]) (simp add: tw length_takeWhile_le)
  note sp = stripped_ok [OF p] stripped_length [of p]
  show ?thesis
    unfolding path_append_def Let_def a abs
    using sp nul len make_path_ok [of a] by (auto simp: check_def strip_internal make_path_same [OF p] append_to_string_eq path_ok_def)
qed

lemma add_ok: "length p + length s < vec_max \<Longrightarrow> path_ok p \<Longrightarrow> path_ok (add_extension p s)"
  using Nil_ok make_path_ok [of "p @ s"] make_path_ok [of "p @ kExtensionSeparator # s"]
  by (auto simp: add_extension_def append_to_string_eq Let_def)

lemma replace_ok: "length p + length s < vec_max \<Longrightarrow> path_ok p \<Longrightarrow> path_ok (replace_extension p s)"
  using Nil_ok remove_ok [of p] make_path_ok [of "remove_extension p @ s"] make_path_ok [of "remove_extension p @ kExtensionSeparator # s"]
  by (auto simp: replace_extension_def append_to_string_eq Let_def)

lemma insert_ok: "2 * length p + length s < vec_max \<Longrightarrow> path_ok p \<Longrightarrow> path_ok (insert_before_extension p s)"
  using Nil_ok remove_ok [of p] extension_length [of p] make_path_ok [of "remove_extension p @ s @ extension p"] make_path_same [of p]
  by (auto simp: insert_before_extension_def append_to_string_eq)


text \<open>
  What the operations make of a trailing separator and of three leading ones: the double extension is found in the base name
  and not in the path, and the root that \<^verbatim>\<open>dirname\<close> answers is \<^verbatim>\<open>//\<close>.
\<close>

lemma dirname_three_separators: "dirname ''///a'' = ''//''" "dirname ''////a'' = ''/''" "dirname ''///'' = ''/''"
  by (simp_all add: dirname_eq vec_max_def kNul_def stripped_def all_sep_def rtrim_def dir_part_def Let_def)

lemma trailing_separator_extension:
  "extension ''x.tar.gz/'' = ''.tar.gz''" "remove_extension ''x.tar.gz/'' = ''x.tar''"
proof -
  have b: "basename ''x.tar.gz/'' = ''x.tar.gz''"
    by (simp add: basename_eq vec_max_def kNul_def stripped_def all_sep_def rtrim_def last_part_def)
  have f: "final_extension_separator_position ''x.tar.gz'' = 5" "final_extension_separator_position ''x.tar.gz/'' = 5"
    by (simp_all add: final_extension_separator_position_def rfind_end vec_max_def kExtensionSeparator_def kCurrentDirectory_def kParentDirectory_def)
  have r: "std_string_rfind_char ''x.tar.gz'' kExtensionSeparator 4 = 1" "std_string_rfind_char ''x.tar.gz/'' kExtensionSeparator 4 = 1"
      "std_string_find_last_of ''x.tar.gz'' kSeparators 4 = npos" "std_string_find_last_of ''x.tar.gz/'' kSeparators 4 = npos"
    by (simp_all add: std_string_rfind_char_def std_string_find_last_of_def kExtensionSeparator_def eval_nat_numeral)
  have e: "extension_separator_position ''x.tar.gz'' = 1" "extension_separator_position ''x.tar.gz/'' = 5"
    using npos_large [of 5] npos_large [of 1]
    by (simp_all add: extension_separator_position_def f r kCommonDoubleExtensions_def kCommonDoubleExtensionSuffixes_def lower_case_equals_def
        to_lower_char_def vec_max_def Let_def)
  show x: "extension ''x.tar.gz/'' = ''.tar.gz''" using npos_large [of 1] by (simp add: extension_def b e vec_max_def Let_def)
  show "remove_extension ''x.tar.gz/'' = ''x.tar''"
    using npos_large [of 5] by (simp add: remove_extension_def x e vec_max_def make_path_id kNul_def Let_def)
qed

section \<open>Properties\<close>

text \<open>C19: Every operation of \<^verbatim>\<open>FilePath\<close> keeps the representation: from a path without NUL, and whatever string is appended, inserted or
taken as the extension, the result holds no NUL and stays within \<^verbatim>\<open>max_size\<close>. \<^verbatim>\<open>append\<close> fails its \<^verbatim>\<open>DCHECK\<close> on an absolute component and on nothing else.\<close>

theorem file_path_representation:
  assumes "path_ok p" and "2 * length p + length s < vec_max"
  shows "path_ok (strip_trailing_separators p) \<and> path_ok (as_ending_with_separator p) \<and> path_ok (dirname p) \<and> path_ok (basename p)
    \<and> path_ok (remove_extension p) \<and> path_ok (remove_final_extension p) \<and> path_ok (insert_before_extension p s)
    \<and> path_ok (add_extension p s) \<and> path_ok (replace_extension p s) \<and> dirname p \<noteq> []
    \<and> (case path_append p s of Inl e \<Rightarrow> e = Check_failed \<and> is_path_absolute s | Inr q \<Rightarrow> path_ok q \<and> \<not> is_path_absolute s)"
proof -
  have "path_ok (strip_trailing_separators p)"
    using assms(1) stripped_ok by (simp add: strip_trailing_separators_def strip_internal make_path_same)
  moreover have "path_ok (as_ending_with_separator p)"
    using assms make_path_ok [of "p @ ''/''"] by (cases p) (auto simp: as_ending_with_separator_def)
  moreover have "dirname p \<noteq> []" by (simp add: dirname_def kCurrentDirectory_def Let_def)
  moreover have "case path_append p s of Inl e \<Rightarrow> e = Check_failed \<and> is_path_absolute s | Inr q \<Rightarrow> path_ok q \<and> \<not> is_path_absolute s"
    by (rule path_append_ok) (use assms in auto)
  ultimately show ?thesis
    using assms by (intro conjI dirname_ok basename_ok remove_ok insert_ok add_ok replace_ok) simp_all
qed

theorem file_path_representation_witness:
  "path_ok ''/srv/log.txt'' \<and> path_ok (add_extension ''/srv/log.txt'' ''gz'') \<and> dirname ''/srv/log.txt'' \<noteq> []"
proof -
  have "path_ok ''/srv/log.txt''" by (simp add: path_ok_def kNul_def vec_max_def)
  moreover have "2 * length ''/srv/log.txt'' + length ''gz'' < vec_max" by (simp add: vec_max_def)
  ultimately show ?thesis using file_path_representation [of "''/srv/log.txt''" "''gz''"] by blast
qed

text \<open>The loop of \<^verbatim>\<open>get_components\<close>, which strips one name after the other with \<^verbatim>\<open>dirname\<close> and \<^verbatim>\<open>basename\<close>, ends on every path, and its
result is the root, when the path has one, followed by the names between the separators; the first name of a relative path is
left out when it is \<^verbatim>\<open>.\<close> and the path is not \<^verbatim>\<open>.\<close> with separators behind it.\<close>

theorem get_components_returns:
  assumes "path_ok p"
  shows "get_components p = Some (path_components p)"
  using assms by (simp add: path_ok_def get_components_eq)

theorem get_components_returns_witness:
  "get_components ''//usr//lib/'' = Some [''//'', ''usr'', ''lib'']"
proof -
  have "path_ok ''//usr//lib/''" by (simp add: path_ok_def kNul_def vec_max_def)
  moreover have "path_components ''//usr//lib/'' = [''//'', ''usr'', ''lib'']" by code_simp
  ultimately show ?thesis using get_components_returns [of "''//usr//lib/''"] by simp
qed

text \<open>C16: \<^verbatim>\<open>append_relative_path\<close> carries the way from a directory to its descendant over to any absolute path: when the components of the
directory are a proper prefix of those of \<^verbatim>\<open>child\<close>, it answers true and \<^verbatim>\<open>path\<close> grows by exactly the components that are missing,
and \<^verbatim>\<open>is_parent\<close> is true; otherwise it answers false and leaves \<^verbatim>\<open>path\<close> as it is.\<close>

theorem append_relative_path_correct:
  assumes "path_ok self" "path_ok child" "path_ok path" "is_absolute path"
    and "length path + sum_list (map (\<lambda>c. length c + 1) (path_components child)) \<le> vec_max"
  shows "if path_components self \<noteq> [] \<and> (\<exists>rest. rest \<noteq> [] \<and> path_components child = path_components self @ rest)
     then is_parent self child = Some True
       \<and> (\<exists>q. append_relative_path self child (Some path) = Some (Inr (True, Some q))
            \<and> get_components q = Some (path_components path @ drop (length (path_components self)) (path_components child)))
     else is_parent self child = Some False \<and> append_relative_path self child (Some path) = Some (Inr (False, Some path))"
proof -
  note gs = get_components_eq [OF assms(1) [unfolded path_ok_def, THEN conjunct1] assms(1) [unfolded path_ok_def, THEN conjunct2]]
  note gc = get_components_eq [OF assms(2) [unfolded path_ok_def, THEN conjunct1] assms(2) [unfolded path_ok_def, THEN conjunct2]]
  show ?thesis
  proof (cases "path_components self \<noteq> [] \<and> (\<exists>rest. rest \<noteq> [] \<and> path_components child = path_components self @ rest)")
    case True
    then obtain rest where r: "path_components self \<noteq> []" "rest \<noteq> []" "path_components child = path_components self @ rest" by blast
    have "is_parent self child = Some True" using r by (simp add: is_parent_def append_relative_path_def gs gc)
    moreover obtain q where "append_relative_path self child (Some path) = Some (Inr (True, Some q))" "get_components q = Some (path_components path @ rest)"
      using relative_path_result [of self child path rest] assms r by (auto simp: path_ok_def is_absolute_def)
    ultimately show ?thesis using True r by simp
  next
    case False
    have "path_components self = [] \<or> length (path_components self) \<ge> length (path_components child)
        \<or> take (length (path_components self)) (path_components child) \<noteq> path_components self"
    proof (rule ccontr)
      assume "\<not> ?thesis"
      then show False using False append_take_drop_id [of "length (path_components self)" "path_components child"]
        by (metis drop_eq_Nil2 linorder_not_le)
    qed
    then show ?thesis unfolding if_not_P [OF False] is_parent_def append_relative_path_def gs gc by auto
  qed
qed

theorem append_relative_path_correct_witness:
  "is_parent ''/a/b'' ''/a/b/c//d'' = Some True"
proof -
  have "path_ok ''/a/b''" "path_ok ''/a/b/c//d''" "path_ok ''/x''" "is_absolute ''/x''"
    by (simp_all add: path_ok_def kNul_def vec_max_def is_absolute_def is_path_absolute_def)
  moreover have c: "path_components ''/a/b'' = [''/'', ''a'', ''b'']" "path_components ''/a/b/c//d'' = [''/'', ''a'', ''b'', ''c'', ''d'']"
    by code_simp+
  moreover have "length ''/x'' + sum_list (map (\<lambda>c. length c + 1) (path_components ''/a/b/c//d'')) \<le> vec_max" by (simp add: c vec_max_def)
  ultimately show ?thesis using append_relative_path_correct [of "''/a/b''" "''/a/b/c//d''" "''/x''"] by simp
qed

text \<open>C17: The extension operations cut a path that does not end with a separator in two and put it together again: \<^verbatim>\<open>remove_extension\<close> and
\<^verbatim>\<open>extension\<close>, double extensions as \<^verbatim>\<open>.tar.gz\<close> included, and \<^verbatim>\<open>remove_final_extension\<close> and \<^verbatim>\<open>final_extension\<close> append to the path, and
\<^verbatim>\<open>insert_before_extension\<close> and \<^verbatim>\<open>replace_extension\<close> change what stands between or behind.\<close>

theorem extension_round_trip:
  assumes "path_ok p" "\<not> ends_with_separator p"
    and "kNul \<notin> set s" "s \<noteq> []" "2 * length p + length s < vec_max" "\<not> is_empty_or_special_case (basename p)"
  shows "remove_extension p @ extension p = p \<and> remove_final_extension p @ final_extension p = p
    \<and> insert_before_extension p s = remove_extension p @ s @ extension p
    \<and> (s \<noteq> ''.'' \<longrightarrow> replace_extension p s = remove_extension p @ (if hd s = CHR ''.'' then s else CHR ''.'' # s))"
proof -
  have r: "remove_extension p @ extension p = p" "remove_final_extension p @ final_extension p = p"
    using assms remove_extension_split [of p] remove_final_extension_split [of p] by (simp_all add: path_ok_def)
  have nul: "kNul \<notin> set (remove_extension p)" "kNul \<notin> set (extension p)"
    using remove_ok(1) [OF assms(1)] extension_ok(1) [OF assms(1)] by (simp_all add: path_ok_def)
  have i: "insert_before_extension p s = remove_extension p @ s @ extension p"
    using assms nul by (simp add: insert_before_extension_def append_to_string_eq make_path_id)
  have "replace_extension p s = remove_extension p @ (if hd s = CHR ''.'' then s else CHR ''.'' # s)" if "s \<noteq> ''.''"
  proof -
    have "\<not> (length s = 1 \<and> s ! 0 = kExtensionSeparator)" using that by (auto simp: kExtensionSeparator_def length_Suc_conv)
    then show ?thesis
      using assms nul by (auto simp: replace_extension_def append_to_string_eq make_path_id hd_conv_nth kExtensionSeparator_def Let_def)
  qed
  with r i show ?thesis by blast
qed

theorem extension_round_trip_witness:
  "remove_extension ''/a/x.tar.gz'' @ extension ''/a/x.tar.gz'' = ''/a/x.tar.gz''
    \<and> replace_extension ''/a/x.tar.gz'' ''zip'' = remove_extension ''/a/x.tar.gz'' @ ''.zip''"
proof -
  have ok: "path_ok ''/a/x.tar.gz''" by (simp add: path_ok_def kNul_def vec_max_def)
  have "basename ''/a/x.tar.gz'' = ''x.tar.gz''"
    using ok by (simp add: basename_eq path_ok_def stripped_name last_part_def)
  then show ?thesis
    using extension_round_trip [of "''/a/x.tar.gz''" "''zip''"] ok
    by (simp add: kNul_def vec_max_def ends_with_separator_def is_empty_or_special_case_def kCurrentDirectory_def kParentDirectory_def)
qed

end
