(* ===== verification/Protobuf_Codec.thy ===== *)
theory Protobuf_Codec
  imports Length_Header_Codec
begin

text \<open>
  \<^verbatim>\<open>ProtobufCodec\<close> and \<^verbatim>\<open>ProtobufDispatch\<close> (include/protobuf/ProtobufCodec.h, include/protobuf/ProtobufDispatch.h). A frame carries the length
  of its type name, the name as a C string, the serialized message, and the checksum of the three.

  The protobuf library is the parameter of type \<open>('m, 'd) protobuf\<close>: messages \<open>'m\<close>, descriptors \<open>'d\<close>, and the functions the
  code calls. What the callbacks are given is a list of events. The message callback of \<^verbatim>\<open>Codec::recv\<close> gets a fresh buffer to which
  \<^verbatim>\<open>decode\<close> has appended the payload, and reads only that buffer.
\<close>

section \<open>The protobuf library\<close>

record ('m, 'd) protobuf =
  IsInitialized :: "'m \<Rightarrow> bool"
  GetTypeName :: "'m \<Rightarrow> byte list"
  GetDescriptor :: "'m \<Rightarrow> 'd"
  SerializeAsString :: "'m \<Rightarrow> byte list"
  FindMessageTypeByName :: "byte list \<Rightarrow> 'd option"
  GetPrototype :: "'d \<Rightarrow> bool"
  ParseFromArray :: "'d \<Rightarrow> byte list \<Rightarrow> 'm option"

text \<open>A message that can be sent: initialized, of a type the receiver knows, and parsed back from its serialization.\<close>

definition pb_known :: "('m, 'd) protobuf \<Rightarrow> 'm \<Rightarrow> bool" where
  "pb_known P m \<longleftrightarrow> IsInitialized P m \<and> GetTypeName P m \<noteq> []
     \<and> FindMessageTypeByName P (GetTypeName P m) = Some (GetDescriptor P m) \<and> GetPrototype P (GetDescriptor P m)
     \<and> ParseFromArray P (GetDescriptor P m) (SerializeAsString P m) = Some m"

section \<open>Decoding and encoding\<close>

definition pb_length_type :: length_type where
  "pb_length_type = kLengthType32"

definition pb_header_length :: int where
  "pb_header_length = 4"

definition pb_max_payload :: int where
  "pb_max_payload = 64 * 1024 * 1024"

definition pb_checksum_length :: int where
  "pb_checksum_length = 4"

definition pb_min_payload :: int where
  "pb_min_payload = pb_header_length + 2 + pb_checksum_length"

definition pb_decode :: "bool \<Rightarrow> bool \<Rightarrow> byte_buffer \<Rightarrow> byte_buffer \<Rightarrow> (int \<times> byte_buffer \<times> byte_buffer) res" where
  "pb_decode little signed_char buff payload =
     (let lt = length_type_size pb_length_type; cs = pb_checksum_length in
      bindR (readable_bytes buff) (\<lambda>n.
      if n \<ge> lt then
        bindR (get_payload_length little pb_length_type buff) (\<lambda>len.
        if len < pb_min_payload \<or> len > pb_max_payload then Inr (-1, buff, payload)
        else if n \<ge> to_size (len + int lt) then
            bindR (begin_read buff) (\<lambda>p.
            bindR (if cs > 0 then peek_uint32 little (p + lt + nat len - nat cs) (buffer buff) else Inr 0) (\<lambda>checksum.
            bindR (if cs > 0 then crc32_of signed_char (p + lt) (nat (len - cs)) (buffer buff) else Inr 0) (\<lambda>expectsum.
            if expectsum = checksum then
              bindR (read_mem (p + lt) (nat (len - cs)) (buffer buff)) (\<lambda>body.
              bindR (buf_append payload body) (\<lambda>(ok, payload').
              bindR (has_read buff (to_size (len + int lt))) (\<lambda>buff'.
              Inr (1, buff', payload'))))
            else Inr (-1, buff, payload))))
        else Inr (0, buff, payload))
      else Inr (0, buff, payload)))"

definition pb_encode :: "bool \<Rightarrow> bool \<Rightarrow> byte_buffer \<Rightarrow> byte_buffer \<Rightarrow> (int \<times> byte_buffer) res" where
  "pb_encode little signed_char payload buff =
     bindR (readable_bytes payload) (\<lambda>n.
       let len = int n; cs = pb_checksum_length in
       if len = 0 then Inr (0, buff)
       else if len < pb_min_payload - cs \<or> len > pb_max_payload then Inr (-1, buff)
       else
         bindR (set_buff_length little pb_length_type (len + cs) buff) (\<lambda>buff1.
         bindR (begin_read payload) (\<lambda>p.
         bindR (read_mem p n (buffer payload)) (\<lambda>body.
         bindR (buf_append buff1 body) (\<lambda>(ok, buff2).
         if cs > 0 then
           bindR (crc32_of signed_char p n (buffer payload)) (\<lambda>checksum.
           bindR (append_int32 little buff2 checksum) (\<lambda>buff3.
           Inr (1, buff3)))
         else Inr (1, buff2))))))"

definition pb_decoder :: "bool \<Rightarrow> bool \<Rightarrow> unit decoder" where
  "pb_decoder little signed_char c buff payload =
     bindR (pb_decode little signed_char buff payload) (\<lambda>(rt, buff', payload'). Inr (rt, buff', payload', c))"

definition pb_encoder :: "bool \<Rightarrow> bool \<Rightarrow> unit encoder" where
  "pb_encoder little signed_char c payload buff = pb_encode little signed_char payload buff"

section \<open>Messages\<close>

datatype error_code = kNoError | kInvalidNameLen | kUnknownMessageType | kParseError

definition serialize :: "bool \<Rightarrow> bool \<Rightarrow> ('m, 'd) protobuf \<Rightarrow> 'm \<Rightarrow> byte_buffer \<Rightarrow> (bool \<times> byte_buffer) res" where
  "serialize dc little P mesg payload =
     check (dc \<longrightarrow> IsInitialized P mesg) (
     bindR (readable_bytes payload) (\<lambda>n. check (n = 0) (
     let type_name = GetTypeName P mesg;
         nameLen = of_nat (length type_name + 1) :: 32 word;
         data = SerializeAsString P mesg;
         size = sint (of_nat (length data) :: 32 word)
     in bindR (append_int32 little payload nameLen) (\<lambda>p1.
        bindR (read_mem 0 (to_size (sint nameLen)) (type_name @ [0])) (\<lambda>cstr.
        bindR (buf_append p1 cstr) (\<lambda>(ok, p2).
        bindR (ensure_writable_bytes p2 (to_size size)) (\<lambda>p3.
        bindR (begin_write p3) (\<lambda>w.
        bindR (if int (length data) \<le> size then write_mem w data (buffer p3) else Inr (buffer p3)) (\<lambda>mem.
        bindR (has_written (p3\<lparr>buffer := mem\<rparr>) (to_size size)) (\<lambda>p4.
        bindR (readable_bytes p4) (\<lambda>r.
        check (r = to_size (4 + sint nameLen + size)) (Inr (True, p4)))))))))))))"

definition generate_mesg :: "('m, 'd) protobuf \<Rightarrow> byte list \<Rightarrow> 'd option" where
  "generate_mesg P name =
     (case FindMessageTypeByName P name of None \<Rightarrow> None | Some desc \<Rightarrow> if GetPrototype P desc then Some desc else None)"

definition parse_mesg :: "bool \<Rightarrow> ('m, 'd) protobuf \<Rightarrow> byte_buffer \<Rightarrow> (error_code \<times> 'm option) res" where
  "parse_mesg little P payload =
     bindR (readable_bytes payload) (\<lambda>n. check (n > 0) (
     bindR (read_int32 little payload) (\<lambda>(w, p1).
     bindR (readable_bytes p1) (\<lambda>r.
     let nameLen = to_size (sint w) in
     if nameLen \<ge> 2 \<and> nameLen \<le> r then
       bindR (begin_read p1) (\<lambda>p.
       bindR (read_mem p (nameLen - 1) (buffer p1)) (\<lambda>name.
       case generate_mesg P name of
         None \<Rightarrow> Inr (kUnknownMessageType, None)
       | Some d \<Rightarrow>
           let dataLen = sint (of_nat (r - nameLen) :: 32 word) in
           bindR (read_mem (p + nameLen) (nat dataLen) (buffer p1)) (\<lambda>data.
           case ParseFromArray P d data of
             Some mesg \<Rightarrow> Inr (kNoError, Some mesg)
           | None \<Rightarrow> Inr (kParseError, None))))
     else Inr (kInvalidNameLen, None)))))"

datatype 'm pb_event =
    Pb_dispatch 'm
  | Pb_no_dispatch
  | Pb_error error_code
  | Pb_send "byte list"
  | Pb_shutdown

definition pb_parse :: "bool \<Rightarrow> ('m, 'd) protobuf \<Rightarrow> bool \<Rightarrow> byte_buffer \<Rightarrow> 'm pb_event res" where
  "pb_parse little P has_dispatch payload =
     bindR (readable_bytes payload) (\<lambda>n. check (n > 0) (
     bindR (parse_mesg little P payload) (\<lambda>(err, mesg).
     case (err, mesg) of
       (kNoError, Some m) \<Rightarrow> Inr (if has_dispatch then Pb_dispatch m else Pb_no_dispatch)
     | _ \<Rightarrow> Inr (Pb_error err))))"

text \<open>The default of the error callback.\<close>

fun error_callback :: "'m pb_event \<Rightarrow> 'm pb_event" where
  "error_callback (Pb_error err) = Pb_shutdown"
| "error_callback e = e"

section \<open>Receiving and sending\<close>

fun pb_deliver :: "bool \<Rightarrow> ('m, 'd) protobuf \<Rightarrow> bool \<Rightarrow> codec_event list \<Rightarrow> 'm pb_event list res" where
  "pb_deliver little P has_dispatch [] = Inr []"
| "pb_deliver little P has_dispatch (e # es) =
     bindR (case e of
        Ev_message m \<Rightarrow>
          bindR (new_buffer kUnLimitSize kInitialSize) (\<lambda>payload.
          bindR (buf_append payload m) (\<lambda>(ok, payload').
          bindR (pb_parse little P has_dispatch payload') (\<lambda>r. Inr [r])))
      | Ev_no_callback \<Rightarrow> Inr []
      | Ev_send m \<Rightarrow> Inr [Pb_send m]
      | Ev_shutdown \<Rightarrow> Inr [Pb_shutdown]) (\<lambda>ev.
     bindR (pb_deliver little P has_dispatch es) (\<lambda>evs. Inr (ev @ evs)))"

definition pb_recv ::
  "bool \<Rightarrow> bool \<Rightarrow> ('m, 'd) protobuf \<Rightarrow> bool \<Rightarrow> bool \<Rightarrow> byte_buffer \<Rightarrow> ('m pb_event list \<times> byte_buffer) res option" where
  "pb_recv little signed_char P in_own_loop has_dispatch buff =
     Option.bind (recv (pb_decoder little signed_char) in_own_loop True () buff) (\<lambda>r.
       Some (bindR r (\<lambda>(evs, c, buff'). bindR (pb_deliver little P has_dispatch evs) (\<lambda>es. Inr (es, buff')))))"

definition pb_recv_segments ::
  "bool \<Rightarrow> bool \<Rightarrow> ('m, 'd) protobuf \<Rightarrow> bool \<Rightarrow> byte_buffer \<Rightarrow> byte list list \<Rightarrow> ('m pb_event list \<times> byte_buffer) res option" where
  "pb_recv_segments little signed_char P has_dispatch buff segs =
     Option.bind (recv_segments (pb_decoder little signed_char) () buff segs) (\<lambda>r.
       Some (bindR r (\<lambda>(evs, c, buff'). bindR (pb_deliver little P has_dispatch evs) (\<lambda>es. Inr (es, buff')))))"

definition pb_send :: "bool \<Rightarrow> bool \<Rightarrow> bool \<Rightarrow> ('m, 'd) protobuf \<Rightarrow> 'm \<Rightarrow> 'm pb_event list res" where
  "pb_send dc little signed_char P mesg =
     bindR (new_buffer kUnLimitSize kInitialSize) (\<lambda>payload.
     bindR (serialize dc little P mesg payload) (\<lambda>(ok, payload').
     if ok then bindR (send (pb_encoder little signed_char) () payload') (pb_deliver little P True) else Inr []))"

section \<open>Dispatching\<close>

text \<open>\<open>cbs\<close> maps a descriptor to its callback; \<open>cast\<close> is the \<^verbatim>\<open>dynamic_pointer_cast\<close> to the type the callback was added for.\<close>

datatype ('m, 'cb) dispatch_event = Dp_callback 'cb 'm | Dp_default 'm | Dp_ignored 'm

definition dispatch_add :: "'d \<Rightarrow> 'cb \<Rightarrow> ('d \<Rightarrow> 'cb option) \<Rightarrow> ('d \<Rightarrow> 'cb option)" where
  "dispatch_add desc cb cbs = cbs(desc \<mapsto> cb)"

definition pb_dispatch ::
  "('m, 'd) protobuf \<Rightarrow> ('d \<Rightarrow> 'm \<Rightarrow> bool) \<Rightarrow> bool \<Rightarrow> ('d \<Rightarrow> 'cb option) \<Rightarrow> 'm \<Rightarrow> ('m, 'cb) dispatch_event res" where
  "pb_dispatch P cast has_default cbs mesg =
     (case cbs (GetDescriptor P mesg) of
        Some cb \<Rightarrow> check (cast (GetDescriptor P mesg) mesg) (Inr (Dp_callback cb mesg))
      | None \<Rightarrow> Inr (if has_default then Dp_default mesg else Dp_ignored mesg))"


section \<open>The codec as a stream codec\<close>

text \<open>The configuration of \<^verbatim>\<open>LengthHeaderCodec\<close> with the same frames; it lacks only the lower limit of the length.\<close>

definition pb_config :: length_header_codec where
  "pb_config = \<lparr>length_type = kLengthType32, max_payload = pb_max_payload, checksum_length = 4\<rparr>"

lemmas pb_consts = pb_length_type_def pb_header_length_def pb_max_payload_def pb_checksum_length_def pb_min_payload_def

lemma pb_config_simps [simp]:
  "length_type pb_config = kLengthType32" "max_payload pb_config = 67108864" "checksum_length pb_config = 4" "lh_wf pb_config"
  by (simp_all add: pb_config_def lh_wf_def pb_max_payload_def)

lemma pb_decode_lh:
  assumes "bb_inv b"
  shows "pb_decode little signed_char b pl =
    (if 4 \<le> length (contents b) \<and> length_value kLengthType32 (contents b) < 10 then Inr (-1, b, pl)
     else lh_decode little signed_char pb_config b pl)"
proof -
  have s: "len \<le> 67108864 \<Longrightarrow> 10 \<le> len \<Longrightarrow> ssize (len + 4) = Inr (len + 4)" for len by (simp add: ssize_def)
  show ?thesis
    using get_payload_length_inv [OF assms, of kLengthType32 little] s [of "length_value kLengthType32 (contents b)"]
    by (auto simp: pb_decode_def lh_decode_def readable_bytes_inv [OF assms] pb_consts min_payload_def Let_def simp del: get_payload_length.simps cong: if_cong)
qed

definition pb_valid :: "unit \<Rightarrow> byte list \<Rightarrow> bool" where
  "pb_valid _ p \<longleftrightarrow> 6 \<le> length p \<and> int (length p) + 4 \<le> pb_max_payload"

definition pb_frame :: "unit \<Rightarrow> byte list \<Rightarrow> byte list" where
  "pb_frame _ p = lh_frame pb_config p"

lemma pb_valid_lh: "pb_valid c p \<Longrightarrow> lh_valid pb_config p"
  by (auto simp: pb_valid_def lh_valid_def pb_max_payload_def)

lemma pb_decoder_lh:
  "bb_inv b \<Longrightarrow> length (contents b) < 4 \<or> 10 \<le> length_value kLengthType32 (contents b) \<Longrightarrow>
     pb_decoder little signed_char () b payload0 = bindR (lh_decoder little signed_char pb_config b payload0) (\<lambda>(rt, b', p', c). Inr (rt, b', p', ()))"
  by (cases "lh_decode little signed_char pb_config b payload0") (auto simp: pb_decoder_def lh_decoder_def pb_decode_lh)

lemma pb_frame_long: "pb_valid c p \<Longrightarrow> 10 \<le> length_value kLengthType32 (lh_frame pb_config p @ xs)"
  using lh_frame_value [of pb_config p xs] pb_valid_lh [of c p] by (simp add: pb_valid_def)

interpretation pbc: stream_codec "pb_decoder little signed_char" "\<lambda>_. True" pb_frame pb_valid "\<lambda>_. True"
proof unfold_locales
  fix b c assume b: "bb_inv b" "True"
  show "\<exists>rt b' pl' c'. pb_decoder little signed_char c b payload0 = Inr (rt, b', pl', c') \<and> bb_inv b' \<and> bb_inv pl' \<and> True
      \<and> (if rt = 1 then length (contents b') < length (contents b) else contents b' = contents b)
      \<and> writer_index b' \<le> writer_index b \<and> write_limit b' = write_limit b"
  proof (cases "length (contents b) < 4 \<or> 10 \<le> length_value kLengthType32 (contents b)")
    case True
    then show ?thesis using lhc.dec_ok [OF b(1), of pb_config little signed_char] pb_decoder_lh [OF b(1) True, of little signed_char] by fastforce
  next
    case False
    then show ?thesis using b by (simp add: pb_decoder_def pb_decode_lh [OF b(1)])
  qed
next
  fix c b p rest assume a: "bb_inv b" "pb_valid c p" "contents b = pb_frame c p @ rest"
  then have "10 \<le> length_value kLengthType32 (contents b)" using pb_frame_long [of c p rest] by (simp add: pb_frame_def)
  then show "\<exists>b' pl'. pb_decoder little signed_char c b payload0 = Inr (1, b', pl', c) \<and> bb_inv b' \<and> bb_inv pl'
      \<and> contents b' = rest \<and> contents pl' = p \<and> writer_index b' \<le> writer_index b \<and> write_limit b' = write_limit b"
    using lhc.dec_frame [OF _ a(1) pb_valid_lh [OF a(2)], of rest little signed_char] a(3) pb_decoder_lh [OF a(1), of little signed_char]
    by (auto simp: pb_frame_def)
next
  fix c b assume "bb_inv b" "contents b = []"
  then show "pb_decoder little signed_char c b payload0 = Inr (0, b, payload0, c)"
    using lhc.dec_empty [of pb_config b little signed_char] pb_decoder_lh [of b little signed_char] by auto
next
  fix c b p missing assume a: "bb_inv b" "pb_valid c p" "pb_frame c p = contents b @ missing" "missing \<noteq> []"
  have "length (contents b) < 4 \<or> 10 \<le> length_value kLengthType32 (contents b)"
  proof (cases "length (contents b) < 4")
    case False
    then have "length_value kLengthType32 (contents b) = length_value kLengthType32 (lh_frame pb_config p)"
      using a(3) by (simp add: pb_frame_def)
    then show ?thesis using pb_frame_long [OF a(2), of "[]"] by simp
  qed simp
  then show "pb_decoder little signed_char c b payload0 = Inr (0, b, payload0, c)"
    using lhc.dec_partial [OF _ a(1) pb_valid_lh [OF a(2)], of missing little signed_char] a(3,4) pb_decoder_lh [OF a(1), of little signed_char]
    by (auto simp: pb_frame_def)
qed simp


section \<open>Messages and frames\<close>

lemma pb_encode_lh:
  assumes "bb_inv p"
  shows "pb_encode little signed_char p b =
    (if 0 < length (contents p) \<and> length (contents p) < 6 then Inr (-1, b) else lh_encode little signed_char pb_config p b)"
proof -
  have s: "len \<le> 67108864 \<Longrightarrow> 0 \<le> len \<Longrightarrow> ssize (len + 4) = Inr (len + 4)" for len by (simp add: ssize_def)
  show ?thesis
    using s [of "int (length (contents p))"]
    by (auto simp: pb_encode_def lh_encode_def readable_bytes_inv [OF assms] pb_consts min_payload_def Let_def cong: if_cong)
qed

definition pb_body :: "('m, 'd) protobuf \<Rightarrow> 'm \<Rightarrow> byte list" where
  "pb_body P m = be_bytes 4 (of_nat (length (GetTypeName P m) + 1) :: 32 word) @ GetTypeName P m @ [0] @ SerializeAsString P m"

definition pb_fits :: "('m, 'd) protobuf \<Rightarrow> 'm \<Rightarrow> bool" where
  "pb_fits P m \<longleftrightarrow> int (length (pb_body P m)) + 4 \<le> pb_max_payload"

lemma length_pb_body: "length (pb_body P m) = length (GetTypeName P m) + length (SerializeAsString P m) + 5"
  by (simp add: pb_body_def)

lemma int32_small: "n < 2 ^ 31 \<Longrightarrow> sint (of_nat n :: 32 word) = int n"
  by (simp add: sint_uint uint_nat unat_of_nat signed_take_bit_int_eq_self)

lemma serialize_ok:
  assumes "IsInitialized P m" and "pb_fits P m"
  shows "\<exists>p. serialize dc little P m payload0 = Inr (True, p) \<and> bb_inv p \<and> contents p = pb_body P m"
proof -
  define name where "name = GetTypeName P m"
  define data where "data = SerializeAsString P m"
  have small: "length name + length data + 9 \<le> 67108864"
    using assms(2) length_pb_body [of P m] by (simp add: pb_fits_def pb_max_payload_def name_def data_def)
  have ints: "sint (of_nat (length name + 1) :: 32 word) = int (length name + 1)" "sint (of_nat (length data) :: 32 word) = int (length data)"
    using small by (intro int32_small, simp)+
  have sizes: "to_size (int (length name + 1)) = length name + 1" "to_size (int (length data)) = length data"
    "to_size (4 + int (length name + 1) + int (length data)) = 5 + length name + length data"
    using small by (simp_all add: to_size_nonneg)
  obtain p1 where p1: "append_int32 little payload0 (of_nat (length name + 1)) = Inr p1" "bb_inv p1"
      "contents p1 = be_bytes 4 (of_nat (length name + 1) :: 32 word)" "writer_index p1 \<le> 4" "write_limit p1 = vec_max"
    using int32.app_ok [OF payload0_inv(1), of little "of_nat (length name + 1)"] by (auto simp: vec_max_def)
  have "writer_index p1 + length (name @ [0]) \<le> write_limit p1" using p1(4,5) small by (simp add: vec_max_def)
  from bb.append_ok [OF p1(2) this] obtain p2 where p2: "buf_append p1 (name @ [0]) = Inr (True, p2)" "bb_inv p2"
      "contents p2 = contents p1 @ name @ [0]" "writer_index p2 \<le> writer_index p1 + length name + 1" "write_limit p2 = vec_max"
    using p1(5) by auto
  have room: "writer_index p2 + length data \<le> write_limit p2" using p1(4) p2(4,5) small by (simp add: vec_max_def)
  from make_writable_bytes_room [OF p2(2) this] obtain p3 where p3: "make_writable_bytes p2 (length data) = Inr p3" "bb_inv p3"
      "contents p3 = contents p2" "writer_index p3 \<le> writer_index p2" "writer_index p3 + length data \<le> buf_size p3" "max_size p3 = max_size p2"
    by blast
  have "writer_index p3 + length data \<le> write_limit p3" using room p3(4) write_limit_cong [OF p3(6)] by simp
  from write_then_has_written [OF p3(2) this p3(5)] obtain p4 where p4:
      "bindR (write_mem (writer_index p3) data (buffer p3)) (\<lambda>mem. has_written (p3\<lparr>buffer := mem\<rparr>) (length data)) = Inr p4"
      "bb_inv p4" "contents p4 = contents p3 @ data" by blast
  obtain mem where mem: "write_mem (writer_index p3) data (buffer p3) = Inr mem" "has_written (p3\<lparr>buffer := mem\<rparr>) (length data) = Inr p4"
    using p4(1) by (cases "write_mem (writer_index p3) data (buffer p3)") auto
  have cstr: "read_mem 0 (length name + 1) (name @ [0]) = Inr (name @ [0])" by (simp add: read_mem_def bytes_at_def)
  have "contents p4 = pb_body P m" using p4(3) p3(3) p2(3) p1(3) by (simp add: pb_body_def name_def data_def)
  moreover have "serialize dc little P m payload0 = Inr (True, p4)"
    unfolding serialize_def readable_bytes_inv [OF payload0_inv(1)] name_def [symmetric] data_def [symmetric] Let_def ints sizes
    using assms(1) p1(1) cstr p2(1) p3(1) mem p3(2) p4(2) calculation
    by (simp add: ensure_writable_bytes_def begin_write_inv readable_bytes_inv length_pb_body name_def data_def check_def)
  ultimately show ?thesis using p4(2) by blast
qed


lemma read_int32_eq:
  assumes "bb_inv b" "4 \<le> length (contents b)"
  shows "\<exists>b'. read_int32 little b = Inr (of_be_bytes (take 4 (contents b)), b') \<and> bb_inv b' \<and> contents b' = drop 4 (contents b)"
  using bb.consume_ok [OF assms(1), of 4] assms by (auto simp: read_int32_def has_read_int32_def peek_int_eq)

definition pb_parsed :: "('m, 'd) protobuf \<Rightarrow> byte list \<Rightarrow> error_code \<times> 'm option" where
  "pb_parsed P xs =
     (let nameLen = sint (of_be_bytes (take 4 xs) :: 32 word) in
      if 2 \<le> nameLen \<and> nameLen \<le> int (length xs) - 4 then
        (case generate_mesg P (take (nat nameLen - 1) (drop 4 xs)) of
           None \<Rightarrow> (kUnknownMessageType, None)
         | Some d \<Rightarrow> (case ParseFromArray P d (drop (4 + nat nameLen) xs) of
                        Some m \<Rightarrow> (kNoError, Some m)
                      | None \<Rightarrow> (kParseError, None)))
      else (kInvalidNameLen, None))"

lemma parse_mesg_eq:
  assumes inv: "bb_inv b" and len: "4 \<le> length (contents b)" "length (contents b) < 2 ^ 31"
  shows "parse_mesg little P b = Inr (pb_parsed P (contents b))"
proof -
  define w where "w = (of_be_bytes (take 4 (contents b)) :: 32 word)"
  obtain b1 where b1: "read_int32 little b = Inr (w, b1)" "bb_inv b1" "contents b1 = drop 4 (contents b)"
    using read_int32_eq [OF inv len(1), of little] by (auto simp: w_def)
  define r where "r = length (contents b1)"
  have r: "int r = int (length (contents b)) - 4" "r < 2 ^ 31" using len by (simp_all add: r_def b1(3))
  have cond: "2 \<le> to_size (sint w) \<and> to_size (sint w) \<le> r \<longleftrightarrow> 2 \<le> sint w \<and> sint w \<le> int r"
  proof (cases "0 \<le> sint w")
    case True
    moreover have "sint w < 2 ^ 31" using sint_lt [of w] by simp
    ultimately have "to_size (sint w) = nat (sint w)" by (simp add: to_size_nonneg)
    with True show ?thesis by auto
  next
    case False
    moreover have "- (2 ^ 31) \<le> sint w" using sint_ge [of w] by simp
    ultimately have "(sint w + 2 ^ 64) mod 2 ^ 64 = sint w + 2 ^ 64" by (intro mod_pos_pos_trivial) auto
    then have "sint w mod 2 ^ 64 = sint w + 2 ^ 64" by (simp only: mod_add_self2)
    then have "to_size (sint w) = nat (sint w + 2 ^ 64)" by (simp add: to_size_def)
    with False r(2) \<open>- (2 ^ 31) \<le> sint w\<close> show ?thesis by auto
  qed
  show ?thesis
  proof (cases "2 \<le> sint w \<and> sint w \<le> int r")
    case True
    define k where "k = nat (sint w)"
    have k: "to_size (sint w) = k" "2 \<le> k" "k \<le> r" using True r(2) by (auto simp: to_size_nonneg k_def)
    have dl: "nat (sint (of_nat (r - k) :: 32 word)) = r - k" using r(2) by (subst int32_small) auto
    have "read_mem (reader_index b1) (k - 1) (buffer b1) = Inr (take (k - 1) (contents b1))"
      using b1(2) k by (intro read_contents) (auto simp: r_def)
    moreover have "read_mem (reader_index b1 + k) (r - k) (buffer b1) = Inr (drop k (contents b1))"
      using read_contents_at [OF b1(2), of k "r - k"] k by (simp add: r_def)
    moreover have rb: "readable_bytes b1 = Inr r" "begin_read b1 = Inr (reader_index b1)"
      using readable_bytes_inv [OF b1(2)] begin_read_inv [OF b1(2)] by (simp_all add: r_def)
    moreover have "0 < length (contents b)" using len(1) by linarith
    ultimately have "parse_mesg little P b =
        (case generate_mesg P (take (k - 1) (contents b1)) of
           None \<Rightarrow> Inr (kUnknownMessageType, None)
         | Some d \<Rightarrow> (case ParseFromArray P d (drop k (contents b1)) of Some m \<Rightarrow> Inr (kNoError, Some m) | None \<Rightarrow> Inr (kParseError, None)))"
      using k(2,3) unfolding parse_mesg_def readable_bytes_inv [OF inv] Let_def
      by (simp add: check_def b1(1) k(1) dl del: of_nat_diff cong: option.case_cong)
    moreover have "pb_parsed P (contents b) =
        (case generate_mesg P (take (k - 1) (contents b1)) of
           None \<Rightarrow> (kUnknownMessageType, None)
         | Some d \<Rightarrow> (case ParseFromArray P d (drop k (contents b1)) of Some m \<Rightarrow> (kNoError, Some m) | None \<Rightarrow> (kParseError, None)))"
      using True r(1) by (simp add: pb_parsed_def w_def [symmetric] k_def [symmetric] b1(3) add.commute Let_def cong: option.case_cong)
    ultimately show ?thesis by (auto split: option.split)
  next
    case False
    then show ?thesis
      using b1 len cond r(1)
      by (auto simp: parse_mesg_def pb_parsed_def readable_bytes_inv [OF inv] readable_bytes_inv [OF b1(2)] check_def Let_def
          w_def [symmetric] r_def [symmetric])
  qed
qed


definition pb_outcome :: "('m, 'd) protobuf \<Rightarrow> byte list \<Rightarrow> 'm pb_event" where
  "pb_outcome P xs = (case pb_parsed P xs of (kNoError, Some m) \<Rightarrow> Pb_dispatch m | (err, _) \<Rightarrow> Pb_error err)"

lemma pb_parse_eq:
  assumes "bb_inv b" "4 \<le> length (contents b)" "length (contents b) < 2 ^ 31"
  shows "pb_parse little P True b = Inr (pb_outcome P (contents b))"
proof -
  have "0 < length (contents b)" using assms(2) by linarith
  then show ?thesis
    by (simp add: pb_parse_def parse_mesg_eq [OF assms] readable_bytes_inv [OF assms(1)] check_def pb_outcome_def
        split: prod.split option.split error_code.split)
qed

lemma pb_parsed_body:
  assumes "pb_known P m" and "pb_fits P m"
  shows "pb_parsed P (pb_body P m) = (kNoError, Some m)"
proof -
  define name where "name = GetTypeName P m"
  have small: "length name + length (SerializeAsString P m) + 9 \<le> 67108864" "name \<noteq> []"
    using assms length_pb_body [of P m] by (simp_all add: pb_fits_def pb_max_payload_def name_def pb_known_def)
  have "of_be_bytes (take 4 (pb_body P m)) = (of_nat (length name + 1) :: 32 word)"
    by (simp add: pb_body_def name_def of_be_bytes_be_bytes)
  moreover have "sint (of_nat (length name + 1) :: 32 word) = int (length name + 1)" using small(1) by (intro int32_small) simp
  moreover have "2 \<le> length name + 1" using small(2) by (cases name) auto
  moreover have "drop 4 (pb_body P m) = name @ [0] @ SerializeAsString P m" by (simp add: pb_body_def name_def)
  moreover from this have "drop (4 + (length name + 1)) (pb_body P m) = SerializeAsString P m" by (metis add.commute append_assoc append_eq_conv_conj drop_drop length_append_singleton Suc_eq_plus1)
  ultimately show ?thesis
    using assms(1) length_pb_body [of P m] nat_int [of "length name + 1"]
    by (simp add: pb_parsed_def generate_mesg_def pb_known_def name_def [symmetric] Let_def)
qed

lemma deliver_message:
  assumes "6 \<le> length m" "length m < 2 ^ 31"
  shows "pb_deliver little P True (Ev_message m # es) = bindR (pb_deliver little P True es) (\<lambda>evs. Inr (pb_outcome P m # evs))"
proof -
  have "writer_index payload0 + length m \<le> write_limit payload0" using assms(2) by (simp add: vec_max_def)
  from bb.append_ok [OF payload0_inv(1) this] obtain p where p: "buf_append payload0 m = Inr (True, p)" "bb_inv p" "contents p = m" by auto
  then have "pb_parse little P True p = Inr (pb_outcome P m)" using pb_parse_eq [OF p(2)] assms by simp
  with p show ?thesis by (simp add: new_payload)
qed

lemma deliver_known:
  "list_all (pb_known P) ms \<Longrightarrow> list_all (pb_fits P) ms \<Longrightarrow>
     pb_deliver little P True (map (Ev_message \<circ> pb_body P) ms) = Inr (map Pb_dispatch ms)"
proof (induction ms)
  case (Cons m ms)
  have "6 \<le> length (pb_body P m)" "length (pb_body P m) < 2 ^ 31"
    using Cons.prems length_pb_body [of P m] by (auto simp: pb_known_def pb_fits_def pb_max_payload_def Suc_le_eq)
  from deliver_message [OF this, of little P] Cons show ?case
    by (simp add: pb_outcome_def pb_parsed_body del: pb_deliver.simps(2))
qed simp

lemma pb_valid_body: "pb_known P m \<Longrightarrow> pb_fits P m \<Longrightarrow> pb_valid () (pb_body P m)"
  using length_pb_body [of P m] by (auto simp: pb_valid_def pb_known_def pb_fits_def Suc_le_eq)

lemma pb_send_ok:
  assumes "pb_known P m" and "pb_fits P m"
  shows "pb_send dc little signed_char P m = Inr [Pb_send (pb_frame () (pb_body P m))]"
proof -
  obtain p where p: "serialize dc little P m payload0 = Inr (True, p)" "bb_inv p" "contents p = pb_body P m"
    using serialize_ok [of P m dc little] assms by (auto simp: pb_known_def)
  have v: "6 \<le> length (pb_body P m)" "int (length (pb_body P m)) + 4 \<le> 67108864"
    using pb_valid_body [OF assms] by (simp_all add: pb_valid_def pb_max_payload_def)
  have "length (lh_frame pb_config (pb_body P m)) = 8 + length (pb_body P m)" by (subst length_lh_frame) simp_all
  then have "writer_index payload0 + length (lh_frame pb_config (contents p)) \<le> write_limit payload0"
    using v(2) by (simp add: p(3) vec_max_def)
  moreover have "pb_body P m \<noteq> []" using v(1) by auto
  ultimately obtain b where
    "lh_encode little signed_char pb_config p payload0 = Inr (1, b)" "bb_inv b" "contents b = lh_frame pb_config (pb_body P m)"
    using lh_encode_ok [OF _ p(2) payload0_inv(1), of pb_config little signed_char] v by (auto simp: p(3))
  then have "send (pb_encoder little signed_char) () p = Inr [Ev_send (pb_frame () (pb_body P m))]"
    using v(1) p(3) by (simp add: send_def new_payload pb_encoder_def pb_encode_lh [OF p(2)] to_string_inv pb_frame_def)
  then show ?thesis by (simp add: pb_send_def new_payload p(1))
qed


section \<open>Arbitrary input\<close>

text \<open>The verdict of \<^verbatim>\<open>decode\<close> on the bytes at hand, and what it takes for a frame.\<close>

definition pb_verdict :: "byte list \<Rightarrow> verdict" where
  "pb_verdict xs = (if 4 \<le> length xs \<and> length_value kLengthType32 xs < 10 then Bad else lh_decode_contents pb_config xs)"

lemma pb_verdict_payload:
  assumes "pb_verdict xs = Payload body k"
  shows "pb_valid () body" "xs = pb_frame () body @ drop k xs" "0 < k" "k \<le> length xs" "length body < 2 ^ 31"
proof -
  define len where "len = length_value kLengthType32 xs"
  have v: "\<not> (4 \<le> length xs \<and> len < 10)" "lh_decode_contents pb_config xs = Payload body k"
    using assms by (auto simp: pb_verdict_def len_def split: if_splits)
  then have d: "4 \<le> length xs" "len \<le> 67108864" "4 + nat len \<le> length xs" "body = take (nat len - 4) (drop 4 xs)"
    by (auto simp: lh_decode_contents_def len_def Let_def split: if_splits)
  with v(1) have b: "6 \<le> length body" "length body + 4 \<le> 67108864" by auto
  then show "pb_valid () body" "length body < 2 ^ 31" by (simp_all add: pb_valid_def pb_max_payload_def)
  have "take k xs = pb_frame () body" using lh_decode_contents_is_frame(1) [OF _ v(2)] by (simp add: pb_frame_def)
  then show "xs = pb_frame () body @ drop k xs" by (metis append_take_drop_id)
  show "0 < k" "k \<le> length xs" using lh_decode_contents_payload [OF v(2)] by simp_all
qed

lemma pb_recv_round:
  assumes "bb_inv b"
  shows "case pb_verdict (contents b) of
      Payload body k \<Rightarrow> \<exists>b'. recv_round (pb_decoder little signed_char) True () b = Inr (True, [Ev_message body], (), b')
        \<and> bb_inv b' \<and> contents b' = drop k (contents b)
    | v \<Rightarrow> recv_round (pb_decoder little signed_char) True () b = Inr (False, if v = Bad then [Ev_shutdown] else [], (), b)"
proof (cases "4 \<le> length (contents b) \<and> length_value kLengthType32 (contents b) < 10")
  case True
  then show ?thesis using assms by (simp add: pb_verdict_def recv_round_def new_payload pb_decoder_def pb_decode_lh)
next
  case False
  then have "pb_decoder little signed_char () b payload0
      = bindR (lh_decoder little signed_char pb_config b payload0) (\<lambda>(rt, b', p', c). Inr (rt, b', p', ()))"
    by (intro pb_decoder_lh [OF assms]) auto
  moreover have "pb_verdict (contents b) = lh_decode_contents pb_config (contents b)" using False by (auto simp: pb_verdict_def)
  moreover obtain rt b' pl' where "lh_decoder little signed_char pb_config b payload0 = Inr (rt, b', pl', pb_config)" "bb_inv b'" "bb_inv pl'"
      "case lh_decode_contents pb_config (contents b) of
         Bad \<Rightarrow> rt = -1 \<and> b' = b \<and> pl' = payload0
       | Incomplete \<Rightarrow> rt = 0 \<and> b' = b \<and> pl' = payload0
       | Payload body k \<Rightarrow> rt = 1 \<and> contents pl' = body \<and> contents b' = drop k (contents b)"
    using lh_decoder_ok [OF assms, of pb_config little signed_char] by auto
  ultimately show ?thesis
    by (cases "lh_decode_contents pb_config (contents b)")
      (simp_all add: recv_round_def new_payload message_event_def to_string_inv)
qed

lemma pb_recv_frames:
  "bb_inv b \<Longrightarrow> \<exists>ps b'. bb_inv b' \<and> contents b = concat (map (pb_frame ()) ps) @ contents b' \<and> list_all (pb_valid ()) ps
     \<and> (pb_verdict (contents b') = Incomplete
          \<and> recv_loop (pb_decoder little signed_char) True () b = Some (Inr (map Ev_message ps, (), b'))
        \<or> pb_verdict (contents b') = Bad
          \<and> recv_loop (pb_decoder little signed_char) True () b = Some (Inr (map Ev_message ps @ [Ev_shutdown], (), b')))"
proof (induction "length (contents b)" arbitrary: b rule: less_induct)
  case less
  let ?dec = "pb_decoder little signed_char"
  note round = pb_recv_round [OF less.prems, of little signed_char]
  show ?case
  proof (cases "pb_verdict (contents b)")
    case (Payload body k)
    then obtain b1 where b1: "recv_round ?dec True () b = Inr (True, [Ev_message body], (), b1)" "bb_inv b1" "contents b1 = drop k (contents b)"
      using round by auto
    note body = pb_verdict_payload [OF Payload]
    have "length (contents b1) < length (contents b)" using b1(3) body(3,4) by simp
    from less.hyps [OF this b1(2)] obtain ps b' where IH: "bb_inv b'" "contents b1 = concat (map (pb_frame ()) ps) @ contents b'"
        "list_all (pb_valid ()) ps"
        "pb_verdict (contents b') = Incomplete \<and> recv_loop ?dec True () b1 = Some (Inr (map Ev_message ps, (), b'))
         \<or> pb_verdict (contents b') = Bad \<and> recv_loop ?dec True () b1 = Some (Inr (map Ev_message ps @ [Ev_shutdown], (), b'))"
      by blast
    have "contents b = pb_frame () body @ contents b1" using body(2) b1(3) by simp
    moreover have "recv_loop ?dec True () b = Option.bind (recv_loop ?dec True () b1) (\<lambda>r.
        Some (bindR r (\<lambda>(evs', c'', buff''). Inr ([Ev_message body] @ evs', c'', buff''))))"
      using b1(1) by (subst recv_loop.simps) simp
    ultimately show ?thesis using IH body(1) by (intro exI [of _ "body # ps"] exI [of _ b']) auto
  next
    case Bad
    with round have "recv_loop ?dec True () b = Some (Inr ([Ev_shutdown], (), b))" by (subst recv_loop.simps) simp
    with Bad less.prems show ?thesis by (intro exI [of _ "[]"] exI [of _ b]) simp
  next
    case Incomplete
    with round have "recv_loop ?dec True () b = Some (Inr ([], (), b))" by (subst recv_loop.simps) simp
    with Incomplete less.prems show ?thesis by (intro exI [of _ "[]"] exI [of _ b]) simp
  qed
qed

definition pb_handed :: "'m pb_event \<Rightarrow> bool" where
  "pb_handed e = (case e of Pb_dispatch _ \<Rightarrow> True | Pb_error err \<Rightarrow> err \<noteq> kNoError | _ \<Rightarrow> False)"

lemma pb_outcome_handed: "pb_handed (pb_outcome P xs)"
  by (auto simp: pb_outcome_def pb_parsed_def pb_handed_def Let_def split: option.split)

lemma deliver_frames:
  "list_all (pb_valid ()) ps \<Longrightarrow> pb_deliver little P True fin = Inr es \<Longrightarrow>
     pb_deliver little P True (map Ev_message ps @ fin) = Inr (map (pb_outcome P) ps @ es)"
proof (induction ps)
  case (Cons m ps)
  then have "6 \<le> length m" "length m < 2 ^ 31" by (auto simp: pb_valid_def pb_max_payload_def)
  from deliver_message [OF this, of little P "map Ev_message ps @ fin"] Cons show ?case
    by (simp del: pb_deliver.simps(2))
qed simp


text \<open>The limit of \<^verbatim>\<open>encode\<close> leaves the checksum out: the largest payloads it frames are rejected by \<^verbatim>\<open>decode\<close>.\<close>

lemma pb_limit_mismatch:
  assumes "bb_inv b" "contents b = pb_frame () p @ rest" "int (length p) \<le> pb_max_payload" "pb_max_payload < int (length p) + 4"
  shows "pb_decode little signed_char b pl = Inr (-1, b, pl)"
proof -
  have "lh_decode_contents pb_config (contents b) = Bad"
    using lh_too_long_bad [of pb_config p rest] assms(2-) by (simp add: pb_frame_def pb_max_payload_def)
  then show ?thesis by (simp add: pb_decode_lh [OF assms(1)] lh_decode_inv [OF assms(1)])
qed

section \<open>Properties\<close>


definition sample_protobuf :: "(byte list, unit) protobuf" where
  "sample_protobuf = \<lparr>IsInitialized = \<lambda>_. True, GetTypeName = \<lambda>_. [65], GetDescriptor = \<lambda>_. (), SerializeAsString = \<lambda>m. m,
     FindMessageTypeByName = \<lambda>n. if n = [65] then Some () else None, GetPrototype = \<lambda>_. True, ParseFromArray = \<lambda>_ bs. Some bs\<rparr>"


text \<open>C22: No peer can make the receiving side fail: whatever bytes the buffer holds and whatever the protobuf library makes of them, \<^verbatim>\<open>recv\<close> returns
  without a failed check or an access outside a buffer. The bytes are frames followed by a rest that does not begin with one. For each frame, in order,
  there is one event, the outcome of parsing its payload: the message is dispatched, or the error is reported to the error callback. The rest stays
  in the buffer, and the round ends with a shutdown exactly when the rest is malformed.\<close>

theorem protobuf_recv_safe:
  assumes "bb_inv b"
  shows "\<exists>ps fin b'. pb_recv little signed_char P True True b = Some (Inr (map (pb_outcome P) ps @ fin, b')) \<and> bb_inv b'
    \<and> contents b = concat (map (pb_frame ()) ps) @ contents b' \<and> list_all (pb_valid ()) ps
    \<and> list_all pb_handed (map (pb_outcome P) ps)
    \<and> (pb_verdict (contents b') = Incomplete \<and> fin = [] \<or> pb_verdict (contents b') = Bad \<and> fin = [Pb_shutdown])"
proof -
  obtain ps b' where r: "bb_inv b'" "contents b = concat (map (pb_frame ()) ps) @ contents b'" "list_all (pb_valid ()) ps"
      "pb_verdict (contents b') = Incomplete
          \<and> recv_loop (pb_decoder little signed_char) True () b = Some (Inr (map Ev_message ps, (), b'))
        \<or> pb_verdict (contents b') = Bad
          \<and> recv_loop (pb_decoder little signed_char) True () b = Some (Inr (map Ev_message ps @ [Ev_shutdown], (), b'))"
    using pb_recv_frames [OF assms] by blast
  have "pb_deliver little P True (map Ev_message ps) = Inr (map (pb_outcome P) ps)"
    "pb_deliver little P True (map Ev_message ps @ [Ev_shutdown]) = Inr (map (pb_outcome P) ps @ [Pb_shutdown])"
    using deliver_frames [OF r(3), of little P "[]"] deliver_frames [OF r(3), of little P "[Ev_shutdown]"] by simp_all
  moreover have "list_all pb_handed (map (pb_outcome P) ps)" by (simp add: list_all_iff pb_outcome_handed)
  ultimately show ?thesis using r unfolding pb_recv_def recv_def by fastforce
qed

text \<open>A buffer with the frame of a message followed by a header with a length that is too small.\<close>

definition sample_input :: byte_buffer where
  "sample_input = \<lparr>max_size = kUnLimitSize, reader_index = 0, writer_index = 20,
     buffer = pb_frame () (pb_body sample_protobuf [1, 2]) @ [0, 0, 0, 9]\<rparr>"

theorem protobuf_recv_safe_witness:
  "\<exists>b'. pb_recv True True sample_protobuf True True sample_input = Some (Inr ([Pb_dispatch [1, 2], Pb_shutdown], b')) \<and> contents b' = [0, 0, 0, 9]"
proof -
  let ?P = "sample_protobuf" and ?p = "pb_body sample_protobuf [1, 2]"
  have kf: "pb_known ?P [1, 2]" "pb_fits ?P [1, 2]"
    by (simp_all add: pb_known_def pb_fits_def length_pb_body sample_protobuf_def pb_max_payload_def)
  have len: "length (pb_frame () q) = 8 + length q" for q
    using length_lh_frame [of pb_config q] by (simp add: pb_frame_def)
  have inv: "bb_inv sample_input" and cont: "contents sample_input = pb_frame () ?p @ [0, 0, 0, 9]"
    by (simp_all add: sample_input_def bb_inv_def vec_max_def contents_def bytes_at_def len length_pb_body sample_protobuf_def)
  have frame: "pb_verdict (pb_frame () q @ rest) = Payload q (length (pb_frame () q))" if "pb_valid () q" for q rest
    using lh_decode_contents_frame [OF _ pb_valid_lh [OF that], of rest] pb_frame_long [OF that, of rest]
    by (auto simp: pb_verdict_def pb_frame_def)
  obtain ps fin b' where r: "pb_recv True True ?P True True sample_input = Some (Inr (map (pb_outcome ?P) ps @ fin, b'))"
      "pb_frame () ?p @ [0, 0, 0, 9] = concat (map (pb_frame ()) ps) @ contents b'" "list_all (pb_valid ()) ps"
      "pb_verdict (contents b') = Incomplete \<and> fin = [] \<or> pb_verdict (contents b') = Bad \<and> fin = [Pb_shutdown]"
    using protobuf_recv_safe [OF inv, of True True ?P, unfolded cont] by blast
  have v: "pb_verdict (pb_frame () ?p @ [0, 0, 0, 9]) = Payload ?p (length (pb_frame () ?p))" by (rule frame [OF pb_valid_body [OF kf]])
  from r(2,4) v obtain q qs where ps: "ps = q # qs" by (cases ps) auto
  then have "pb_frame () ?p @ [0, 0, 0, 9] = pb_frame () q @ (concat (map (pb_frame ()) qs) @ contents b')" "pb_valid () q"
    using r(2,3) by simp_all
  with v frame [of q] have q: "q = ?p" by (metis verdict.inject)
  with r(2) ps have rest: "[0, 0, 0, 9] = concat (map (pb_frame ()) qs) @ contents b'" by simp
  moreover have "qs = []"
  proof (cases qs)
    case (Cons x xs)
    then have "length [0, 0, 0, 9 :: byte] \<ge> length (pb_frame () x)" using rest by (metis concat.simps(2) length_append le_add1 le_trans list.map(2))
    moreover have "6 \<le> length x" using r(3) ps Cons by (simp add: pb_valid_def)
    ultimately show ?thesis using len [of x] by simp
  qed
  ultimately have c: "contents b' = [0, 0, 0, 9]" by simp
  have "pb_verdict [0, 0, 0, 9] = Bad" by code_simp
  with r(4) c have "fin = [Pb_shutdown]" by auto
  moreover have "pb_outcome ?P ?p = Pb_dispatch [1, 2]" by (simp add: pb_outcome_def pb_parsed_body [OF kf])
  ultimately show ?thesis using r(1) ps q \<open>qs = []\<close> c by simp
qed

end
