(* ===== verification/Protorpc.thy ===== *)
theory Protorpc
  imports Protobuf_Codec "HOL-Library.AList" "HOL-Library.Multiset"
begin

text \<open>
  Remote procedure calls over protobuf messages (include/protorpc/ProtorpcChannel.h, include/protorpc/ProtorpcServer.h,
  include/protorpc/ProtorpcMessage.proto). The channel is a record; what it sends, runs, parses and deletes are the events of its operations.
  Messages travel through \<^verbatim>\<open>ProtobufCodec\<close>, which delivers them unchanged and in order (\<open>Protobuf_Codec\<close>), so the model of two connected channels has
  a queue of messages in each direction. Services, their methods and the serialization of requests and responses are parameters.
\<close>

section \<open>Messages\<close>

datatype mesg_type = REQUEST | RESPONSE | ERROR | Unknown_type int

datatype rpc_error = NO_ERROR | WRONG_PROTO | NO_SERVICE | NO_METHOD | INVALID_REQUEST | INVALID_RESPONSE | TIMEOUT

record rpc_message =
  mtype :: mesg_type
  mid :: "64 word"
  mservice :: string
  mmethod :: string
  mrequest :: "byte list"
  mresponse :: "byte list"
  merror :: rpc_error

definition new_message :: rpc_message where
  "new_message = \<lparr>mtype = REQUEST, mid = 0, mservice = [], mmethod = [], mrequest = [], mresponse = [], merror = NO_ERROR\<rparr>"

section \<open>The channel\<close>

text \<open>A service is its table of methods and, for a method, whether the bytes of a request can be parsed.\<close>

record service =
  find_method :: "string \<Rightarrow> bool"
  parse_request :: "string \<Rightarrow> byte list \<Rightarrow> bool"

text \<open>Response objects and closures are named by numbers; a call may have no closure.\<close>

record outstanding_call =
  resp :: nat
  closure :: "nat option"

record rpc_channel =
  rc_conn :: "nat option"
  rc_id :: "64 word"
  outstandings :: "(64 word \<times> outstanding_call) list"
  services :: "string \<Rightarrow> service option"

datatype rpc_event =
    Rpc_send nat rpc_message
  | Rpc_call string string "byte list" "64 word"
  | Rpc_parse nat "byte list"
  | Rpc_run nat
  | Rpc_delete nat
  | Rpc_log

definition new_rpc_channel :: rpc_channel where
  "new_rpc_channel = \<lparr>rc_conn = None, rc_id = 0, outstandings = [], services = (\<lambda>_. None)\<rparr>"

definition channel_add :: "string \<Rightarrow> service option \<Rightarrow> rpc_channel \<Rightarrow> rpc_channel res" where
  "channel_add full_name svc ch = check (svc \<noteq> None) (Inr (ch\<lparr>services := (services ch)(full_name := svc)\<rparr>))"

definition detach_connection :: "rpc_channel \<Rightarrow> rpc_channel res" where
  "detach_connection ch = check (rc_conn ch \<noteq> None) (Inr (ch\<lparr>rc_conn := None\<rparr>))"

definition attach_connection :: "nat option \<Rightarrow> rpc_channel \<Rightarrow> rpc_channel res" where
  "attach_connection conn ch = check (conn \<noteq> None) (Inr (ch\<lparr>rc_conn := conn\<rparr>))"

definition rpc_response :: "rpc_channel \<Rightarrow> rpc_message \<Rightarrow> (rpc_event list \<times> rpc_channel) res" where
  "rpc_response ch mesg =
     check (rc_conn ch \<noteq> None)
     (case map_of (outstandings ch) (mid mesg) of
        None \<Rightarrow> Inr ([], ch)
      | Some out \<Rightarrow>
          Inr ([Rpc_parse (resp out) (mresponse mesg)] @ (case closure out of None \<Rightarrow> [] | Some d \<Rightarrow> [Rpc_run d]) @ [Rpc_delete (resp out)],
               ch\<lparr>outstandings := AList.delete (mid mesg) (outstandings ch)\<rparr>))"

definition rpc_failed :: "nat \<Rightarrow> rpc_error \<Rightarrow> rpc_message \<Rightarrow> rpc_event" where
  "rpc_failed conn err mesg = Rpc_send conn (new_message\<lparr>mid := mid mesg, merror := err, mtype := RESPONSE\<rparr>)"

definition rpc_request :: "rpc_channel \<Rightarrow> rpc_message \<Rightarrow> rpc_event list res" where
  "rpc_request ch mesg =
     (case rc_conn ch of
        None \<Rightarrow> Inl Check_failed
      | Some conn \<Rightarrow>
          (case services ch (mservice mesg) of
             None \<Rightarrow> Inr [rpc_failed conn NO_SERVICE mesg]
           | Some impl \<Rightarrow>
               if \<not> find_method impl (mmethod mesg) then Inr [rpc_failed conn NO_METHOD mesg]
               else if \<not> parse_request impl (mmethod mesg) (mrequest mesg) then Inr [rpc_failed conn INVALID_REQUEST mesg]
               else Inr [Rpc_call (mservice mesg) (mmethod mesg) (mrequest mesg) (mid mesg)]))"

definition rpc_dispatch :: "rpc_channel \<Rightarrow> nat \<Rightarrow> rpc_message \<Rightarrow> (rpc_event list \<times> rpc_channel) res" where
  "rpc_dispatch ch conn mesg =
     check (rc_conn ch = Some conn)
     (case mtype mesg of
        REQUEST \<Rightarrow> bindR (rpc_request ch mesg) (\<lambda>evs. Inr (evs, ch))
      | RESPONSE \<Rightarrow> rpc_response ch mesg
      | ERROR \<Rightarrow> Inr ([Rpc_log], ch)
      | Unknown_type _ \<Rightarrow> Inr ([], ch))"

text \<open>\<^verbatim>\<open>recv\<close> hands each decoded message to \<^verbatim>\<open>dispatch\<close>.\<close>

fun dispatch_all :: "rpc_channel \<Rightarrow> nat \<Rightarrow> rpc_message list \<Rightarrow> (rpc_event list \<times> rpc_channel) res" where
  "dispatch_all ch conn [] = Inr ([], ch)"
| "dispatch_all ch conn (m # ms) =
     bindR (rpc_dispatch ch conn m) (\<lambda>(evs, ch1). bindR (dispatch_all ch1 conn ms) (\<lambda>(evs', ch2). Inr (evs @ evs', ch2)))"

definition rpc_recv :: "rpc_channel \<Rightarrow> nat \<Rightarrow> rpc_message list \<Rightarrow> (rpc_event list \<times> rpc_channel) res" where
  "rpc_recv ch conn ms = check (rc_conn ch = Some conn) (dispatch_all ch conn ms)"

text \<open>\<^verbatim>\<open>finish\<close>, the closure of a call on the side of the server; \<open>res\<close> is the serialized response.\<close>

definition rpc_finish :: "rpc_channel \<Rightarrow> byte list \<Rightarrow> 64 word \<Rightarrow> rpc_event list res" where
  "rpc_finish ch res i =
     (case rc_conn ch of
        None \<Rightarrow> Inl Check_failed
      | Some conn \<Rightarrow> Inr [Rpc_send conn (new_message\<lparr>mid := i, mresponse := res, mtype := RESPONSE\<rparr>)])"

definition CallMethod ::
  "rpc_channel \<Rightarrow> string \<Rightarrow> string \<Rightarrow> byte list \<Rightarrow> nat \<Rightarrow> nat option \<Rightarrow> (rpc_event list \<times> rpc_channel) res" where
  "CallMethod ch service_name method_name request response d =
     (case rc_conn ch of
        None \<Rightarrow> Inl Check_failed
      | Some conn \<Rightarrow>
          let i = rc_id ch + 1;
              mesg = new_message\<lparr>mid := i, mservice := service_name, mmethod := method_name, mrequest := request, mtype := REQUEST\<rparr>
          in Inr ([Rpc_send conn mesg],
                  ch\<lparr>rc_id := i, outstandings := AList.update i \<lparr>resp = response, closure = d\<rparr> (outstandings ch)\<rparr>))"

text \<open>The destructor deletes the responses that are still awaited.\<close>

definition destroy_channel :: "rpc_channel \<Rightarrow> rpc_event list" where
  "destroy_channel ch = map (\<lambda>(i, out). Rpc_delete (resp out)) (outstandings ch)"

section \<open>The server\<close>

definition rpc_new_connection :: "bool \<Rightarrow> nat \<Rightarrow> rpc_channel \<Rightarrow> rpc_channel res" where
  "rpc_new_connection in_own_loop conn ch = check in_own_loop (attach_connection (Some conn) ch)"

definition rpc_remove_connection :: "bool \<Rightarrow> nat \<Rightarrow> rpc_channel \<Rightarrow> rpc_channel res" where
  "rpc_remove_connection in_own_loop conn ch = check in_own_loop (detach_connection ch)"

section \<open>Two connected channels\<close>

text \<open>
  The client calls from any thread; its map is filled before the message is sent. \<open>executing\<close> are the calls an implementation of the
  server works on; it runs the closure of each once, whenever it is ready. The last three components record the run: the calls by number, what the
  server answered, and for each message the client received its number and everything the client did on it. The connection stands throughout.
\<close>

record rpc_system =
  client :: rpc_channel
  server :: rpc_channel
  to_server :: "rpc_message list"
  to_client :: "rpc_message list"
  executing :: "(64 word \<times> string \<times> string \<times> byte list) list"
  calls :: "(string \<times> string \<times> byte list \<times> nat \<times> nat option) list"
  answers :: "(64 word \<times> byte list) list"
  completed :: "(64 word \<times> rpc_event list) list"

datatype rpc_op =
    Call string string "byte list" nat "nat option"
  | Serve
  | Finish nat "byte list"
  | Complete

fun apply_server :: "rpc_event list \<Rightarrow> rpc_system \<Rightarrow> rpc_system" where
  "apply_server [] s = s"
| "apply_server (Rpc_send _ m # es) s =
     apply_server es (s\<lparr>to_client := to_client s @ [m], answers := answers s @ [(mid m, mresponse m)]\<rparr>)"
| "apply_server (Rpc_call svc meth req i # es) s = apply_server es (s\<lparr>executing := executing s @ [(i, svc, meth, req)]\<rparr>)"
| "apply_server (_ # es) s = apply_server es s"

fun apply_client :: "rpc_event list \<Rightarrow> rpc_system \<Rightarrow> rpc_system" where
  "apply_client [] s = s"
| "apply_client (Rpc_send _ m # es) s = apply_client es (s\<lparr>to_server := to_server s @ [m]\<rparr>)"
| "apply_client (_ # es) s = apply_client es s"

fun rpc_step :: "nat \<Rightarrow> nat \<Rightarrow> rpc_system \<Rightarrow> rpc_op \<Rightarrow> (rpc_event list \<times> rpc_system) res" where
  "rpc_step cc cs s (Call svc meth req r d) =
     bindR (CallMethod (client s) svc meth req r d) (\<lambda>(evs, ch).
       Inr (evs, apply_client evs (s\<lparr>client := ch, calls := calls s @ [(svc, meth, req, r, d)]\<rparr>)))"
| "rpc_step cc cs s Serve =
     (case to_server s of
        [] \<Rightarrow> Inr ([], s)
      | m # ms \<Rightarrow> bindR (rpc_recv (server s) cs [m]) (\<lambda>(evs, ch). Inr (evs, apply_server evs (s\<lparr>server := ch, to_server := ms\<rparr>))))"
| "rpc_step cc cs s (Finish k res) =
     (if k < length (executing s)
      then bindR (rpc_finish (server s) res (fst (executing s ! k))) (\<lambda>evs.
             Inr (evs, apply_server evs (s\<lparr>executing := remove_nth k (executing s)\<rparr>)))
      else Inr ([], s))"
| "rpc_step cc cs s Complete =
     (case to_client s of
        [] \<Rightarrow> Inr ([], s)
      | m # ms \<Rightarrow> bindR (rpc_recv (client s) cc [m]) (\<lambda>(evs, ch).
          Inr (evs, apply_client evs (s\<lparr>client := ch, to_client := ms, completed := completed s @ [(mid m, evs)]\<rparr>))))"


section \<open>Every call is at one place\<close>

definition pending :: "rpc_system \<Rightarrow> 64 word list" where
  "pending s = map mid (to_server s) @ map fst (executing s) @ map mid (to_client s)"

fun request_of :: "(string \<times> string \<times> byte list \<times> nat \<times> nat option) list \<Rightarrow> 64 word \<Rightarrow> string \<times> string \<times> byte list" where
  "request_of cs i = (case cs ! (unat i - 1) of (svc, meth, req, r, d) \<Rightarrow> (svc, meth, req))"

definition awaited :: "(string \<times> string \<times> byte list \<times> nat \<times> nat option) list \<Rightarrow> 64 word \<Rightarrow> outstanding_call" where
  "awaited cs i = (case cs ! (unat i - 1) of (svc, meth, req, r, d) \<Rightarrow> \<lparr>resp = r, closure = d\<rparr>)"

text \<open>How a call is to be completed: the answer is parsed into the response object of the call, its closure runs if it has one, and the object is deleted.\<close>

definition completion :: "outstanding_call \<Rightarrow> byte list \<Rightarrow> rpc_event list" where
  "completion out bs = [Rpc_parse (resp out) bs] @ (case closure out of None \<Rightarrow> [] | Some d \<Rightarrow> [Rpc_run d]) @ [Rpc_delete (resp out)]"

definition call_ids :: "nat \<Rightarrow> 64 word list" where
  "call_ids n = map of_nat [1..<Suc n]"

definition rpc_inv :: "nat \<Rightarrow> nat \<Rightarrow> rpc_system \<Rightarrow> bool" where
  "rpc_inv cc cs s \<longleftrightarrow> rc_conn (client s) = Some cc \<and> rc_conn (server s) = Some cs
     \<and> length (calls s) < 2 ^ 64 \<and> rc_id (client s) = of_nat (length (calls s))
     \<and> mset (pending s) + mset (map fst (completed s)) = mset (call_ids (length (calls s)))
     \<and> (\<forall>i. map_of (outstandings (client s)) i = (if i \<in> set (pending s) then Some (awaited (calls s) i) else None))
     \<and> (\<forall>m \<in> set (to_server s). mtype m = REQUEST \<and> (mservice m, mmethod m, mrequest m) = request_of (calls s) (mid m))
     \<and> (\<forall>(i, call) \<in> set (executing s). call = request_of (calls s) i)
     \<and> (\<forall>m \<in> set (to_client s). mtype m = RESPONSE \<and> (mid m, mresponse m) \<in> set (answers s))
     \<and> (\<forall>(i, evs) \<in> set (completed s). \<exists>bs. (i, bs) \<in> set (answers s) \<and> evs = completion (awaited (calls s) i) bs)
     \<and> mset (map fst (answers s)) = mset (map mid (to_client s)) + mset (map fst (completed s))"

lemma of_nat_64: "m < 2 ^ 64 \<Longrightarrow> unat (of_nat m :: 64 word) = m"
  by (simp add: unat_of_nat)

lemma call_ids_Suc: "call_ids (Suc n) = call_ids n @ [of_nat (Suc n)]"
  by (simp add: call_ids_def)

lemma call_ids_range:
  assumes "n < 2 ^ 64" "i \<in> set (call_ids n)"
  shows "1 \<le> unat i \<and> unat i \<le> n"
proof -
  obtain k where k: "1 \<le> k" "k \<le> n" "i = of_nat k" using assms(2) by (auto simp: call_ids_def)
  then show ?thesis using of_nat_64 [of k] assms(1) by simp
qed

lemma distinct_call_ids:
  assumes "n < 2 ^ 64" shows "distinct (call_ids n)"
proof -
  have "inj_on (of_nat :: nat \<Rightarrow> 64 word) (set [1..<Suc n])"
  proof (rule inj_onI)
    fix x y assume "x \<in> set [1..<Suc n]" "y \<in> set [1..<Suc n]" "(of_nat x :: 64 word) = of_nat y"
    then show "x = y" using of_nat_64 [of x] of_nat_64 [of y] assms by (metis Suc_leI atLeastLessThan_iff le_less_trans less_Suc_eq_le set_upt)
  qed
  then show ?thesis by (simp add: call_ids_def distinct_map del: upt_Suc)
qed

lemma pending_ids:
  assumes "rpc_inv cc cs s"
  shows "distinct (pending s)" "set (pending s) \<subseteq> set (call_ids (length (calls s)))"
    "fst ` set (completed s) \<subseteq> set (call_ids (length (calls s)))"
proof -
  have m: "mset (pending s @ map fst (completed s)) = mset (call_ids (length (calls s)))" and n: "length (calls s) < 2 ^ 64"
    using assms by (simp_all add: rpc_inv_def)
  have "distinct (pending s @ map fst (completed s))" using mset_eq_imp_distinct_iff [OF m] distinct_call_ids [OF n] by simp
  then show "distinct (pending s)" by simp
  show "set (pending s) \<subseteq> set (call_ids (length (calls s)))" "fst ` set (completed s) \<subseteq> set (call_ids (length (calls s)))"
    using mset_eq_setD [OF m] by auto
qed


lemma old_calls:
  assumes "rpc_inv cc cs s" "i \<in> set (pending s) \<union> fst ` set (completed s)"
  shows "request_of (calls s @ [c]) i = request_of (calls s) i" "awaited (calls s @ [c]) i = awaited (calls s) i"
proof -
  have "length (calls s) < 2 ^ 64" using assms(1) by (simp add: rpc_inv_def)
  then have "1 \<le> unat i \<and> unat i \<le> length (calls s)" using call_ids_range pending_ids(2,3) [OF assms(1)] assms(2) by blast
  then have "unat i - 1 < length (calls s)" by linarith
  then show "request_of (calls s @ [c]) i = request_of (calls s) i" "awaited (calls s @ [c]) i = awaited (calls s) i"
    by (simp_all add: awaited_def nth_append)
qed

lemma call_inv:
  assumes inv: "rpc_inv cc cs s" and small: "length (calls s) + 1 < 2 ^ 64"
  shows "\<exists>r s'. rpc_step cc cs s (Call svc meth req r0 d) = Inr (r, s') \<and> rpc_inv cc cs s' \<and> length (calls s') = Suc (length (calls s))"
proof -
  define N where "N = length (calls s)"
  define i where "i = (of_nat (Suc N) :: 64 word)"
  define c where "c = (svc, meth, req, r0, d)"
  define m where "m = new_message\<lparr>mid := i, mservice := svc, mmethod := meth, mrequest := req, mtype := REQUEST\<rparr>"
  define s' where "s' = s\<lparr>client := (client s)\<lparr>rc_id := i, outstandings := AList.update i \<lparr>resp = r0, closure = d\<rparr> (outstandings (client s))\<rparr>,
    calls := calls s @ [c], to_server := to_server s @ [m]\<rparr>"
  have ui: "unat i = Suc N" using of_nat_64 [of "Suc N"] small by (simp add: i_def N_def)
  have id: "rc_id (client s) + 1 = i" "rc_conn (client s) = Some cc" using inv by (simp_all add: rpc_inv_def i_def N_def add.commute)
  have step: "rpc_step cc cs s (Call svc meth req r0 d) = Inr ([Rpc_send cc m], s')"
    by (simp add: CallMethod_def id m_def s'_def c_def Let_def)
  have new: "request_of (calls s @ [c]) i = (svc, meth, req)" "awaited (calls s @ [c]) i = \<lparr>resp = r0, closure = d\<rparr>"
    by (simp_all add: awaited_def ui N_def c_def)
  have sel: "completed s' = completed s" "calls s' = calls s @ [c]" "executing s' = executing s" "to_server s' = to_server s @ [m]"
      "to_client s' = to_client s" "answers s' = answers s" "server s' = server s" "rc_conn (client s') = rc_conn (client s)"
      "rc_id (client s') = i" "outstandings (client s') = AList.update i \<lparr>resp = r0, closure = d\<rparr> (outstandings (client s))"
    by (simp_all add: s'_def)
  have pend: "mset (pending s') = mset (pending s) + {#i#}" "set (pending s') = insert i (set (pending s))"
    by (auto simp: pending_def s'_def m_def)
  have in_pend: "mid x \<in> set (pending s) \<union> fst ` set (completed s)" if "x \<in> set (to_server s)" for x using that by (simp add: pending_def)
  have ex_pend: "fst x \<in> set (pending s) \<union> fst ` set (completed s)" if "x \<in> set (executing s)" for x using that by (simp add: pending_def)
  have "mset (pending s') + mset (map fst (completed s')) = mset (call_ids (length (calls s')))"
    using inv by (simp add: pend sel rpc_inv_def call_ids_Suc i_def N_def)
  moreover have "map_of (outstandings (client s')) j = (if j \<in> set (pending s') then Some (awaited (calls s') j) else None)" for j
  proof (cases "j = i")
    case True
    then show ?thesis using new(2) by (simp add: pend sel update_conv')
  next
    case False
    moreover have "map_of (outstandings (client s)) j = (if j \<in> set (pending s) then Some (awaited (calls s) j) else None)"
      using inv by (simp add: rpc_inv_def)
    ultimately show ?thesis using old_calls(2) [OF inv, of j c] by (simp add: pend sel update_conv')
  qed
  moreover have "\<forall>x \<in> set (to_server s'). mtype x = REQUEST \<and> (mservice x, mmethod x, mrequest x) = request_of (calls s') (mid x)"
  proof
    fix x assume "x \<in> set (to_server s')"
    then consider "x = m" | "x \<in> set (to_server s)" by (auto simp: sel)
    then show "mtype x = REQUEST \<and> (mservice x, mmethod x, mrequest x) = request_of (calls s') (mid x)"
    proof cases
      case 1
      then show ?thesis using new(1) by (simp add: m_def sel del: request_of.simps)
    next
      case 2
      then show ?thesis using inv old_calls(1) [OF inv in_pend [OF 2], of c] by (simp add: rpc_inv_def sel del: request_of.simps)
    qed
  qed
  moreover have "\<forall>(j, call) \<in> set (executing s'). call = request_of (calls s') j"
    using inv old_calls(1) [OF inv ex_pend, of _ c] by (auto simp: rpc_inv_def sel simp del: request_of.simps)
  moreover have "\<forall>(j, evs) \<in> set (completed s'). \<exists>bs. (j, bs) \<in> set (answers s') \<and> evs = completion (awaited (calls s') j) bs"
  proof (clarify, unfold sel)
    fix j evs assume x: "(j, evs) \<in> set (completed s)"
    then have "j \<in> set (pending s) \<union> fst ` set (completed s)" by (force simp: image_iff)
    moreover obtain bs where "(j, bs) \<in> set (answers s)" "evs = completion (awaited (calls s) j) bs" using inv x by (auto simp: rpc_inv_def)
    ultimately show "\<exists>bs. (j, bs) \<in> set (answers s) \<and> evs = completion (awaited (calls s @ [c]) j) bs"
      using old_calls(2) [OF inv, of j c] by auto
  qed
  ultimately have "rpc_inv cc cs s'"
    using inv small by (simp add: rpc_inv_def sel i_def N_def del: request_of.simps)
  moreover have "length (calls s') = Suc (length (calls s))" by (simp add: sel)
  ultimately show ?thesis using step by blast
qed


text \<open>An answer moves a call of the server to the client, whichever way it is produced.\<close>

lemma answer_inv:
  assumes inv: "rpc_inv cc cs s" and ms: "mset (pending s) = {#i#} + mset (map mid tos @ map fst ex @ map mid (to_client s))"
    and sub: "set tos \<subseteq> set (to_server s)" "set ex \<subseteq> set (executing s)"
    and m: "mid m = i" "mtype m = RESPONSE"
  shows "rpc_inv cc cs (s\<lparr>to_server := tos, executing := ex, to_client := to_client s @ [m], answers := answers s @ [(i, mresponse m)]\<rparr>)"
    (is "rpc_inv cc cs ?s")
proof -
  have sel: "pending ?s = map mid tos @ map fst ex @ map mid (to_client s) @ [i]" by (simp add: pending_def m)
  have "mset (pending ?s) = mset (pending s)" using ms by (simp add: sel)
  moreover from this have "set (pending ?s) = set (pending s)" by (metis set_mset_mset)
  ultimately show ?thesis
    using inv sub m by (auto simp: rpc_inv_def simp del: request_of.simps)
qed

lemma rpc_request_cases:
  "rc_conn ch = Some conn \<Longrightarrow> (\<exists>e. rpc_request ch m = Inr [rpc_failed conn e m])
     \<or> rpc_request ch m = Inr [Rpc_call (mservice m) (mmethod m) (mrequest m) (mid m)]"
  by (auto simp: rpc_request_def split: option.split)

lemma serve_inv:
  assumes inv: "rpc_inv cc cs s"
  shows "\<exists>r s'. rpc_step cc cs s Serve = Inr (r, s') \<and> rpc_inv cc cs s' \<and> calls s' = calls s"
proof (cases "to_server s")
  case Nil
  then show ?thesis using inv by simp
next
  case (Cons m ms)
  have m: "mtype m = REQUEST" "(mservice m, mmethod m, mrequest m) = request_of (calls s) (mid m)" "rc_conn (server s) = Some cs"
    using inv Cons by (simp_all add: rpc_inv_def del: request_of.simps)
  consider (fail) e where "rpc_request (server s) m = Inr [rpc_failed cs e m]"
    | (call) "rpc_request (server s) m = Inr [Rpc_call (mservice m) (mmethod m) (mrequest m) (mid m)]"
    using rpc_request_cases [OF m(3), of m] by blast
  then show ?thesis
  proof cases
    case (fail e)
    let ?a = "new_message\<lparr>mid := mid m, merror := e, mtype := RESPONSE\<rparr>"
    let ?s = "s\<lparr>to_server := ms, executing := executing s, to_client := to_client s @ [?a], answers := answers s @ [(mid m, mresponse ?a)]\<rparr>"
    have "rpc_inv cc cs ?s"
      by (rule answer_inv [OF inv, of "mid m"]) (auto simp: Cons pending_def)
    moreover have "rpc_step cc cs s Serve = Inr ([rpc_failed cs e m], ?s)"
      using Cons m(1,3) fail by (simp add: rpc_recv_def rpc_dispatch_def check_def rpc_failed_def)
    ultimately show ?thesis by (intro exI [of _ "[rpc_failed cs e m]"] exI [of _ ?s]) simp
  next
    case call
    let ?s = "s\<lparr>to_server := ms, executing := executing s @ [(mid m, mservice m, mmethod m, mrequest m)]\<rparr>"
    have "mset (pending ?s) = mset (pending s)" "set (pending ?s) = set (pending s)" by (auto simp: pending_def Cons)
    then have "rpc_inv cc cs ?s" using inv m(2) Cons by (auto simp: rpc_inv_def simp del: request_of.simps)
    moreover have "rpc_step cc cs s Serve = Inr ([Rpc_call (mservice m) (mmethod m) (mrequest m) (mid m)], ?s)"
      using Cons m(1,3) call by (simp add: rpc_recv_def rpc_dispatch_def check_def)
    ultimately show ?thesis
      by (intro exI [of _ "[Rpc_call (mservice m) (mmethod m) (mrequest m) (mid m)]"] exI [of _ ?s]) simp
  qed
qed

lemma mset_remove_nth: "k < length xs \<Longrightarrow> mset xs = add_mset (xs ! k) (mset (remove_nth k xs))"
  unfolding remove_nth_def by (subst id_take_nth_drop [of k xs]) auto

lemma set_remove_nth: "set (remove_nth k xs) \<subseteq> set xs"
  unfolding remove_nth_def by (auto dest: in_set_takeD in_set_dropD)

lemma finish_inv:
  assumes inv: "rpc_inv cc cs s"
  shows "\<exists>r s'. rpc_step cc cs s (Finish k res) = Inr (r, s') \<and> rpc_inv cc cs s' \<and> calls s' = calls s"
proof (cases "k < length (executing s)")
  case True
  let ?i = "fst (executing s ! k)"
  let ?a = "new_message\<lparr>mid := ?i, mresponse := res, mtype := RESPONSE\<rparr>"
  let ?s = "s\<lparr>to_server := to_server s, executing := remove_nth k (executing s), to_client := to_client s @ [?a],
    answers := answers s @ [(?i, mresponse ?a)]\<rparr>"
  have "mset (map fst (executing s)) = {#?i#} + mset (map fst (remove_nth k (executing s)))"
    using mset_remove_nth [OF True] by simp
  then have "rpc_inv cc cs ?s"
    by (intro answer_inv [OF inv, of ?i]) (auto simp: pending_def set_remove_nth)
  moreover have "rc_conn (server s) = Some cs" using inv by (simp add: rpc_inv_def)
  then have "rpc_step cc cs s (Finish k res) = Inr ([Rpc_send cs ?a], ?s)" using True by (simp add: rpc_finish_def)
  ultimately show ?thesis by (intro exI [of _ "[Rpc_send cs ?a]"] exI [of _ ?s]) simp
qed (use inv in simp)


lemma complete_inv:
  assumes inv: "rpc_inv cc cs s"
  shows "\<exists>r s'. rpc_step cc cs s Complete = Inr (r, s') \<and> rpc_inv cc cs s' \<and> calls s' = calls s"
proof (cases "to_client s")
  case Nil
  then show ?thesis using inv by simp
next
  case (Cons m ms)
  let ?i = "mid m"
  have m: "mtype m = RESPONSE" "(?i, mresponse m) \<in> set (answers s)" "rc_conn (client s) = Some cc"
    using inv Cons by (simp_all add: rpc_inv_def del: request_of.simps)
  have ip: "?i \<in> set (pending s)" by (simp add: pending_def Cons)
  then have out: "map_of (outstandings (client s)) ?i = Some (awaited (calls s) ?i)" using inv by (simp add: rpc_inv_def)
  let ?ch = "(client s)\<lparr>outstandings := AList.delete ?i (outstandings (client s))\<rparr>"
  let ?evs = "completion (awaited (calls s) ?i) (mresponse m)"
  let ?s = "s\<lparr>client := ?ch, to_client := ms, completed := completed s @ [(?i, ?evs)]\<rparr>"
  have step: "rpc_step cc cs s Complete = Inr (?evs, ?s)"
    using Cons m(1,3) out by (simp add: rpc_recv_def rpc_dispatch_def rpc_response_def check_def completion_def split: option.split)
  have pend: "pending ?s = map mid (to_server s) @ map fst (executing s) @ map mid ms" by (simp add: pending_def)
  have mp: "mset (pending s) = mset (pending ?s) + {#?i#}" by (simp add: pending_def Cons)
  have "set (pending ?s) = set (pending s) - {?i}"
  proof -
    have "distinct (pending ?s @ [?i])" using pending_ids(1) [OF inv] mset_eq_imp_distinct_iff [of "pending s" "pending ?s @ [?i]"] mp by simp
    moreover have "set (pending s) = insert ?i (set (pending ?s))" using mset_eq_setD [of "pending s" "pending ?s @ [?i]"] mp by simp
    ultimately show ?thesis by auto
  qed
  then have "map_of (outstandings ?ch) j = (if j \<in> set (pending ?s) then Some (awaited (calls s) j) else None)" for j
    using inv by (simp add: rpc_inv_def delete_conv')
  moreover have "mset (pending ?s) + mset (map fst (completed ?s)) = mset (call_ids (length (calls s)))"
    using inv mp by (simp add: rpc_inv_def)
  ultimately have "rpc_inv cc cs ?s"
    using inv m(2) Cons by (auto simp: rpc_inv_def simp del: request_of.simps)
  with step show ?thesis by (intro exI [of _ ?evs] exI [of _ ?s]) (simp del: rpc_step.simps)
qed

lemma rpc_run_inv:
  "rpc_inv cc cs s \<Longrightarrow> length (calls s) + length ops < 2 ^ 64 \<Longrightarrow>
     \<exists>outs s'. run_steps (rpc_step cc cs) s ops = Inr (outs, s') \<and> rpc_inv cc cs s'"
proof (induction ops arbitrary: s)
  case (Cons x ops)
  have "\<exists>r s'. rpc_step cc cs s x = Inr (r, s') \<and> rpc_inv cc cs s' \<and> length (calls s') \<le> Suc (length (calls s))"
  proof (cases x)
    case (Call svc meth req r d)
    then show ?thesis using call_inv [OF Cons.prems(1), of svc meth req r d] Cons.prems(2) by (auto simp del: rpc_step.simps)
  next
    case Serve
    then show ?thesis using serve_inv [OF Cons.prems(1)] by (auto simp del: rpc_step.simps)
  next
    case (Finish k res)
    then show ?thesis using finish_inv [OF Cons.prems(1), of k res] by (auto simp del: rpc_step.simps)
  next
    case Complete
    then show ?thesis using complete_inv [OF Cons.prems(1)] by (auto simp del: rpc_step.simps)
  qed
  then obtain r s1 where s1: "rpc_step cc cs s x = Inr (r, s1)" "rpc_inv cc cs s1" "length (calls s1) \<le> Suc (length (calls s))" by blast
  then obtain outs s2 where "run_steps (rpc_step cc cs) s1 ops = Inr (outs, s2)" "rpc_inv cc cs s2"
    using Cons.IH [OF s1(2)] Cons.prems(2) by auto
  with s1 show ?case by (auto simp del: rpc_step.simps)
qed auto


section \<open>Properties\<close>

definition connected :: "(string \<Rightarrow> service option) \<Rightarrow> nat \<Rightarrow> nat \<Rightarrow> rpc_system" where
  "connected svcs cc cs = \<lparr>client = new_rpc_channel\<lparr>rc_conn := Some cc\<rparr>, server = new_rpc_channel\<lparr>rc_conn := Some cs, services := svcs\<rparr>,
     to_server = [], to_client = [], executing = [], calls = [], answers = [], completed = []\<rparr>"

lemma connected_inv: "rpc_inv cc cs (connected svcs cc cs)"
  by (simp add: rpc_inv_def connected_def new_rpc_channel_def pending_def call_ids_def)

text \<open>C20: Over every run of a client and a server while one connection stands, whatever services there are and in whatever order messages are
  handled and implementations finish, no check fails, and every call is at exactly one place: on its way to the server, executing, on its way back, or
  completed. The client awaits exactly the calls that are not completed, with the response object and the closure they were made with; an implementation is given the request
  of the call; each call is answered at most once. A call is completed once, by its own answer: the client parses the answer of this call into the response object of
  this call, runs the closure of this call if it has one, deletes the object, and does nothing else.\<close>

theorem rpc_calls_answered:
  assumes "length ops < 2 ^ 64"
  shows "\<exists>outs s. run_steps (rpc_step cc cs) (connected svcs cc cs) ops = Inr (outs, s)
    \<and> distinct (pending s @ map fst (completed s)) \<and> set (pending s @ map fst (completed s)) = set (call_ids (length (calls s)))
    \<and> (\<forall>i out. map_of (outstandings (client s)) i = Some out \<longleftrightarrow> i \<in> set (pending s) \<and> out = awaited (calls s) i)
    \<and> (\<forall>(i, call) \<in> set (executing s). call = request_of (calls s) i)
    \<and> distinct (map fst (answers s))
    \<and> (\<forall>(i, evs) \<in> set (completed s). \<exists>bs. (i, bs) \<in> set (answers s)
         \<and> evs = [Rpc_parse (resp (awaited (calls s) i)) bs]
             @ (case closure (awaited (calls s) i) of None \<Rightarrow> [] | Some d \<Rightarrow> [Rpc_run d])
             @ [Rpc_delete (resp (awaited (calls s) i))])"
proof -
  obtain outs s where r: "run_steps (rpc_step cc cs) (connected svcs cc cs) ops = Inr (outs, s)" "rpc_inv cc cs s"
    using rpc_run_inv [OF connected_inv [of cc cs svcs], of ops] assms by (auto simp: connected_def)
  have m: "mset (pending s @ map fst (completed s)) = mset (call_ids (length (calls s)))" and n: "length (calls s) < 2 ^ 64"
    and a: "mset (map fst (answers s)) = mset (map mid (to_client s) @ map fst (completed s))"
    using r(2) by (simp_all add: rpc_inv_def)
  have d: "distinct (pending s @ map fst (completed s))" using mset_eq_imp_distinct_iff [OF m] distinct_call_ids [OF n] by simp
  moreover have "set (pending s @ map fst (completed s)) = set (call_ids (length (calls s)))" by (rule mset_eq_setD [OF m])
  moreover have "distinct (map fst (answers s))"
    using mset_eq_imp_distinct_iff [OF a] d by (auto simp: pending_def)
  moreover have "map_of (outstandings (client s)) i = Some out \<longleftrightarrow> i \<in> set (pending s) \<and> out = awaited (calls s) i" for i out
    using r(2) by (auto simp: rpc_inv_def simp del: request_of.simps)
  ultimately show ?thesis
    using r unfolding completion_def [symmetric] by (intro exI [of _ outs] exI [of _ s]) (simp add: rpc_inv_def del: request_of.simps)
qed

text \<open>Two calls of a method that the server does not have; the second is completed after the first.\<close>

definition two_calls :: "rpc_op list" where
  "two_calls = [Call ''S'' ''m'' [7] 5 (Some 6), Call ''S'' ''n'' [8] 9 None, Serve, Serve, Complete, Complete]"

theorem rpc_calls_answered_witness:
  "\<exists>outs s. run_steps (rpc_step 1 2) (connected (\<lambda>_. None) 1 2) two_calls = Inr (outs, s)
    \<and> completed s = [(1, [Rpc_parse 5 [], Rpc_run 6, Rpc_delete 5]), (2, [Rpc_parse 9 [], Rpc_delete 9])]
    \<and> distinct (pending s @ map fst (completed s)) \<and> set (map fst (completed s)) = set (call_ids (length (calls s)))"
proof -
  have "length two_calls < 2 ^ 64" by (simp add: two_calls_def)
  from rpc_calls_answered [OF this, of 1 2 "\<lambda>_. None"] obtain outs s where r:
    "run_steps (rpc_step 1 2) (connected (\<lambda>_. None) 1 2) two_calls = Inr (outs, s)"
    "distinct (pending s @ map fst (completed s))" "set (pending s @ map fst (completed s)) = set (call_ids (length (calls s)))"
    by blast
  have "(case run_steps (rpc_step 1 2) (connected (\<lambda>_. None) 1 2) two_calls of Inl f \<Rightarrow> None | Inr (outs, s) \<Rightarrow> Some (pending s, completed s))
      = Some ([], [(1, [Rpc_parse 5 [], Rpc_run 6, Rpc_delete 5]), (2, [Rpc_parse 9 [], Rpc_delete 9])])"
    by (simp add: two_calls_def connected_def new_rpc_channel_def CallMethod_def rpc_recv_def rpc_dispatch_def rpc_request_def rpc_failed_def
        rpc_response_def new_message_def pending_def Let_def)
  with r show ?thesis by auto
qed

text \<open>When the connection has gone, a call of the client and the answer of an implementation that finishes later fail their check.\<close>

lemma rpc_after_detach_aborts:
  assumes "detach_connection ch = Inr ch'"
  shows "rpc_finish ch' res i = Inl Check_failed" "CallMethod ch' svc meth req r d = Inl Check_failed"
  using assms by (auto simp: detach_connection_def rpc_finish_def CallMethod_def)

text \<open>C39: The server has one channel for all its connections. A second connection takes the place of the first: the next message on the first fails
  the check in \<^verbatim>\<open>recv\<close>, and when both go away, in any order, the second to go fails the check in \<^verbatim>\<open>detach_connection\<close>. With loops of
  its own threads the very first connection fails the check of the thread.\<close>

theorem rpc_second_connection_aborts:
  assumes "c1 \<noteq> c2"
  shows "\<exists>ch1 ch2 ch3. rpc_new_connection True c1 ch = Inr ch1 \<and> rpc_new_connection True c2 ch1 = Inr ch2
    \<and> rpc_recv ch2 c1 ms = Inl Check_failed
    \<and> rpc_remove_connection True c ch2 = Inr ch3 \<and> rpc_remove_connection True c' ch3 = Inl Check_failed
    \<and> rpc_new_connection False c1 ch = Inl Check_failed"
  using assms
  by (simp add: rpc_new_connection_def rpc_remove_connection_def attach_connection_def detach_connection_def rpc_recv_def check_def)

theorem rpc_second_connection_aborts_witness:
  "\<exists>ch1 ch2. rpc_new_connection True 1 new_rpc_channel = Inr ch1 \<and> rpc_new_connection True 2 ch1 = Inr ch2
    \<and> rpc_recv ch2 1 [new_message] = Inl Check_failed"
  using rpc_second_connection_aborts [of 1 2 new_rpc_channel "[new_message]" 2 1] by auto

text \<open>The client does not look at the error of a response: a failed call completes like one with an empty response.\<close>

lemma error_response_unseen: "rpc_response ch (mesg\<lparr>merror := err\<rparr>) = rpc_response ch mesg"
  by (simp add: rpc_response_def cong: option.case_cong)

end
