(* ===== verification/Log_Stream.thy ===== *)
theory Log_Stream
  imports Byte_Buffer "HOL-Library.Signed_Division"
begin

text \<open>
  \<^verbatim>\<open>LogStream\<close> (include/LogStream.h, src/LogStream.cc): the text of a log message in a bounded \<^verbatim>\<open>ByteBuffer\<close>. Numbers are written backwards into an array
  of \<^verbatim>\<open>kMaxNumericSize + 1\<close> characters and reversed there; a write outside the array is a fault. The target is LP64: \<^verbatim>\<open>uintptr_t\<close> and
  \<^verbatim>\<open>unsigned long\<close> are one type. The text that \<^verbatim>\<open>snprintf\<close> makes of a \<^verbatim>\<open>double\<close> is part of the argument, and so is that of times, which go through a string.
\<close>

section \<open>Numbers\<close>

definition kMaxBufferSize :: int where
  "kMaxBufferSize = 4096"

definition kMaxNumericSize :: nat where
  "kMaxNumericSize = 32"

definition kDigitMaps :: "byte list" where
  "kDigitMaps = [57, 56, 55, 54, 53, 52, 51, 50, 49, 48, 49, 50, 51, 52, 53, 54, 55, 56, 57]"

definition kDigitHexMaps :: "byte list" where
  "kDigitHexMaps = [48, 49, 50, 51, 52, 53, 54, 55, 56, 57, 65, 66, 67, 68, 69, 70]"

text \<open>The loop of \<^verbatim>\<open>convert\<close>; \<open>p\<close> is the next character of the array \<open>buf\<close>.\<close>

function convert_loop :: "int \<Rightarrow> nat \<Rightarrow> byte list \<Rightarrow> (nat \<times> byte list) res" where
  "convert_loop i p buf =
     (let lsd = i smod 10; i1 = i sdiv 10 in
      bindR (read_mem (nat (9 + lsd)) 1 kDigitMaps) (\<lambda>c.
      bindR (write_mem p c buf) (\<lambda>buf1.
      if i1 \<noteq> 0 then convert_loop i1 (p + 1) buf1 else Inr (p + 1, buf1))))"
  by pat_completeness auto
termination
proof (relation "measure (\<lambda>(i, p, buf). nat (abs i))")
  fix i i1 :: int
  assume "i1 = i sdiv 10" "i1 \<noteq> 0"
  then have "abs i1 = abs i div 10" "abs i div 10 \<noteq> 0" by (auto simp: signed_divide_int_def sgn_if split: if_splits)
  moreover from this have "abs i div 10 < abs i" by (intro int_div_less_self) auto
  ultimately show "((i1, p1, buf1), i, p, buf) \<in> measure (\<lambda>(i, p, buf). nat (abs i))" for p1 p :: nat and buf1 buf :: "byte list" by simp
qed simp

declare convert_loop.simps [simp del]

definition reverse_range :: "nat \<Rightarrow> nat \<Rightarrow> byte list \<Rightarrow> byte list" where
  "reverse_range from to buf = take from buf @ rev (take (to - from) (drop from buf)) @ drop to buf"

definition convert :: "byte list \<Rightarrow> int \<Rightarrow> (nat \<times> byte list) res" where
  "convert buf v =
     bindR (convert_loop v 0 buf) (\<lambda>(p, buf1).
     bindR (if v < 0 then bindR (write_mem p [45] buf1) (\<lambda>b. Inr (p + 1, b)) else Inr (p, buf1)) (\<lambda>(p1, buf2).
     bindR (write_mem p1 [0] buf2) (\<lambda>buf3.
     Inr (p1, reverse_range 0 p1 buf3))))"

function convert_hex_loop :: "nat \<Rightarrow> nat \<Rightarrow> byte list \<Rightarrow> (nat \<times> byte list) res" where
  "convert_hex_loop i p buf =
     bindR (read_mem (i mod 16) 1 kDigitHexMaps) (\<lambda>c.
     bindR (write_mem p c buf) (\<lambda>buf1.
     if i div 16 \<noteq> 0 then convert_hex_loop (i div 16) (p + 1) buf1 else Inr (p + 1, buf1)))"
  by pat_completeness auto
termination
  by (relation "measure (\<lambda>(i, p, buf). i)") auto

declare convert_hex_loop.simps [simp del]

text \<open>\<^verbatim>\<open>convert<uintptr_t>\<close> at the position \<open>off\<close> of the array.\<close>

definition convert_hex :: "nat \<Rightarrow> byte list \<Rightarrow> nat \<Rightarrow> (nat \<times> byte list) res" where
  "convert_hex off buf v =
     bindR (convert_hex_loop v off buf) (\<lambda>(p, buf1).
     bindR (write_mem p [0] buf1) (\<lambda>buf2.
     Inr (p - off, reverse_range off p buf2)))"

section \<open>The stream\<close>

definition new_log_stream :: "int \<Rightarrow> byte_buffer res" where
  "new_log_stream msize = new_buffer msize kInitialSize"

definition log_append :: "byte_buffer \<Rightarrow> byte list \<Rightarrow> byte_buffer res" where
  "log_append ls data = bindR (buf_append ls data) (\<lambda>(ok, ls1). Inr ls1)"

definition format_number :: "byte_buffer \<Rightarrow> int \<Rightarrow> byte_buffer res" where
  "format_number ls v =
     bindR (convert (replicate (kMaxNumericSize + 1) 0) v) (\<lambda>(len, buf).
     bindR (read_mem 0 len buf) (log_append ls))"

definition format_pointer :: "byte_buffer \<Rightarrow> nat \<Rightarrow> byte_buffer res" where
  "format_pointer ls v =
     bindR (convert_hex 2 ([48, 120] @ replicate (kMaxNumericSize + 1) 0) v) (\<lambda>(len, buf).
     bindR (read_mem 0 (len + 2) buf) (log_append ls))"

definition format_double :: "byte_buffer \<Rightarrow> byte list \<Rightarrow> byte_buffer res" where
  "format_double ls text =
     bindR (read_mem 0 (length text) (take kMaxNumericSize text @ [0])) (log_append ls)"

datatype log_arg =
    Log_pointer nat
  | Log_double "byte list"
  | Log_short int
  | Log_ushort int
  | Log_int int
  | Log_uint int
  | Log_long int
  | Log_ulong nat
  | Log_llong int
  | Log_ullong int
  | Log_char byte
  | Log_cstr "byte list option"
  | Log_bool bool
  | Log_string "byte list"
  | Log_endl

fun log_put :: "byte_buffer \<Rightarrow> log_arg \<Rightarrow> byte_buffer res" where
  "log_put ls (Log_pointer p) = format_pointer ls p"
| "log_put ls (Log_double text) = format_double ls text"
| "log_put ls (Log_short v) = format_number ls v"
| "log_put ls (Log_ushort v) = format_number ls v"
| "log_put ls (Log_int v) = format_number ls v"
| "log_put ls (Log_uint v) = format_number ls v"
| "log_put ls (Log_long v) = format_number ls v"
| "log_put ls (Log_ulong v) = format_pointer ls v"
| "log_put ls (Log_llong v) = format_number ls v"
| "log_put ls (Log_ullong v) = format_number ls v"
| "log_put ls (Log_char c) = log_append ls [c]"
| "log_put ls (Log_cstr (Some s)) = log_append ls (takeWhile (\<lambda>c. c \<noteq> 0) s)"
| "log_put ls (Log_cstr None) = log_append ls [40, 42, 110, 117, 108, 108, 42, 41, 0]"
| "log_put ls (Log_bool v) = log_append ls (if v then [49] else [48])"
| "log_put ls (Log_string s) = log_append ls s"
| "log_put ls Log_endl = log_append ls [10]"

fun log_puts :: "byte_buffer \<Rightarrow> log_arg list \<Rightarrow> byte_buffer res" where
  "log_puts ls [] = Inr ls"
| "log_puts ls (a # as) = bindR (log_put ls a) (\<lambda>ls1. log_puts ls1 as)"

definition log_reset :: "byte_buffer \<Rightarrow> byte_buffer" where
  "log_reset ls = reset ls"


section \<open>Numerals\<close>

text \<open>The numeral of a number in the base \<open>b\<close>, the most significant digit first.\<close>

fun numeral_in :: "nat \<Rightarrow> nat \<Rightarrow> nat list" where
  "numeral_in b n = (if n < b \<or> b \<le> 1 then [n] else numeral_in b (n div b) @ [n mod b])"

declare numeral_in.simps [simp del]

definition decimal :: "nat \<Rightarrow> byte list" where
  "decimal n = map (\<lambda>d. 48 + of_nat d) (numeral_in 10 n)"

definition hexadecimal :: "nat \<Rightarrow> byte list" where
  "hexadecimal n = map (\<lambda>d. kDigitHexMaps ! d) (numeral_in 16 n)"

definition signed_decimal :: "int \<Rightarrow> byte list" where
  "signed_decimal v = (if v < 0 then 45 # decimal (nat (- v)) else decimal (nat v))"

definition value_in :: "nat \<Rightarrow> nat list \<Rightarrow> nat" where
  "value_in b ds = foldl (\<lambda>a d. b * a + d) 0 ds"

lemma value_of_numeral: "1 < b \<Longrightarrow> value_in b (numeral_in b n) = n"
proof (induction b n rule: numeral_in.induct)
  case (1 b n)
  show ?case
  proof (cases "n < b")
    case True
    then show ?thesis by (subst numeral_in.simps) (simp add: value_in_def)
  next
    case False
    then show ?thesis using 1 by (subst numeral_in.simps) (simp add: value_in_def)
  qed
qed

lemma numeral_digits: "1 < b \<Longrightarrow> d \<in> set (numeral_in b n) \<Longrightarrow> d < b"
proof (induction b n rule: numeral_in.induct)
  case (1 b n)
  then show ?case by (cases "n < b") (subst (asm) (2) numeral_in.simps, auto)+
qed

lemma length_numeral: "1 < b \<Longrightarrow> n < b ^ k \<Longrightarrow> 0 < k \<Longrightarrow> length (numeral_in b n) \<le> k"
proof (induction b n arbitrary: k rule: numeral_in.induct)
  case (1 b n)
  show ?case
  proof (cases "n < b")
    case True
    then show ?thesis using 1(4) by (subst numeral_in.simps) simp
  next
    case False
    then have "k \<noteq> 1" using 1(3) by auto
    then obtain j where k: "k = Suc j" "0 < j" using 1(4) by (cases k) auto
    then have "n div b < b ^ j" using 1(2,3) by (simp add: div_less_iff_less_mult mult.commute)
    then have "length (numeral_in b (n div b)) \<le> j" using 1(1) [of j] False 1(2) k(2) by simp
    then show ?thesis using False 1(2) k by (subst numeral_in.simps) simp
  qed
qed

section \<open>Conversion\<close>

lemma digit_maps: "d < 10 \<Longrightarrow> kDigitMaps ! (9 + d) = 48 + of_nat d" "d < 10 \<Longrightarrow> kDigitMaps ! (9 - d) = 48 + of_nat d"
proof -
  have "\<forall>d \<in> set [0..<10]. kDigitMaps ! (9 + d) = 48 + of_nat d \<and> kDigitMaps ! (9 - d) = 48 + of_nat d" by code_simp
  then show "d < 10 \<Longrightarrow> kDigitMaps ! (9 + d) = 48 + of_nat d" "d < 10 \<Longrightarrow> kDigitMaps ! (9 - d) = 48 + of_nat d" by auto
qed

lemma read_one: "k < length xs \<Longrightarrow> read_mem k 1 xs = Inr [xs ! k]"
  by (simp add: bytes_at_def Cons_nth_drop_Suc [symmetric])

lemma signed_parts: "i sdiv 10 = sgn i * (abs i div 10)" "i smod 10 = sgn i * (abs i mod 10)" for i :: int
  by (simp_all add: signed_divide_int_def signed_modulo_int_def minus_mult_div_eq_mod [symmetric] algebra_simps sgn_if)

lemma digit_read: "read_mem (nat (9 + i smod 10)) 1 kDigitMaps = Inr [48 + of_nat (nat (abs i) mod 10)]"
proof -
  define d where "d = nat (abs i) mod 10"
  have "int d = abs i mod 10" by (simp add: d_def nat_mod_as_int)
  then have "i smod 10 = (if i < 0 then - int d else int d)" by (auto simp: signed_parts sgn_if)
  moreover have "d < 10" by (simp add: d_def)
  ultimately have "nat (9 + i smod 10) = (if i < 0 then 9 - d else 9 + d)" "d < 10" by auto
  moreover have "nat (9 + i smod 10) < length kDigitMaps" using calculation by (auto simp: kDigitMaps_def)
  then have "read_mem (nat (9 + i smod 10)) 1 kDigitMaps = Inr [kDigitMaps ! nat (9 + i smod 10)]" by (rule read_one)
  ultimately show ?thesis using digit_maps [of d] by (simp del: One_nat_def read_mem_ok flip: d_def)
qed


lemma overwrite_next: "p + length xs + 1 \<le> length buf \<Longrightarrow> overwrite (p + 1) xs (overwrite p [c] buf) = overwrite p (c # xs) buf"
  by (rule nth_equalityI) (auto simp: overwrite_def nth_append nth_Cons min_def split: nat.split)

lemma convert_loop_result:
  "p + length (decimal (nat (abs i))) \<le> length buf \<Longrightarrow>
     convert_loop i p buf = Inr (p + length (decimal (nat (abs i))), overwrite p (rev (decimal (nat (abs i)))) buf)"
proof (induction "nat (abs i)" arbitrary: i p buf rule: less_induct)
  case less
  define n where "n = nat (abs i)"
  have n1: "nat (abs (i sdiv 10)) = n div 10" by (auto simp: signed_parts n_def abs_mult nat_div_distrib sgn_if)
  have z: "i sdiv 10 \<noteq> 0 \<longleftrightarrow> 10 \<le> n" using n1 by (auto simp: n_def div_greater_zero_iff)
  let ?c = "48 + of_nat (n mod 10) :: byte"
  have rd: "read_mem (nat (9 + i smod 10)) 1 kDigitMaps = Inr [?c]" using digit_read [of i] by (simp add: n_def)
  have dec: "decimal n = (if 10 \<le> n then decimal (n div 10) else []) @ [?c]" by (simp add: decimal_def numeral_in.simps [of 10 n])
  have wr: "write_mem p [?c] buf = Inr (overwrite p [?c] buf)" using less.prems dec by (simp flip: n_def)
  show ?case
  proof (cases "10 \<le> n")
    case True
    have lenb: "p + 1 + length (decimal (n div 10)) \<le> length buf" using less.prems dec True by (simp flip: n_def)
    then have len: "p + 1 + length (decimal (n div 10)) \<le> length (overwrite p [?c] buf)" by simp
    have "convert_loop (i sdiv 10) (p + 1) (overwrite p [?c] buf)
        = Inr (p + 1 + length (decimal (n div 10)), overwrite (p + 1) (rev (decimal (n div 10))) (overwrite p [?c] buf))"
      using less.hyps [of "i sdiv 10" "p + 1" "overwrite p [?c] buf"] True len by (simp add: n1 flip: n_def)
    moreover have "overwrite (p + 1) (rev (decimal (n div 10))) (overwrite p [?c] buf) = overwrite p (rev (decimal n)) buf"
      using lenb dec True by (subst overwrite_next) auto
    ultimately show ?thesis using z True rd wr dec by (subst convert_loop.simps) (simp flip: n_def)
  next
    case False
    then show ?thesis using z rd wr dec by (subst convert_loop.simps) (simp flip: n_def)
  qed
qed


lemma reverse_overwrite:
  assumes "from + length xs < length buf"
  shows "take (from + length xs) (reverse_range from (from + length xs) (overwrite (from + length xs) [c] (overwrite from (rev xs) buf))) = take from buf @ xs"
  using assms by (simp add: reverse_range_def overwrite_def min_def)

lemma overwrite_append: "p + length xs + length ys \<le> length buf \<Longrightarrow> overwrite (p + length xs) ys (overwrite p xs buf) = overwrite p (xs @ ys) buf"
  by (rule nth_equalityI) (auto simp: overwrite_def nth_append min_def)

lemma convert_result:
  assumes "length (signed_decimal v) < length buf"
  shows "\<exists>buf1. convert buf v = Inr (length (signed_decimal v), buf1) \<and> length (signed_decimal v) \<le> length buf1
    \<and> take (length (signed_decimal v)) buf1 = signed_decimal v"
proof -
  define xs where "xs = signed_decimal v"
  define ds where "ds = decimal (nat (abs v))"
  have xs: "xs = (if v < 0 then [45] else []) @ ds" by (auto simp: xs_def ds_def signed_decimal_def)
  have loop: "convert_loop v 0 buf = Inr (length ds, overwrite 0 (rev ds) buf)"
    using convert_loop_result [of 0 v buf] assms by (simp add: xs xs_def [symmetric] ds_def [symmetric] split: if_splits)
  have "bindR (convert_loop v 0 buf) (\<lambda>(p, buf1). if v < 0 then bindR (write_mem p [45] buf1) (\<lambda>b. Inr (p + 1, b)) else Inr (p, buf1))
      = Inr (length xs, overwrite 0 (rev xs) buf)"
    using assms overwrite_append [of 0 "rev ds" "[45]" buf] by (simp add: loop xs xs_def [symmetric] split: if_splits)
  then have "convert buf v = Inr (length xs, reverse_range 0 (length xs) (overwrite (length xs) [0] (overwrite 0 (rev xs) buf)))"
    using assms by (simp add: convert_def loop xs_def [symmetric] split: if_splits)
  moreover have "take (length xs) (reverse_range 0 (length xs) (overwrite (length xs) [0] (overwrite 0 (rev xs) buf))) = xs"
    using reverse_overwrite [of 0 xs buf 0] assms by (simp add: xs_def)
  moreover have "length xs \<le> length (reverse_range 0 (length xs) (overwrite (length xs) [0] (overwrite 0 (rev xs) buf)))"
    using assms by (simp add: reverse_range_def xs_def)
  ultimately show ?thesis unfolding xs_def [symmetric] by blast
qed


lemma convert_hex_loop_result:
  "p + length (hexadecimal n) \<le> length buf \<Longrightarrow>
     convert_hex_loop n p buf = Inr (p + length (hexadecimal n), overwrite p (rev (hexadecimal n)) buf)"
proof (induction n arbitrary: p buf rule: less_induct)
  case (less n)
  let ?c = "kDigitHexMaps ! (n mod 16)"
  have rd: "read_mem (n mod 16) 1 kDigitHexMaps = Inr [?c]" by (rule read_one) (simp add: kDigitHexMaps_def)
  have hex: "hexadecimal n = (if 16 \<le> n then hexadecimal (n div 16) else []) @ [?c]" by (simp add: hexadecimal_def numeral_in.simps [of 16 n])
  have wr: "write_mem p [?c] buf = Inr (overwrite p [?c] buf)" using less.prems hex by simp
  show ?case
  proof (cases "16 \<le> n")
    case True
    have lenb: "p + 1 + length (hexadecimal (n div 16)) \<le> length buf" using less.prems hex True by simp
    then have "convert_hex_loop (n div 16) (p + 1) (overwrite p [?c] buf)
        = Inr (p + 1 + length (hexadecimal (n div 16)), overwrite (p + 1) (rev (hexadecimal (n div 16))) (overwrite p [?c] buf))"
      using less.IH [of "n div 16" "p + 1" "overwrite p [?c] buf"] True by simp
    moreover have "overwrite (p + 1) (rev (hexadecimal (n div 16))) (overwrite p [?c] buf) = overwrite p (rev (hexadecimal n)) buf"
      using lenb hex True by (subst overwrite_next) auto
    ultimately show ?thesis using True rd wr hex by (subst convert_hex_loop.simps) (simp add: div_greater_zero_iff)
  next
    case False
    then show ?thesis using rd wr hex by (subst convert_hex_loop.simps) simp
  qed
qed

lemma convert_hex_result:
  assumes "off + length (hexadecimal v) < length buf"
  shows "\<exists>buf1. convert_hex off buf v = Inr (length (hexadecimal v), buf1) \<and> off + length (hexadecimal v) \<le> length buf1
    \<and> take (off + length (hexadecimal v)) buf1 = take off buf @ hexadecimal v"
proof -
  let ?xs = "hexadecimal v"
  have "convert_hex off buf v
      = Inr (length ?xs, reverse_range off (off + length ?xs) (overwrite (off + length ?xs) [0] (overwrite off (rev ?xs) buf)))"
    using convert_hex_loop_result [of off v buf] assms by (simp add: convert_hex_def)
  moreover have "off + length ?xs \<le> length (reverse_range off (off + length ?xs) (overwrite (off + length ?xs) [0] (overwrite off (rev ?xs) buf)))"
    using assms by (simp add: reverse_range_def)
  ultimately show ?thesis using reverse_overwrite [OF assms] by blast
qed

lemma decimal_short: "n < 10 ^ 20 \<Longrightarrow> length (decimal n) \<le> 20"
  using length_numeral [of 10 n 20] by (simp add: decimal_def)

lemma hexadecimal_short: "n < 2 ^ 64 \<Longrightarrow> length (hexadecimal n) \<le> 16"
  using length_numeral [of 16 n 16] by (simp add: hexadecimal_def)

section \<open>What is written\<close>

fun log_arg_ok :: "log_arg \<Rightarrow> bool" where
  "log_arg_ok (Log_pointer p) = (p < 2 ^ 64)"
| "log_arg_ok (Log_double text) = (length text \<le> kMaxNumericSize)"
| "log_arg_ok (Log_short v) = (- (2 ^ 15) \<le> v \<and> v < 2 ^ 15)"
| "log_arg_ok (Log_ushort v) = (0 \<le> v \<and> v < 2 ^ 16)"
| "log_arg_ok (Log_int v) = (- (2 ^ 31) \<le> v \<and> v < 2 ^ 31)"
| "log_arg_ok (Log_uint v) = (0 \<le> v \<and> v < 2 ^ 32)"
| "log_arg_ok (Log_long v) = (- (2 ^ 63) \<le> v \<and> v < 2 ^ 63)"
| "log_arg_ok (Log_ulong v) = (v < 2 ^ 64)"
| "log_arg_ok (Log_llong v) = (- (2 ^ 63) \<le> v \<and> v < 2 ^ 63)"
| "log_arg_ok (Log_ullong v) = (0 \<le> v \<and> v < 2 ^ 64)"
| "log_arg_ok _ = True"

fun log_text :: "log_arg \<Rightarrow> byte list" where
  "log_text (Log_pointer p) = [48, 120] @ hexadecimal p"
| "log_text (Log_double text) = text"
| "log_text (Log_short v) = signed_decimal v"
| "log_text (Log_ushort v) = signed_decimal v"
| "log_text (Log_int v) = signed_decimal v"
| "log_text (Log_uint v) = signed_decimal v"
| "log_text (Log_long v) = signed_decimal v"
| "log_text (Log_ulong v) = [48, 120] @ hexadecimal v"
| "log_text (Log_llong v) = signed_decimal v"
| "log_text (Log_ullong v) = signed_decimal v"
| "log_text (Log_char c) = [c]"
| "log_text (Log_cstr (Some s)) = takeWhile (\<lambda>c. c \<noteq> 0) s"
| "log_text (Log_cstr None) = [40, 42, 110, 117, 108, 108, 42, 41, 0]"
| "log_text (Log_bool v) = (if v then [49] else [48])"
| "log_text (Log_string s) = s"
| "log_text Log_endl = [10]"

lemma format_number_text:
  assumes "- (2 ^ 63) \<le> v" "v < 2 ^ 64"
  shows "format_number ls v = log_append ls (signed_decimal v)"
proof -
  have "v < 10 ^ 20" "- v < 10 ^ 20" using assms by simp_all
  then have "nat v < 10 ^ 20" "nat (- v) < 10 ^ 20" using nat_mono_iff [of "10 ^ 20" v] nat_mono_iff [of "10 ^ 20" "- v"] by simp_all
  then have "length (signed_decimal v) \<le> 21"
    using decimal_short [of "nat v"] decimal_short [of "nat (- v)"] by (simp add: signed_decimal_def)
  then have "length (signed_decimal v) < length (replicate (kMaxNumericSize + 1) (0 :: byte))" by (simp add: kMaxNumericSize_def)
  from convert_result [OF this] show ?thesis by (auto simp: format_number_def bytes_at_def)
qed

lemma format_pointer_text:
  assumes "v < 2 ^ 64"
  shows "format_pointer ls v = log_append ls ([48, 120] @ hexadecimal v)"
proof -
  have "2 + length (hexadecimal v) < length ([48, 120] @ replicate (kMaxNumericSize + 1) (0 :: byte))"
    using hexadecimal_short [OF assms] by (simp add: kMaxNumericSize_def)
  from convert_hex_result [OF this] show ?thesis by (auto simp: format_pointer_def bytes_at_def add.commute)
qed

lemma log_put_text: "log_arg_ok a \<Longrightarrow> log_put ls a = log_append ls (log_text a)"
proof (cases "(ls, a)" rule: log_put.cases)
qed (simp_all add: format_number_text format_pointer_text format_double_def bytes_at_def)


text \<open>The texts that fit into the limit, each whole or not at all.\<close>

fun fitted :: "nat \<Rightarrow> byte list \<Rightarrow> log_arg list \<Rightarrow> byte list" where
  "fitted lim acc [] = acc"
| "fitted lim acc (a # as) = fitted lim (if length acc + length (log_text a) \<le> lim then acc @ log_text a else acc) as"

lemma fitted_length: "length acc \<le> lim \<Longrightarrow> length (fitted lim acc as) \<le> lim"
  by (induction as arbitrary: acc) simp_all

definition stream_inv :: "byte_buffer \<Rightarrow> bool" where
  "stream_inv ls \<longleftrightarrow> bb_inv ls \<and> max_size ls \<noteq> kUnLimitSize \<and> writer_index ls = length (contents ls)"

lemma log_append_result:
  assumes "stream_inv ls"
  shows "\<exists>ls1. log_append ls xs = Inr ls1 \<and> stream_inv ls1 \<and> write_limit ls1 = write_limit ls
    \<and> contents ls1 = (if length (contents ls) + length xs \<le> write_limit ls then contents ls @ xs else contents ls)"
proof (cases "length (contents ls) + length xs \<le> write_limit ls")
  case True
  with assms obtain ls1 where r: "buf_append ls xs = Inr (True, ls1)" "bb_inv ls1" "contents ls1 = contents ls @ xs"
      "writer_index ls1 \<le> writer_index ls + length xs" "write_limit ls1 = write_limit ls"
    using buf_append_room [of ls xs] by (auto simp: stream_inv_def)
  have "length (contents ls1) \<le> writer_index ls1" using length_contents [OF r(2)] by simp
  then have "writer_index ls1 = length (contents ls1)" using r(3,4) assms by (simp add: stream_inv_def)
  moreover have "max_size ls1 = max_size ls" using max_size_frame(5) r(1) by blast
  ultimately show ?thesis using r assms True by (simp add: log_append_def stream_inv_def)
next
  case False
  then show ?thesis using assms buf_append_full [of ls xs] by (simp add: log_append_def stream_inv_def)
qed

lemma log_puts_result:
  "stream_inv ls \<Longrightarrow> list_all log_arg_ok as \<Longrightarrow>
     \<exists>ls1. log_puts ls as = Inr ls1 \<and> stream_inv ls1 \<and> contents ls1 = fitted (write_limit ls) (contents ls) as"
proof (induction as arbitrary: ls)
  case (Cons a as)
  obtain ls1 where ls1: "log_append ls (log_text a) = Inr ls1" "stream_inv ls1" "write_limit ls1 = write_limit ls"
      "contents ls1 = (if length (contents ls) + length (log_text a) \<le> write_limit ls then contents ls @ log_text a else contents ls)"
    using log_append_result [OF Cons.prems(1)] by blast
  with Cons.IH [OF ls1(2)] Cons.prems(2) show ?case by (simp add: log_put_text)
qed simp

lemma new_log_stream_inv:
  assumes "0 < lim" "lim \<le> int vec_max"
  shows "\<exists>ls. new_log_stream lim = Inr ls \<and> stream_inv ls \<and> contents ls = [] \<and> write_limit ls = nat lim"
  using assms
  by (auto simp: new_log_stream_def new_buffer_def stream_inv_def bb_defs to_size_nonneg vec_max_def Let_def)

text \<open>Reading a number as \<^verbatim>\<open>strtol\<close> does: hexadecimal digits after \<^verbatim>\<open>0x\<close>, decimal ones otherwise, with an optional sign.\<close>

definition digit_of :: "byte \<Rightarrow> nat" where
  "digit_of c = (if c \<le> 57 then unat (c - 48) else unat (c - 55))"

definition read_number :: "byte list \<Rightarrow> int" where
  "read_number xs =
     (if take 2 xs = [48, 120] then int (value_in 16 (map digit_of (drop 2 xs)))
      else if take 1 xs = [45] then - int (value_in 10 (map digit_of (drop 1 xs)))
      else int (value_in 10 (map digit_of xs)))"

fun log_number :: "log_arg \<Rightarrow> int option" where
  "log_number (Log_pointer p) = Some (int p)"
| "log_number (Log_short v) = Some v"
| "log_number (Log_ushort v) = Some v"
| "log_number (Log_int v) = Some v"
| "log_number (Log_uint v) = Some v"
| "log_number (Log_long v) = Some v"
| "log_number (Log_ulong v) = Some (int v)"
| "log_number (Log_llong v) = Some v"
| "log_number (Log_ullong v) = Some v"
| "log_number _ = None"

fun log_hex :: "log_arg \<Rightarrow> bool" where
  "log_hex (Log_pointer p) = True"
| "log_hex (Log_ulong v) = True"
| "log_hex _ = False"

lemma decimal_digit:
  assumes "d < 10"
  shows "digit_of (48 + of_nat d) = d" "(48 + of_nat d :: byte) \<noteq> 45" "(48 + of_nat d :: byte) \<noteq> 120"
proof -
  have "\<forall>d \<in> set [0..<10]. digit_of (48 + of_nat d) = d \<and> (48 + of_nat d :: byte) \<noteq> 45 \<and> (48 + of_nat d :: byte) \<noteq> 120" by code_simp
  with assms show "digit_of (48 + of_nat d) = d" "(48 + of_nat d :: byte) \<noteq> 45" "(48 + of_nat d :: byte) \<noteq> 120" by simp_all
qed

lemma hex_digit: "d < 16 \<Longrightarrow> digit_of (kDigitHexMaps ! d) = d"
proof -
  have "\<forall>d \<in> set [0..<16]. digit_of (kDigitHexMaps ! d) = d" by code_simp
  then show "d < 16 \<Longrightarrow> digit_of (kDigitHexMaps ! d) = d" by simp
qed

lemma decimal_value: "value_in 10 (map digit_of (decimal n)) = n"
proof -
  have "map digit_of (decimal n) = numeral_in 10 n"
    unfolding decimal_def map_map by (rule map_idI) (simp add: decimal_digit numeral_digits [of 10])
  then show ?thesis by (simp add: value_of_numeral)
qed

lemma hexadecimal_value: "value_in 16 (map digit_of (hexadecimal n)) = n"
proof -
  have "map digit_of (hexadecimal n) = numeral_in 16 n"
    unfolding hexadecimal_def map_map by (rule map_idI) (simp add: hex_digit numeral_digits [of 16])
  then show ?thesis by (simp add: value_of_numeral)
qed

lemma decimal_marks: "45 \<notin> set (decimal n)" "120 \<notin> set (decimal n)"
proof -
  have "c \<noteq> 45 \<and> c \<noteq> 120" if "c \<in> set (decimal n)" for c
    using that decimal_digit(2,3) numeral_digits [of 10 _ n] by (auto simp: decimal_def)
  then show "45 \<notin> set (decimal n)" "120 \<notin> set (decimal n)" by blast+
qed

lemma signed_decimal_read: "read_number (signed_decimal v) = v" "take 2 (signed_decimal v) \<noteq> [48, 120]"
proof -
  have no: "take 2 (decimal n) \<noteq> [48, 120]" "take 1 (decimal n) \<noteq> [45]" for n
    using decimal_marks [of n] by (metis in_set_takeD list.set_intros)+
  then show "take 2 (signed_decimal v) \<noteq> [48, 120]" by (simp add: signed_decimal_def)
  show "read_number (signed_decimal v) = v"
    using no [of "nat v"] by (simp add: read_number_def signed_decimal_def decimal_value)
qed

lemma log_text_read: "log_number a = Some v \<Longrightarrow> read_number (log_text a) = v \<and> (take 2 (log_text a) = [48, 120] \<longleftrightarrow> log_hex a)"
  using signed_decimal_read [of v] by (cases a) (auto simp: read_number_def hexadecimal_value)

section \<open>Properties\<close>

text \<open>C31: Whatever sequence of arguments is written to a log stream with a positive limit, nothing is written outside the array of a number or the buffer, the stream
  holds the texts that fit, in order and each whole, and never more than the limit. The text of an integer or pointer of every width, the least ones included, read again is
  the number; it is hexadecimal with \<^verbatim>\<open>0x\<close> for pointers and for \<^verbatim>\<open>unsigned long\<close>, and a decimal numeral with its sign for all others.\<close>

theorem log_stream_text:
  assumes "0 < lim" "lim \<le> int vec_max" "list_all log_arg_ok as"
  shows "\<exists>ls ls1. new_log_stream lim = Inr ls \<and> log_puts ls as = Inr ls1
    \<and> contents ls1 = fitted (nat lim) [] as \<and> length (contents ls1) \<le> nat lim
    \<and> (\<forall>a \<in> set as. \<forall>v. log_number a = Some v \<longrightarrow>
         read_number (log_text a) = v \<and> (take 2 (log_text a) = [48, 120] \<longleftrightarrow> log_hex a))"
proof -
  obtain ls where ls: "new_log_stream lim = Inr ls" "stream_inv ls" "contents ls = []" "write_limit ls = nat lim"
    using new_log_stream_inv [OF assms(1,2)] by blast
  obtain ls1 where "log_puts ls as = Inr ls1" "contents ls1 = fitted (nat lim) [] as"
    using log_puts_result [OF ls(2) assms(3)] ls(3,4) by auto
  then show ?thesis using ls(1) fitted_length [of "[]" "nat lim" as] log_text_read by fastforce
qed

theorem log_stream_text_witness:
  "\<exists>ls ls1. new_log_stream 12 = Inr ls \<and> log_puts ls [Log_int (- 2147483648), Log_bool True, Log_char 65] = Inr ls1
    \<and> contents ls1 = [45, 50, 49, 52, 55, 52, 56, 51, 54, 52, 56, 49] \<and> read_number (log_text (Log_int (- 2147483648))) = - 2147483648"
proof -
  let ?as = "[Log_int (- 2147483648), Log_bool True, Log_char 65]"
  have ok: "list_all log_arg_ok ?as" by simp
  have "signed_decimal (- 2147483648) = [45, 50, 49, 52, 55, 52, 56, 51, 54, 52, 56]"
    by (simp add: signed_decimal_def decimal_def numeral_in.simps)
  then have f: "fitted (nat 12) [] ?as = [45, 50, 49, 52, 55, 52, 56, 51, 54, 52, 56, 49]" by simp
  have lim: "(0 :: int) < 12" "(12 :: int) \<le> int vec_max" by (simp_all add: vec_max_def)
  from log_stream_text [OF lim ok] obtain ls ls1 where "new_log_stream 12 = Inr ls" "log_puts ls ?as = Inr ls1"
    "contents ls1 = fitted (nat 12) [] ?as"
    "\<forall>a \<in> set ?as. \<forall>v. log_number a = Some v \<longrightarrow> read_number (log_text a) = v \<and> (take 2 (log_text a) = [48, 120] \<longleftrightarrow> log_hex a)"
    by blast
  with f show ?thesis by (auto simp del: log_text.simps)
qed

end
