(* ===== verification/Spec2Isabelle.thy ===== *)
theory Spec2Isabelle
  imports Net_Buffer Length_Header_Codec String_Eof_Codec Channel_Poller Event_Loop Time_Stamp Timer_Rounds Tcp_Server Tcp_Client Blocking_Queue Thread_Pool String_Split File_Path Protorpc Log_Stream
begin

text \<open>
  A verification development for annety, a multi-threaded reactor network library in C++11.

  \<^bold>\<open>The program.\<close> Each \<^verbatim>\<open>EventLoop\<close> belongs to one thread and waits in a \<^verbatim>\<open>Poller\<close> for events on the descriptors of its \<^verbatim>\<open>Channel\<close>s; other
  threads hand it work through a queue of tasks and a wakeup descriptor, and its \<^verbatim>\<open>TimerPool\<close> runs timers over one timer descriptor.
  A \<^verbatim>\<open>TcpServer\<close> accepts connections with its \<^verbatim>\<open>Acceptor\<close> and spreads them over an \<^verbatim>\<open>EventLoopPool\<close>; a \<^verbatim>\<open>TcpClient\<close> opens one with its
  \<^verbatim>\<open>Connector\<close>. A \<^verbatim>\<open>TcpConnection\<close> moves bytes between the socket and two \<^verbatim>\<open>NetBuffer\<close>s, and a \<^verbatim>\<open>Codec\<close> cuts the input into messages.
  Beside the reactor stand a \<^verbatim>\<open>ThreadPool\<close>, blocking queues, strings, paths and times.

  \<^bold>\<open>Conventions\<close> (\<open>Annety_Prelude\<close>). Sources are named relative to src/. A class is a record, an operation a function from the
  old to the new record. What can abort or run into undefined behaviour returns \<open>fault + 'a\<close>: a failed \<^verbatim>\<open>CHECK\<close>, \<^verbatim>\<open>DCHECK\<close> or \<^verbatim>\<open>assert\<close>,
  an access outside a vector or to a deleted object, \<^verbatim>\<open>length_error\<close>, signed overflow, a system call whose failure the code does not survive. Where the
  code differs between builds with and without \<^verbatim>\<open>DCHECK\<close> the flag \<open>dc\<close> is a parameter, as are byte order (\<open>little\<close>) and the sign of
  \<^verbatim>\<open>char\<close>. \<^verbatim>\<open>size_t\<close> arithmetic that can wrap is \<open>size_add\<close> and \<open>size_sub\<close>; the wire formats and event masks are words. System calls are parameters
  that answer a request, with what the code relies on as hypotheses. The locale \<open>step_invariant\<close> carries an invariant over runs of
  operations, \<open>trace_refinement\<close> adds an abstraction; the components interpret them on their step functions.

  \<^bold>\<open>Buffers and messages.\<close>
  \<^item> \<open>Byte_Buffer\<close> (include/ByteBuffer.h, src/ByteBuffer.cc): vector, reader and writer index. Every branch of \<^verbatim>\<open>append\<close>; every sequence of operations
    refines a queue of bytes, and clients use the locale \<open>byte_fifo\<close>.
  \<^item> \<open>Byte_Order\<close> (include/ByteOrder.h) and \<open>Net_Buffer\<close> (include/NetBuffer.h, src/NetBuffer.cc): integers in network order round trip between hosts of any byte
    order (locale \<open>net_int\<close>, one interpretation for each width); the result of \<^verbatim>\<open>read_fd\<close>.
  \<^item> \<open>Crc32\<close> (include/Crc32c.h, src/Crc32c.cc): the table-driven routines compute the bitwise remainder and detect bursts.
  \<^item> \<open>Codec_Base\<close> (include/codec/Codec.h): \<^verbatim>\<open>recv\<close> and \<^verbatim>\<open>send\<close> over any decoder. The locales \<open>codec_laws\<close> (the loop returns), \<open>frame_codec\<close> (frames are
    delivered in order) and \<open>stream_codec\<close> (however the stream is cut) are interpreted in \<open>Length_Header_Codec\<close> and \<open>String_Eof_Codec\<close>
    (include/codec/LengthHeaderCodec.h, include/codec/StringEofCodec.h).
  \<^item> \<open>Protobuf_Codec\<close> (include/protobuf/ProtobufCodec.h, include/protobuf/ProtobufDispatch.h) is a third interpretation of \<open>stream_codec\<close>; the protobuf library
    is a record of functions. Sent messages are dispatched in order however the stream is cut, and no input makes the receiver fail. \<open>Protorpc\<close> (include/protorpc/)
    runs a client and a server over it: every call is at one place and is answered once.

  \<^bold>\<open>The reactor.\<close>
  \<^item> \<open>Channel_Poller\<close> (src/Channel.cc, src/Poller.cc, src/PollPoller.cc, src/EPollPoller.cc): a store of channels, the map of the poller and its backend; the
    locale \<open>poll_backend\<close> is interpreted for \<^verbatim>\<open>poll\<close> and \<^verbatim>\<open>epoll\<close>. What is watched stays in step with the channels.
  \<^item> \<open>Event_Loop\<close> (include/EventLoop.h, src/EventLoop.cc): an inductive step relation over the own thread and the callers. No task is lost, repeated or reordered,
    and the loop never sleeps on a pending task.
  \<^item> \<open>Time_Stamp\<close> (include/TimeStamp.h, src/TimeStamp.cc): saturating conversions, arithmetic, exploded times.
  \<^item> \<open>Timer_Pool\<close> and \<open>Timer_Rounds\<close> (src/Timer.cc, src/TimerPool.cc, src/TimerFD.cc, Linux): timers on a heap of objects, tasks from other threads,
    callbacks that add and cancel timers. No deleted timer is accessed and none leaks; a round fires the expired timers once and in order.

  \<^bold>\<open>Connections.\<close>
  \<^item> \<open>Tcp_Connection\<close> (include/TcpConnection.h, src/TcpConnection.cc): the state machine with its queued tasks. Output leaves in order, closing happens once,
    shutdown is graceful. The run theorems leave \<^verbatim>\<open>stop_read\<close> out (\<open>legal_conn_op\<close>), since reading started again after a close registers a
    closed channel (\<open>start_read_after_close\<close>). \<open>poller_implements_channel\<close> connects the model's channel to the poller.
  \<^item> \<open>Tcp_Server\<close> (src/EventLoopPool.cc, src/Acceptor.cc, src/TcpServer.cc): connections over several loops; each living one is listed or queued as its state demands.
  \<^item> \<open>Tcp_Client\<close> (src/Connector.cc, src/TcpClient.cc): attempts, retries and stops as a reachability relation. \<open>permitted\<close> leaves out the uses that the
    findings show to fail: connecting again after a stop, stopping while a retry is queued.

  \<^bold>\<open>Threads.\<close>
  \<^item> \<open>Blocking_Queue\<close> (include/synchronization/BlockingQueue.h, src/CountDownLatch.cc) and \<open>Thread_Pool\<close> (src/ThreadPool.cc): a step is what a thread does under the
    lock; threads sleep, are signalled and wake without a signal in any order. Order, bounds, no thread asleep without need, \<^verbatim>\<open>joinall\<close> runs everything, and the deadlock of a
    bounded pool.

  \<^bold>\<open>Strings and paths.\<close>
  \<^item> \<open>String_Piece\<close> (src/StringPiece.cc), \<open>String_Util\<close> (src/StringUtil.cc), \<open>String_Split\<close> (src/StringSplit.cc): searches against first and last positions,
    comparison against the lexicographic order, the strategies of the replace functions against one reference (locale \<open>matching\<close> for the two
    matchers), splitting against joining.
  \<^item> \<open>File_Path\<close> (src/FilePath.cc): components against a reference, relative paths, extensions, and the representation.
  \<^item> \<open>Log_Stream\<close> (include/LogStream.h, src/LogStream.cc): numbers written into fixed arrays and texts into a bounded buffer, against numerals.

  \<^bold>\<open>Bounds and termination.\<close> \<open>vec_max\<close> is \<open>2 ^ 63 - 1\<close>, the \<^verbatim>\<open>max_size\<close> of vectors and strings on 64-bit targets; results on strings assume
  lengths up to it, so that no length is \<^verbatim>\<open>npos\<close>. There is no fuel: loops whose end is not structural are \<open>function\<close> with a
  measure, or \<open>partial_function (option)\<close>, where not returning is \<^const>\<open>None\<close>, and the theorems state \<^const>\<open>Some\<close>.

  \<^bold>\<open>Not modelled.\<close> Files, directories, sockets and the rest of the thin wrappers of system calls (src/File.cc, src/FileUtil.cc, src/FileUtilPosix.cc,
  src/FileEnumerator.cc, src/SocketsUtil.cc beyond \<^verbatim>\<open>accept\<close>, src/EndPoint.cc, src/EventFD.cc) have no state of their own; their effect is that of the kernel, and the
  modelled parts take it as a parameter. Threads and locks (src/Thread.cc, src/PlatformThread.cc, src/MutexLock.cc, src/ConditionVariable.cc) are the primitives in whose terms the steps of the
  concurrent theories are stated. Logging beyond the text of its stream (src/Logging.cc, src/LogFile.cc) and error texts go to files and to the C library.
  Signals (src/SignalFD.cc, src/SignalServer.cc) and the order of static objects (src/AtExit.cc, include/Singleton.h) belong to the process. Conversions of times from and to \<^verbatim>\<open>double\<close> and the clock are left out. Templates
  that give C++ types a shape (Bind, Any, ScopedGeneric) have no counterpart in HOL. Examples and tests use the library and are not part of it.
\<close>

end
